(* ===== verification/Petix_Prelude.thy ===== *)
theory Petix_Prelude
  imports Main "HOL-Library.Word"
begin

text \<open>
  Shared vocabulary of the development.

  \<^item> Machine integers: petix2 is an i686 kernel, so \<open>size_t\<close>, \<open>long\<close>, \<open>int\<close> and
    pointers have 32 bits, \<open>off_t\<close> (\<open>long long\<close>) has 64 bits and \<open>char\<close> is a signed
    byte.
  \<^item> Outcomes: a C function that may stop the machine or leave the defined part of C returns
    \<open>kerr + 'a\<close>. \<open>Kassert\<close> is a failed \<open>kassert\<close>, \<open>Panic\<close> a call of \<open>panic\<close>
    (both halt forever, \<open>kernel/kdebug.c\<close>), \<open>BadAccess\<close> a read or write outside the object
    a pointer points into, \<open>Spin\<close> a loop that is still going after the rounds it was given.
  \<^item> Pointers that only walk forward over characters (\<open>++s\<close>) are suffixes of the buffer they
    point into: \<open>*s\<close> is the head of the suffix, and reading the empty suffix is
    \<open>BadAccess\<close>. Buffers that are written are lists with an explicit index.
\<close>

section \<open>Machine integers\<close>

type_synonym byte = "8 word"
type_synonym u16 = "16 word"
type_synonym u32 = "32 word"
type_synonym u64 = "64 word"

text \<open>A \<open>char\<close> converted to a 32-bit integer is sign extended.\<close>

abbreviation char_to_u32 :: "byte \<Rightarrow> u32" where
  "char_to_u32 c \<equiv> scast c"

section \<open>Outcomes\<close>

datatype kerr = Kassert | Panic | BadAccess | Spin

fun kbind :: "kerr + 'a \<Rightarrow> ('a \<Rightarrow> kerr + 'b) \<Rightarrow> kerr + 'b" where
  "kbind (Inl e) f = Inl e"
| "kbind (Inr x) f = f x"

text \<open>\<open>kassert_internal\<close>: continue when the test holds, halt otherwise.\<close>

definition kassert :: "bool \<Rightarrow> kerr + unit" where
  "kassert tst = (if tst then Inr () else Inl Kassert)"

definition rd :: "'a list \<Rightarrow> nat \<Rightarrow> kerr + 'a" where
  "rd buf i = (if i < length buf then Inr (buf ! i) else Inl BadAccess)"

definition wr :: "'a list \<Rightarrow> nat \<Rightarrow> 'a \<Rightarrow> kerr + 'a list" where
  "wr buf i v = (if i < length buf then Inr (buf[i := v]) else Inl BadAccess)"

named_theorems kres "rewriting rules for outcomes"

lemma kbind_cong [fundef_cong]:
  "m = m' \<Longrightarrow> (\<And>x. m' = Inr x \<Longrightarrow> f x = f' x) \<Longrightarrow> kbind m f = kbind m' f'"
  by (cases m') auto

lemma kbind_eq_Inr [kres]: "kbind m f = Inr y \<longleftrightarrow> (\<exists>x. m = Inr x \<and> f x = Inr y)"
  by (cases m) auto

lemma kbind_eq_Inl [kres]:
  "kbind m f = Inl e \<longleftrightarrow> m = Inl e \<or> (\<exists>x. m = Inr x \<and> f x = Inl e)"
  by (cases m) auto

lemma kbind_assoc: "kbind (kbind m f) g = kbind m (\<lambda>x. kbind (f x) g)"
  by (cases m) auto

lemma kassert_eq_Inr [simp]: "kassert b = Inr u \<longleftrightarrow> b"
  by (simp add: kassert_def)

lemma kassert_True [simp]: "kassert True = Inr ()"
  by (simp add: kassert_def)

lemma kassert_False [simp]: "kassert False = Inl Kassert"
  by (simp add: kassert_def)

lemma rd_eq_Inr [simp]: "rd buf i = Inr v \<longleftrightarrow> i < length buf \<and> v = buf ! i"
  by (auto simp: rd_def)

lemma rd_in [simp]: "i < length buf \<Longrightarrow> rd buf i = Inr (buf ! i)"
  by simp

lemma rd_out [simp]: "length buf \<le> i \<Longrightarrow> rd buf i = Inl BadAccess"
  by (simp add: rd_def)

lemma wr_eq_Inr [simp]: "wr buf i v = Inr b \<longleftrightarrow> i < length buf \<and> b = buf[i := v]"
  by (auto simp: wr_def)

lemma wr_in [simp]: "i < length buf \<Longrightarrow> wr buf i v = Inr (buf[i := v])"
  by simp

lemma wr_out [simp]: "length buf \<le> i \<Longrightarrow> wr buf i v = Inl BadAccess"
  by (simp add: wr_def)

text \<open>Following a pointer that may be \<open>NULL\<close> or point to nothing.\<close>

definition deref :: "'a option \<Rightarrow> kerr + 'a" where
  "deref p = (case p of None \<Rightarrow> Inl BadAccess | Some x \<Rightarrow> Inr x)"

lemma deref_simps [simp]: "deref None = Inl BadAccess" "deref (Some x) = Inr x"
  by (simp_all add: deref_def)

lemma deref_eq_Inr [simp]: "deref p = Inr x \<longleftrightarrow> p = Some x"
  by (cases p) auto

text \<open>A sequence of steps, each of which may fail.\<close>

fun run_steps :: "('s \<Rightarrow> 'op \<Rightarrow> 's option) \<Rightarrow> 's \<Rightarrow> 'op list \<Rightarrow> 's option" where
  "run_steps f s [] = Some s"
| "run_steps f s (op # ops) = Option.bind (f s op) (\<lambda>s'. run_steps f s' ops)"

text \<open>A loop over a list of values.\<close>

fun for_each :: "('a \<Rightarrow> 's \<Rightarrow> kerr + 's) \<Rightarrow> 'a list \<Rightarrow> 's \<Rightarrow> kerr + 's" where
  "for_each f [] s = Inr s"
| "for_each f (x # xs) s = kbind (f x s) (for_each f xs)"

lemma for_each_append: "for_each f (xs @ ys) s = kbind (for_each f xs s) (for_each f ys)"
proof (induction xs arbitrary: s)
  case (Cons x xs)
  then show ?case by (cases "f x s") simp_all
qed simp

lemma for_each_keeps:
  "for_each f xs s = Inr s' \<Longrightarrow> P s \<Longrightarrow> (\<And>x s s'. f x s = Inr s' \<Longrightarrow> P s \<Longrightarrow> P s') \<Longrightarrow> P s'"
  by (induction xs arbitrary: s) (auto simp: kres)

lemma for_each_cong [fundef_cong]:
  "xs = ys \<Longrightarrow> s = s' \<Longrightarrow> (\<And>x s. x \<in> set ys \<Longrightarrow> f x s = g x s) \<Longrightarrow> for_each f xs s = for_each g ys s'"
proof -
  have "(\<And>x s. x \<in> set ys \<Longrightarrow> f x s = g x s) \<Longrightarrow> for_each f ys s' = for_each g ys s'"
  proof (induction ys arbitrary: s')
    case (Cons y ys)
    then show ?case by (cases "g y s'") simp_all
  qed simp
  then show "xs = ys \<Longrightarrow> s = s' \<Longrightarrow> (\<And>x s. x \<in> set ys \<Longrightarrow> f x s = g x s) \<Longrightarrow> for_each f xs s = for_each g ys s'" by simp
qed

section \<open>Generic lemmas on words\<close>

lemma unat_u32_less: "unat (w::u32) < 2 ^ 32"
  using unsigned_less [of w] by simp

lemma unat_of_nat_u32: "n < 2 ^ 32 \<Longrightarrow> unat (of_nat n :: u32) = n"
  by (simp add: unat_of_nat take_bit_nat_eq_self)

lemma of_nat_div_u32: "m < 2 ^ 32 \<Longrightarrow> n < 2 ^ 32 \<Longrightarrow> of_nat m div of_nat n = (of_nat (m div n) :: u32)"
proof -
  assume m: "m < 2 ^ 32" "n < 2 ^ 32"
  then have "m div n < 2 ^ 32" by (meson div_le_dividend le_less_trans)
  with m show ?thesis by (simp add: word_unat_eq_iff unat_div_distrib unat_of_nat_u32 del: of_nat_numeral)
qed

section \<open>Positions around a ring\<close>

lemma mod_offset_inj: "j < d \<Longrightarrow> d < b \<Longrightarrow> (s + j) mod b \<noteq> (s + d) mod (b::nat)"
  using mod_eq_dvd_iff_nat [of "s + j" "s + d" b] nat_dvd_not_less [of "d - j" b] by auto

section \<open>Generic lemmas on lists\<close>

lemma takeWhile_eq_self: "(\<And>x. x \<in> set xs \<Longrightarrow> P x) \<Longrightarrow> takeWhile P xs = xs"
  by (simp add: takeWhile_eq_all_conv)

lemma length_takeWhile_less: "\<exists>x \<in> set xs. \<not> P x \<Longrightarrow> length (takeWhile P xs) < length xs"
  by (induction xs) auto

lemma nth_takeWhile_stop:
  "length (takeWhile P xs) < length xs \<Longrightarrow> \<not> P (xs ! length (takeWhile P xs))"
  by (rule nth_length_takeWhile)

lemma remove_nth:
  assumes "distinct xs" "i < length xs"
  shows "distinct (take i xs @ drop (Suc i) xs)"
    "set (take i xs @ drop (Suc i) xs) = set xs - {xs ! i}"
proof -
  define us x vs where d: "us = take i xs" "x = xs ! i" "vs = drop (Suc i) xs"
  have "xs = us @ x # vs" using assms(2) by (simp add: d id_take_nth_drop)
  with assms(1) have "distinct (us @ vs)" "set (us @ vs) = set xs - {x}" by auto
  then show "distinct (take i xs @ drop (Suc i) xs)"
    "set (take i xs @ drop (Suc i) xs) = set xs - {xs ! i}" by (simp_all add: d)
qed

end
