(* ===== verification/CString.thy ===== *)
theory CString
  imports Petix_Prelude
begin

text \<open>
  The string library \<open>libc/string\<close>, which the kernel and the user programs share. A
  \<open>const char *\<close> is the suffix of the buffer it points into; the string it denotes is
  \<open>cstr\<close>, the bytes before the first NUL. Functions that write take the written buffer and
  an offset into it. A pointer result is an offset, \<open>None\<close> is \<open>NULL\<close>.
\<close>

section \<open>The string a buffer denotes\<close>

definition cstr :: "byte list \<Rightarrow> byte list" where
  "cstr s = takeWhile (\<lambda>c. c \<noteq> 0) s"

definition terminated :: "byte list \<Rightarrow> bool" where
  "terminated s \<longleftrightarrow> 0 \<in> set s"

text \<open>The array a string literal denotes.\<close>

definition lit :: "string \<Rightarrow> byte list" where
  "lit s = map of_char s @ [0]"

section \<open>The source: reading\<close>

text \<open>\<open>strlen\<close>: the loop advances \<open>len\<close> while \<open>s[len]\<close> is not NUL.\<close>

fun strlen :: "byte list \<Rightarrow> kerr + nat" where
  "strlen [] = Inl BadAccess"
| "strlen (c # s) = (if c = 0 then Inr 0 else kbind (strlen s) (\<lambda>n. Inr (Suc n)))"

text \<open>\<open>strnlen\<close>: the bound is \<open>len <= maxlen\<close>; the first argument is \<open>len\<close>.\<close>

fun strnlen_from :: "nat \<Rightarrow> byte list \<Rightarrow> nat \<Rightarrow> kerr + nat" where
  "strnlen_from len s maxlen =
     (if len \<le> maxlen
      then (case s of [] \<Rightarrow> Inl BadAccess
            | c # s' \<Rightarrow> if c \<noteq> 0 then strnlen_from (Suc len) s' maxlen else Inr len)
      else Inr len)"

definition strnlen :: "byte list \<Rightarrow> nat \<Rightarrow> kerr + nat" where
  "strnlen s maxlen = strnlen_from 0 s maxlen"

text \<open>Comparisons return the difference of the two bytes read as \<open>unsigned char\<close>.\<close>

fun strcmp :: "byte list \<Rightarrow> byte list \<Rightarrow> kerr + int" where
  "strcmp (a # s1) (b # s2) =
     (if a = b \<and> a \<noteq> 0 then strcmp s1 s2 else Inr (uint a - uint b))"
| "strcmp _ _ = Inl BadAccess"

text \<open>\<open>strncmp\<close> and \<open>memcmp\<close> read \<open>*s1\<close> and \<open>*s2\<close> before they test \<open>n\<close>.\<close>

fun strncmp :: "byte list \<Rightarrow> byte list \<Rightarrow> nat \<Rightarrow> kerr + int" where
  "strncmp (a # s1) (b # s2) n =
     (if a = b \<and> a \<noteq> 0 \<and> n \<noteq> 0 then strncmp s1 s2 (n - 1)
      else if n = 0 then Inr 0 else Inr (uint a - uint b))"
| "strncmp _ _ _ = Inl BadAccess"

fun memcmp :: "byte list \<Rightarrow> byte list \<Rightarrow> nat \<Rightarrow> kerr + int" where
  "memcmp (a # s1) (b # s2) n =
     (if a = b \<and> n > 0 then memcmp s1 s2 (n - 1)
      else if n = 0 then Inr 0 else Inr (uint a - uint b))"
| "memcmp _ _ _ = Inl BadAccess"

text \<open>A \<open>char\<close> compared with an \<open>int\<close> is sign extended.\<close>

fun strchr :: "byte list \<Rightarrow> int \<Rightarrow> kerr + nat option" where
  "strchr [] c = Inl BadAccess"
| "strchr (x # s) c =
     (if x \<noteq> 0
      then if sint x = c then Inr (Some 0)
           else kbind (strchr s c) (\<lambda>r. Inr (map_option Suc r))
      else Inr None)"

fun memchr :: "byte list \<Rightarrow> int \<Rightarrow> nat \<Rightarrow> kerr + nat option" where
  "memchr s c 0 = Inr None"
| "memchr [] c (Suc n) = Inl BadAccess"
| "memchr (x # s) c (Suc n) =
     (if sint x = c then Inr (Some 0)
      else kbind (memchr s c n) (\<lambda>r. Inr (map_option Suc r)))"

section \<open>The source: writing\<close>

text \<open>\<open>memcpy\<close> between two distinct objects: \<open>dst\<close> from offset \<open>i\<close> on.\<close>

fun memcpy :: "'a list \<Rightarrow> nat \<Rightarrow> 'a list \<Rightarrow> nat \<Rightarrow> kerr + 'a list" where
  "memcpy dst i src 0 = Inr dst"
| "memcpy dst i [] (Suc n) = Inl BadAccess"
| "memcpy dst i (c # src) (Suc n) = kbind (wr dst i c) (\<lambda>d. memcpy d (Suc i) src n)"

fun memset :: "'a list \<Rightarrow> nat \<Rightarrow> 'a \<Rightarrow> nat \<Rightarrow> kerr + 'a list" where
  "memset dst i c 0 = Inr dst"
| "memset dst i c (Suc n) = kbind (wr dst i c) (\<lambda>d. memset d (Suc i) c n)"

text \<open>\<open>strncpy\<close>: copy up to NUL or \<open>n\<close> bytes, then fill the rest of the \<open>n\<close> with NUL.\<close>

fun strncpy :: "byte list \<Rightarrow> nat \<Rightarrow> byte list \<Rightarrow> nat \<Rightarrow> kerr + byte list" where
  "strncpy dest i src 0 = Inr dest"
| "strncpy dest i [] (Suc n) = Inl BadAccess"
| "strncpy dest i (c # src) (Suc n) =
     (if c \<noteq> 0 then kbind (wr dest i c) (\<lambda>d. strncpy d (Suc i) src n)
      else memset dest i 0 (Suc n))"

text \<open>\<open>strncat\<close>: \<open>n\<close> is the size of the destination, \<open>n - off\<close> wraps as \<open>size_t\<close>.\<close>

definition strncat :: "byte list \<Rightarrow> byte list \<Rightarrow> nat \<Rightarrow> kerr + byte list" where
  "strncat dest src n =
     kbind (strnlen dest n) (\<lambda>off.
     strncpy dest off src (unat (of_nat n - of_nat off :: u32)))"

section \<open>The source: \<open>strtok_r\<close>\<close>

text \<open>The two scanning loops over the buffer \<open>b\<close>, from position \<open>str\<close>.\<close>

function strtok_skip :: "byte list \<Rightarrow> byte list \<Rightarrow> nat \<Rightarrow> kerr + nat" where
  "strtok_skip delim b str =
     kbind (rd b str) (\<lambda>c.
       if c \<noteq> 0
       then kbind (strchr delim (sint c)) (\<lambda>r.
              if r \<noteq> None then strtok_skip delim b (Suc str) else Inr str)
       else Inr str)"
  by pat_completeness auto
termination
  by (relation "measure (\<lambda>(delim, b, str). length b - str)") auto

function strtok_span :: "byte list \<Rightarrow> byte list \<Rightarrow> nat \<Rightarrow> kerr + nat" where
  "strtok_span delim b str =
     kbind (rd b str) (\<lambda>c.
       if c \<noteq> 0
       then kbind (strchr delim (sint c)) (\<lambda>r.
              if r = None then strtok_span delim b (Suc str) else Inr str)
       else Inr str)"
  by pat_completeness auto
termination
  by (relation "measure (\<lambda>(delim, b, str). length b - str)") auto

text \<open>
  \<open>strtok_r str delim save\<close>: \<open>str\<close> is \<open>None\<close> for \<open>NULL\<close>. The result is the token's offset
  (or \<open>None\<close>), the new \<open>*save\<close> and the buffer with the token cut off by a NUL.
\<close>

definition strtok_r ::
    "nat option \<Rightarrow> byte list \<Rightarrow> nat \<Rightarrow> byte list \<Rightarrow> kerr + (nat option \<times> nat \<times> byte list)" where
  "strtok_r str delim save b =
     kbind (strtok_skip delim b (case str of None \<Rightarrow> save | Some p \<Rightarrow> p)) (\<lambda>ret.
     kbind (rd b ret) (\<lambda>c.
     if c = 0 then Inr (None, save, b)
     else kbind (strtok_span delim b ret) (\<lambda>p.
          kbind (rd b p) (\<lambda>c'.
          if c' = 0 then Inr (Some ret, p, b)
          else kbind (wr b p 0) (\<lambda>b'. Inr (Some ret, Suc p, b'))))))"

declare strnlen_from.simps [simp del] strtok_skip.simps [simp del] strtok_span.simps [simp del]


text \<open>What the loops over \<open>strtok_r\<close> need for their termination.\<close>

lemma strtok_skip_progress:
  "strtok_skip delim b p = Inr q \<Longrightarrow>
   p \<le> q \<and> q < length b \<and> (b ! q \<noteq> 0 \<longrightarrow> strchr delim (sint (b ! q)) = Inr None)"
proof (induction delim b p rule: strtok_skip.induct)
  case (1 delim b p)
  note eq = 1(2) [unfolded strtok_skip.simps [of delim b p]]
  then have p: "p < length b" by (auto simp: kres)
  show ?case
  proof (cases "b ! p \<noteq> 0")
    case True
    with eq obtain r where r: "strchr delim (sint (b ! p)) = Inr r" by (auto simp: kres)
    show ?thesis
    proof (cases "r \<noteq> None")
      case go: True
      with eq p r True have "strtok_skip delim b (Suc p) = Inr q" by simp
      from 1(1) [OF _ True r go this] p show ?thesis by simp
    next
      case False
      with eq p r True have "q = p" by simp
      with p r False show ?thesis by simp
    qed
  next
    case False
    with eq p show ?thesis by auto
  qed
qed

lemma strtok_span_progress: "strtok_span delim b p = Inr q \<Longrightarrow> p \<le> q \<and> q < length b"
proof (induction delim b p rule: strtok_span.induct)
  case (1 delim b p)
  note eq = 1(2) [unfolded strtok_span.simps [of delim b p]]
  then have p: "p < length b" by (auto simp: kres)
  show ?case
  proof (cases "b ! p \<noteq> 0")
    case True
    with eq obtain r where r: "strchr delim (sint (b ! p)) = Inr r" by (auto simp: kres)
    show ?thesis
    proof (cases "r = None")
      case go: True
      with eq p r True have "strtok_span delim b (Suc p) = Inr q" by simp
      from 1(1) [OF _ True r go this] p show ?thesis by simp
    next
      case False
      with eq p r True have "q = p" by simp
      with p r False show ?thesis by simp
    qed
  next
    case False
    with eq p show ?thesis by auto
  qed
qed

lemma strtok_r_progress:
  assumes "strtok_r str delim save b = Inr (Some r, save', b')"
  shows "(case str of None \<Rightarrow> save | Some p \<Rightarrow> p) \<le> r" "r < save'" "r < length b"
    "length b' = length b"
proof -
  let ?p = "case str of None \<Rightarrow> save | Some p \<Rightarrow> p"
  from assms obtain q where sk: "strtok_skip delim b ?p = Inr r" "b ! r \<noteq> 0"
    and sp: "strtok_span delim b r = Inr q"
    and res: "save' = q \<and> b' = b \<or> save' = Suc q \<and> b' = b[q := 0]"
    by (auto simp: strtok_r_def kres split: if_splits)
  from strtok_skip_progress [OF sk(1)] sk(2)
  have p: "?p \<le> r" "r < length b" and "strchr delim (sint (b ! r)) = Inr None" by auto
  with sp sk(2) have "strtok_span delim b (Suc r) = Inr q"
    by (subst (asm) strtok_span.simps) simp
  then have "Suc r \<le> q" by (rule strtok_span_progress [THEN conjunct1])
  with p res show "?p \<le> r" "r < save'" "r < length b" "length b' = length b" by auto
qed

lemma strtok_r_measure:
  assumes "strtok_r str delim save b = Inr (Some r, save', b')"
  shows "length b' - save' < length b - (case str of None \<Rightarrow> save | Some p \<Rightarrow> p)"
  using strtok_r_progress [OF assms] by linarith

text \<open>
  The idiom \<open>for (i = strtok_r(s, d, &save); i != NULL; i = strtok_r(NULL, d, &save))\<close>,
  collecting the token of every round with the value \<open>save\<close> has in that round.
\<close>

function strtok_loop ::
    "byte list \<Rightarrow> nat option \<Rightarrow> nat \<Rightarrow> byte list \<Rightarrow> kerr + (byte list \<times> nat) list" where
  "strtok_loop delim str save b =
     kbind (strtok_r str delim save b) (\<lambda>(i, save', b').
       case i of
         None \<Rightarrow> Inr []
       | Some r \<Rightarrow> kbind (strtok_loop delim None save' b')
                    (\<lambda>ts. Inr ((cstr (drop r b'), save') # ts)))"
  by pat_completeness auto
termination
  by (relation "measure (\<lambda>(delim, str, save, b).
        length b - (case str of None \<Rightarrow> save | Some p \<Rightarrow> p))")
     (auto dest: strtok_r_measure)

text \<open>
  The same loop with a body: it gets the token, \<open>save\<close> and the state of the loop and tells whether
  the loop goes on or is left by \<open>break\<close> or \<open>return\<close>.
\<close>

function strtok_iter :: "byte list \<Rightarrow> (byte list \<Rightarrow> nat \<Rightarrow> 's \<Rightarrow> kerr + (bool \<times> 's)) \<Rightarrow> nat option \<Rightarrow> nat \<Rightarrow>
    byte list \<Rightarrow> 's \<Rightarrow> kerr + 's" where
  "strtok_iter delim body str save b st =
     kbind (strtok_r str delim save b) (\<lambda>(i, save', b').
       case i of
         None \<Rightarrow> Inr st
       | Some r \<Rightarrow> kbind (body (cstr (drop r b')) save' st)
                    (\<lambda>(go, st'). if go then strtok_iter delim body None save' b' st' else Inr st'))"
  by pat_completeness auto
termination
  by (relation "measure (\<lambda>(delim, body, str, save, b, st).
        length b - (case str of None \<Rightarrow> save | Some p \<Rightarrow> p))")
     (auto dest: strtok_r_measure)

declare strtok_loop.simps [simp del] strtok_iter.simps [simp del]

section \<open>Lemmas: denoted strings\<close>

lemma cstr_simps [simp]:
  "cstr [] = []" "cstr (c # s) = (if c = 0 then [] else c # cstr s)"
  by (simp_all add: cstr_def)

lemma terminated_simps [simp]:
  "\<not> terminated []" "terminated (c # s) \<longleftrightarrow> c = 0 \<or> terminated s"
  by (auto simp: terminated_def)

lemma terminated_append [simp]: "terminated (xs @ ys) \<longleftrightarrow> terminated xs \<or> terminated ys"
  by (auto simp: terminated_def)

lemma zero_notin_cstr [simp]: "0 \<notin> set (cstr s)"
  by (induction s) auto

lemma cstr_not_terminated: "\<not> terminated s \<Longrightarrow> cstr s = s"
  by (induction s) auto

lemma cstr_append: "cstr (xs @ ys) = (if terminated xs then cstr xs else xs @ cstr ys)"
  by (induction xs) auto

lemma cstr_cstr_zero [simp]: "0 \<notin> set xs \<Longrightarrow> cstr (xs @ 0 # ys) = xs"
  by (induction xs) auto

lemma length_cstr_le: "length (cstr s) \<le> length s"
  by (simp add: cstr_def length_takeWhile_le)

lemma terminated_length_cstr: "terminated s \<longleftrightarrow> length (cstr s) < length s"
  by (induction s) auto

lemma terminated_decomp: "terminated s \<Longrightarrow> s = cstr s @ 0 # drop (Suc (length (cstr s))) s"
  by (induction s) auto

lemma nth_cstr: "i < length (cstr s) \<Longrightarrow> cstr s ! i = s ! i"
  by (simp add: cstr_def takeWhile_nth)

lemma drop_cstr: "i \<le> length (cstr s) \<Longrightarrow> cstr (drop i s) = drop i (cstr s)"
proof (induction s arbitrary: i)
  case (Cons c s)
  then show ?case by (cases i) auto
qed simp

lemma terminated_drop: "terminated s \<Longrightarrow> i \<le> length (cstr s) \<Longrightarrow> terminated (drop i s)"
proof (induction s arbitrary: i)
  case (Cons c s)
  then show ?case by (cases i) (auto split: if_splits)
qed simp

lemma set_lit [simp]: "terminated (lit s)"
  by (simp add: lit_def)

section \<open>Lemmas: reading\<close>

lemma strlen_eq: "strlen s = (if terminated s then Inr (length (cstr s)) else Inl BadAccess)"
  by (induction s) auto

lemma strnlen_from_eq:
  "terminated s \<Longrightarrow> len \<le> maxlen \<Longrightarrow>
   strnlen_from len s maxlen = Inr (min (len + length (cstr s)) (Suc maxlen))"
proof (induction s arbitrary: len)
  case (Cons c s)
  show ?case
  proof (cases "c = 0 \<or> Suc len \<le> maxlen")
    case True
    with Cons show ?thesis by (subst strnlen_from.simps) (auto simp: min_def)
  next
    case False
    with Cons.prems have "len = maxlen" by simp
    with False show ?thesis
      by (subst strnlen_from.simps) (auto simp: strnlen_from.simps [of "Suc maxlen"])
  qed
qed simp

lemma strcmp_refines:
  "terminated s1 \<Longrightarrow> terminated s2 \<Longrightarrow> \<exists>r. strcmp s1 s2 = Inr r \<and> (r = 0 \<longleftrightarrow> cstr s1 = cstr s2)"
proof (induction s1 s2 rule: strcmp.induct)
  case (1 a s1 b s2)
  show ?case
  proof (cases "a = b \<and> a \<noteq> 0")
    case True
    with 1 show ?thesis by auto
  next
    case False
    have "(uint a - uint b = 0) = (a = b)" by (simp add: word_uint_eq_iff)
    with False show ?thesis by auto
  qed
qed auto

lemma strncmp_refines:
  "terminated s1 \<Longrightarrow> terminated s2 \<Longrightarrow>
   \<exists>r. strncmp s1 s2 n = Inr r \<and> (r = 0 \<longleftrightarrow> take n (cstr s1) = take n (cstr s2))"
proof (induction s1 s2 n rule: strncmp.induct)
  case (1 a s1 b s2 n)
  show ?case
  proof (cases "a = b \<and> a \<noteq> 0 \<and> n \<noteq> 0")
    case True
    with 1 obtain m where "n = Suc m" by (cases n) auto
    with True 1 show ?thesis by auto
  next
    case False
    have "(uint a - uint b = 0) = (a = b)" by (simp add: word_uint_eq_iff)
    with False show ?thesis by (cases n) auto
  qed
qed auto

lemma memcmp_refines:
  "n < length s1 \<Longrightarrow> n < length s2 \<Longrightarrow>
   \<exists>r. memcmp s1 s2 n = Inr r \<and> (r = 0 \<longleftrightarrow> take n s1 = take n s2)"
proof (induction s1 s2 n rule: memcmp.induct)
  case (1 a s1 b s2 n)
  have "(uint a - uint b = 0) = (a = b)" by (simp add: word_uint_eq_iff)
  with 1 show ?case by (cases n) auto
qed auto

text \<open>Where the buffers agree on \<open>n\<close> bytes and one of them ends there, the loop reads past it.\<close>

lemma memcmp_overread: "length s1 = n \<Longrightarrow> take n s2 = s1 \<Longrightarrow> memcmp s1 s2 n = Inl BadAccess"
proof (induction s1 arbitrary: s2 n)
  case (Cons a s1)
  then show ?case by (cases s2; cases n) auto
qed auto

lemma strchr_eq:
  "terminated s \<Longrightarrow> strchr s c =
     Inr (if \<exists>x \<in> set (cstr s). sint x = c
          then Some (length (takeWhile (\<lambda>x. sint x \<noteq> c) (cstr s))) else None)"
  by (induction s) auto

lemma memchr_eq:
  "n \<le> length s \<Longrightarrow> memchr s c n =
     Inr (if \<exists>x \<in> set (take n s). sint x = c
          then Some (length (takeWhile (\<lambda>x. sint x \<noteq> c) (take n s))) else None)"
  by (induction s c n rule: memchr.induct) auto

section \<open>Lemmas: writing\<close>

lemma memcpy_eq:
  "n \<le> length src \<Longrightarrow> i + n \<le> length dst \<Longrightarrow>
   memcpy dst i src n = Inr (take i dst @ take n src @ drop (i + n) dst)"
proof (induction dst i src n rule: memcpy.induct)
  case (3 dst i c src n)
  have "take (Suc i) (dst[i := c]) = take i dst @ [c]"
    using 3 by (simp add: take_Suc_conv_app_nth)
  with 3 show ?case by simp
qed auto

lemma memset_eq:
  "i + n \<le> length dst \<Longrightarrow>
   memset dst i c n = Inr (take i dst @ replicate n c @ drop (i + n) dst)"
proof (induction dst i c n rule: memset.induct)
  case (2 dst i c n)
  have "take (Suc i) (dst[i := c]) = take i dst @ [c]"
    using 2 by (simp add: take_Suc_conv_app_nth)
  with 2 show ?case by simp
qed auto

lemma strncpy_eq:
  "terminated src \<or> n \<le> length src \<Longrightarrow> i + n \<le> length dest \<Longrightarrow>
   strncpy dest i src n =
     Inr (take i dest @ take n (cstr src @ replicate n 0) @ drop (i + n) dest)"
proof (induction dest i src n rule: strncpy.induct)
  case (3 dest i c src n)
  show ?case
  proof (cases "c = 0")
    case True
    with 3 show ?thesis by (simp add: memset_eq del: memset.simps replicate_Suc)
  next
    case False
    have "take (Suc i) (dest[i := c]) = take i dest @ [c]"
      using 3 False by (simp add: take_Suc_conv_app_nth)
    moreover have "take n (cstr src @ replicate n 0) = take n (cstr src @ replicate (Suc n) 0)"
      by (simp add: take_replicate min_def del: replicate_Suc)
    ultimately show ?thesis using 3 False by (simp del: replicate_Suc)
  qed
qed auto

section \<open>Lemmas: tokens\<close>

text \<open>The reference: the maximal runs of bytes that are not delimiters.\<close>

function tokens :: "byte list \<Rightarrow> byte list \<Rightarrow> byte list list" where
  "tokens ds s =
     (let t = dropWhile (\<lambda>c. c \<in> set ds) s
      in if t = [] then []
         else takeWhile (\<lambda>c. c \<notin> set ds) t # tokens ds (dropWhile (\<lambda>c. c \<notin> set ds) t))"
  by pat_completeness auto
termination
proof (relation "measure (\<lambda>(ds, s). length s)", simp)
  fix ds s t :: "byte list"
  assume t: "t = dropWhile (\<lambda>c. c \<in> set ds) s" and ne: "t \<noteq> []"
  then have "hd t \<notin> set ds" using hd_dropWhile by blast
  with ne obtain c t' where c: "t = c # t'" "c \<notin> set ds" by (cases t) auto
  have "length (dropWhile (\<lambda>c. c \<notin> set ds) t') \<le> length t'"
    by (rule length_dropWhile_le)
  with c have "length (dropWhile (\<lambda>c. c \<notin> set ds) t) < length t" by simp
  moreover have "length t \<le> length s" by (simp add: t length_dropWhile_le)
  ultimately show "((ds, dropWhile (\<lambda>c. c \<notin> set ds) t), ds, s) \<in> measure (\<lambda>(ds, s). length s)"
    by simp
qed

declare tokens.simps [simp del]

lemma strchr_delim:
  assumes "terminated delim"
  shows "\<exists>r. strchr delim (sint c) = Inr r \<and> (r \<noteq> None \<longleftrightarrow> c \<in> set (cstr delim))"
proof -
  have "(\<exists>x \<in> set (cstr delim). sint x = sint c) \<longleftrightarrow> c \<in> set (cstr delim)"
    by (auto dest: signed_word_eqI)
  with assms show ?thesis by (simp add: strchr_eq)
qed

lemma strtok_skip_eq:
  "terminated delim \<Longrightarrow> terminated (drop p b) \<Longrightarrow>
   strtok_skip delim b p =
     Inr (p + length (takeWhile (\<lambda>c. c \<in> set (cstr delim)) (cstr (drop p b))))"
proof (induction delim b p rule: strtok_skip.induct)
  case (1 delim b p)
  from 1 have p: "p < length b" by (cases "p < length b") auto
  then have d: "drop p b = b ! p # drop (Suc p) b" by (simp add: Cons_nth_drop_Suc)
  from strchr_delim [OF 1(2)] obtain r where
    r: "strchr delim (sint (b ! p)) = Inr r" "r \<noteq> None \<longleftrightarrow> b ! p \<in> set (cstr delim)" by blast
  show ?case
  proof (cases "b ! p \<noteq> 0 \<and> b ! p \<in> set (cstr delim)")
    case True
    with p r 1 d show ?thesis by (subst strtok_skip.simps) auto
  next
    case False
    with p r d show ?thesis by (subst strtok_skip.simps) auto
  qed
qed

lemma strtok_span_eq:
  "terminated delim \<Longrightarrow> terminated (drop p b) \<Longrightarrow>
   strtok_span delim b p =
     Inr (p + length (takeWhile (\<lambda>c. c \<notin> set (cstr delim)) (cstr (drop p b))))"
proof (induction delim b p rule: strtok_span.induct)
  case (1 delim b p)
  from 1 have p: "p < length b" by (cases "p < length b") auto
  then have d: "drop p b = b ! p # drop (Suc p) b" by (simp add: Cons_nth_drop_Suc)
  from strchr_delim [OF 1(2)] obtain r where
    r: "strchr delim (sint (b ! p)) = Inr r" "r \<noteq> None \<longleftrightarrow> b ! p \<in> set (cstr delim)" by blast
  show ?case
  proof (cases "b ! p \<noteq> 0 \<and> b ! p \<notin> set (cstr delim)")
    case True
    with p r 1 d show ?thesis by (subst strtok_span.simps) auto
  next
    case False
    with p r d show ?thesis by (subst strtok_span.simps) auto
  qed
qed

text \<open>One call, in terms of the string that starts at the scanning position.\<close>

lemma strtok_r_eq:
  fixes delim b p
  defines "D \<equiv> \<lambda>c. c \<in> set (cstr delim)" and "s \<equiv> cstr (drop p b)"
  defines "r \<equiv> p + length (takeWhile D s)"
  defines "q \<equiv> r + length (takeWhile (\<lambda>c. \<not> D c) (dropWhile D s))"
  assumes d: "terminated delim" and b: "terminated (drop p b)"
    and p: "p = (case str of None \<Rightarrow> save | Some p \<Rightarrow> p)"
  shows "strtok_r str delim save b =
     (if dropWhile D s = [] then Inr (None, save, b)
      else if q = p + length s then Inr (Some r, q, b)
      else Inr (Some r, Suc q, b[q := 0]))"
proof -
  have len: "length s < length b - p"
    using b unfolding s_def terminated_length_cstr by simp
  have split: "length (takeWhile D s) + length (dropWhile D s) = length s"
    by (metis length_append takeWhile_dropWhile_id)
  have at: "b ! (p + i) = s ! i" if "i < length s" for i
    using that len by (simp add: s_def nth_cstr)
  have stop: "b ! (p + length s) = 0"
    using nth_length_takeWhile [of "\<lambda>c. c \<noteq> 0" "drop p b"] len by (simp add: s_def cstr_def)
  have sk: "strtok_skip delim b p = Inr r"
    unfolding r_def s_def D_def by (rule strtok_skip_eq [OF d b])
  have dr: "drop r b = drop (length (takeWhile D s)) (drop p b)" by (simp add: r_def add.commute)
  have cr: "cstr (drop r b) = dropWhile D s"
    unfolding dr dropWhile_eq_drop s_def
    by (rule drop_cstr) (simp add: s_def [symmetric] length_takeWhile_le)
  have tr: "terminated (drop r b)"
    unfolding dr
    by (rule terminated_drop [OF b]) (simp add: s_def [symmetric] length_takeWhile_le)
  have sp: "strtok_span delim b r = Inr q"
    unfolding q_def using strtok_span_eq [OF d tr] by (simp add: cr D_def)
  have q_le: "q \<le> p + length s"
    using length_takeWhile_le [of "\<lambda>c. \<not> D c" "dropWhile D s"] split
    by (simp add: q_def r_def)
  have nz: "0 \<notin> set s" by (simp add: s_def)
  show ?thesis
  proof (cases "dropWhile D s = []")
    case True
    with split have "r = p + length s" by (simp add: r_def)
    with True sk p stop len show ?thesis by (simp add: strtok_r_def)
  next
    case False
    then have "0 < length (dropWhile D s)" by (rule length_greater_0_conv [THEN iffD2])
    with split have lt: "length (takeWhile D s) < length s" by linarith
    have "s ! length (takeWhile D s) \<in> set s" using lt by (rule nth_mem)
    with nz have "s ! length (takeWhile D s) \<noteq> 0" by metis
    then have "b ! r \<noteq> 0" "r < length b" using at [OF lt] len lt by (simp_all add: r_def)
    moreover have "b ! q = 0 \<longleftrightarrow> q = p + length s"
    proof (cases "q = p + length s")
      case True then show ?thesis by (simp add: stop)
    next
      case False
      with q_le have "q - p < length s" by (simp add: q_def r_def)
      moreover have "p + (q - p) = q" by (simp add: q_def r_def)
      ultimately have "b ! q = s ! (q - p)" "s ! (q - p) \<in> set s"
        using at [of "q - p"] by auto
      with nz False show ?thesis by auto
    qed
    moreover have "q < length b" using q_le len by simp
    ultimately show ?thesis using False sk sp p by (simp add: strtok_r_def)
  qed
qed

lemma tokens_delim: "d \<in> set ds \<Longrightarrow> tokens ds (d # s) = tokens ds s"
  by (subst (1 2) tokens.simps) simp

lemma tokens_Nil [simp]: "tokens ds [] = []"
  by (subst tokens.simps) simp

text \<open>
  One round: either there is no token left, or the call returns the first token and leaves
  \<open>save\<close> where the remaining tokens start. Cutting changes nothing behind the cut.
\<close>

lemma strtok_r_round:
  assumes d: "terminated delim" and b: "terminated (drop p b)"
    and p: "p = (case str of None \<Rightarrow> save | Some p \<Rightarrow> p)"
  obtains (finished) "strtok_r str delim save b = Inr (None, save, b)"
      "tokens (cstr delim) (cstr (drop p b)) = []"
  | (token) r save' b' where "strtok_r str delim save b = Inr (Some r, save', b')"
      "terminated (drop save' b')"
      "tokens (cstr delim) (cstr (drop p b)) =
         cstr (drop r b') # tokens (cstr delim) (cstr (drop save' b'))"
      "drop save' b' = drop save' b"
      "save' + length (cstr (drop save' b)) \<le> p + length (cstr (drop p b))"
proof -
  define D where "D = (\<lambda>c. c \<in> set (cstr delim))"
  define s where "s = cstr (drop p b)"
  define W where "W = takeWhile (\<lambda>c. \<not> D c) (dropWhile D s)"
  define R where "R = dropWhile (\<lambda>c. \<not> D c) (dropWhile D s)"
  define r where "r = p + length (takeWhile D s)"
  define q where "q = r + length W"
  have call: "strtok_r str delim save b =
     (if dropWhile D s = [] then Inr (None, save, b)
      else if q = p + length s then Inr (Some r, q, b)
      else Inr (Some r, Suc q, b[q := 0]))"
    unfolding q_def r_def W_def s_def D_def by (rule strtok_r_eq [OF d b p])
  have s: "s = takeWhile D s @ W @ R" by (simp add: W_def R_def)
  have len: "length s < length b - p"
    using b unfolding s_def terminated_length_cstr by simp
  have lens: "length s = length (takeWhile D s) + length W + length R"
    using s by (metis add.assoc length_append)
  have dr: "cstr (drop r b) = W @ R" "terminated (drop r b)"
  proof -
    have "drop r b = drop (length (takeWhile D s)) (drop p b)" by (simp add: r_def add.commute)
    moreover have "drop (length (takeWhile D s)) s = W @ R" by (subst (2) s) simp
    ultimately show "cstr (drop r b) = W @ R" "terminated (drop r b)"
      using drop_cstr [of "length (takeWhile D s)" "drop p b"] lens
        terminated_drop [OF b, of "length (takeWhile D s)"] by (simp_all add: s_def [symmetric])
  qed
  have dq: "cstr (drop q b) = R" "terminated (drop q b)"
    using drop_cstr [of "length W" "drop r b"] terminated_drop [OF dr(2), of "length W"] dr
    by (simp_all add: q_def add.commute)
  have tok: "tokens (cstr delim) s = (if dropWhile D s = [] then [] else W # tokens (cstr delim) R)"
    by (subst tokens.simps) (simp add: Let_def D_def W_def R_def)
  show thesis
  proof (cases "dropWhile D s = []")
    case True
    with call tok show thesis by (intro finished) (auto simp: s_def)
  next
    case ne: False
    show thesis
    proof (cases R)
      case Nil
      then have "q = p + length s" using lens by (simp add: q_def r_def)
      with ne call have "strtok_r str delim save b = Inr (Some r, q, b)" by simp
      with dq dr tok ne Nil lens show thesis
        by (intro token [of r q b]) (auto simp: s_def q_def r_def)
    next
      case (Cons c R')
      then have "D c" using hd_dropWhile [of "\<lambda>c. \<not> D c" "dropWhile D s"] by (simp add: R_def)
      from Cons have "q \<noteq> p + length s" using lens by (simp add: q_def r_def)
      with ne call have "strtok_r str delim save b = Inr (Some r, Suc q, b[q := 0])" by simp
      moreover have "drop r (b[q := 0]) = W @ 0 # drop (Suc q) b"
      proof -
        have "drop r b = W @ drop q b"
          using terminated_decomp [OF dr(2)] unfolding dr(1)
          by (metis append.assoc append_eq_conv_conj drop_drop add.commute q_def)
        moreover have "drop q b = b ! q # drop (Suc q) b"
          using dq Cons by (cases "q < length b") (auto simp: Cons_nth_drop_Suc)
        ultimately show ?thesis by (simp add: drop_update_swap q_def list_update_append)
      qed
      moreover have "cstr (drop (Suc q) b) = R'" "terminated (drop (Suc q) b)"
        using drop_cstr [of 1 "drop q b"] terminated_drop [OF dq(2), of 1] dq Cons by simp_all
      moreover have "0 \<notin> set W" using zero_notin_cstr [of "drop r b"] dr by auto
      moreover have "tokens (cstr delim) R = tokens (cstr delim) R'"
        using \<open>D c\<close> Cons by (simp add: tokens_delim D_def)
      moreover have "Suc q + length R' \<le> p + length s" using lens Cons by (simp add: q_def r_def)
      ultimately show thesis
        using tok ne by (intro token [of r "Suc q" "b[q := 0]"]) (auto simp: s_def)
    qed
  qed
qed

text \<open>
  The whole loop: the tokens in order, and \<open>save\<close> always points to where the tokens still to
  come start, inside the string.
\<close>

definition rest_at :: "byte list \<Rightarrow> byte list \<Rightarrow> nat \<Rightarrow> byte list list \<Rightarrow> bool" where
  "rest_at delim b save rest \<longleftrightarrow> tokens (cstr delim) (cstr (drop save b)) = rest"

fun saves_at :: "byte list \<Rightarrow> byte list \<Rightarrow> (byte list \<times> nat) list \<Rightarrow> bool" where
  "saves_at delim b [] \<longleftrightarrow> True"
| "saves_at delim b ((t, save) # ts) \<longleftrightarrow> rest_at delim b save (map fst ts) \<and> saves_at delim b ts"

lemma saves_at_cong:
  "drop p b' = drop p b \<Longrightarrow> (\<forall>x \<in> set ts. p \<le> snd x) \<Longrightarrow> saves_at delim b' ts = saves_at delim b ts"
proof (induction delim b ts rule: saves_at.induct)
  case (2 delim b t save ts)
  have "drop save b' = drop (save - p) (drop p b')" "drop save b = drop (save - p) (drop p b)"
    using 2(3) by simp_all
  with 2(2) have "drop save b' = drop save b" by simp
  with 2 show ?case by (simp add: rest_at_def)
qed simp

lemma strtok_loop_rest:
  assumes "terminated delim" "terminated (drop p b)"
    and "p = (case str of None \<Rightarrow> save | Some p \<Rightarrow> p)"
  shows "\<exists>ts. strtok_loop delim str save b = Inr ts \<and>
    map fst ts = tokens (cstr delim) (cstr (drop p b)) \<and> saves_at delim b ts \<and>
    (\<forall>x \<in> set ts. p \<le> snd x \<and> snd x \<le> p + length (cstr (drop p b)))"
  using assms
proof (induction delim str save b arbitrary: p rule: strtok_loop.induct)
  case (1 delim str save b)
  from 1(2,3,4) show ?case
  proof (cases rule: strtok_r_round)
    case finished
    then show ?thesis by (subst strtok_loop.simps) simp
  next
    case (token r save' b')
    from 1(1) [OF token(1) refl refl refl 1(2) token(2)]
    obtain ts where ts: "strtok_loop delim None save' b' = Inr ts"
      "map fst ts = tokens (cstr delim) (cstr (drop save' b'))" "saves_at delim b' ts"
      "\<forall>x \<in> set ts. save' \<le> snd x \<and> snd x \<le> save' + length (cstr (drop save' b'))" by auto
    have le: "p \<le> save'" using strtok_r_progress [OF token(1)] 1(4) by simp
    have "saves_at delim b ts" using saves_at_cong [OF token(4)] ts(3,4) by blast
    moreover have "rest_at delim b save' (map fst ts)"
      unfolding rest_at_def using ts(2) token(4) by simp
    ultimately show ?thesis
      using token ts le by (subst strtok_loop.simps) fastforce
  qed
qed

lemma strtok_loop_tokens:
  assumes "terminated delim" "terminated (drop p b)"
    and "p = (case str of None \<Rightarrow> save | Some p \<Rightarrow> p)"
  shows "\<exists>ts. strtok_loop delim str save b = Inr ts \<and>
    map fst ts = tokens (cstr delim) (cstr (drop p b))"
  using strtok_loop_rest [OF assms] by blast

text \<open>The loop with a body that may leave it early is a fold over the tokens.\<close>

fun tok_fold :: "(byte list \<Rightarrow> nat \<Rightarrow> 's \<Rightarrow> kerr + (bool \<times> 's)) \<Rightarrow> (byte list \<times> nat) list \<Rightarrow> 's \<Rightarrow> kerr + 's" where
  "tok_fold body [] st = Inr st"
| "tok_fold body ((t, save) # ts) st =
     kbind (body t save st) (\<lambda>(go, st'). if go then tok_fold body ts st' else Inr st')"

lemma strtok_iter_fold:
  "strtok_loop delim str save b = Inr ts \<Longrightarrow> strtok_iter delim body str save b st = tok_fold body ts st"
proof (induction delim str save b arbitrary: ts st rule: strtok_loop.induct)
  case (1 delim str save b)
  from 1(2) obtain i save' b' where r: "strtok_r str delim save b = Inr (i, save', b')"
    by (subst (asm) strtok_loop.simps) (auto simp: kres)
  show ?case
  proof (cases i)
    case None
    with 1(2) r show ?thesis by (subst (asm) strtok_loop.simps) (subst strtok_iter.simps, auto)
  next
    case (Some x)
    from 1(2) r Some obtain us where us: "strtok_loop delim None save' b' = Inr us"
      "ts = (cstr (drop x b'), save') # us"
      by (subst (asm) strtok_loop.simps) (auto simp: kres)
    from 1(1) [OF r refl refl Some us(1)]
    have "strtok_iter delim body None save' b' st' = tok_fold body us st'" for st' by blast
    with r Some us show ?thesis
      by (subst strtok_iter.simps) (auto intro!: arg_cong [where f = "kbind _"] simp: fun_eq_iff split: if_splits)
  qed
qed

text \<open>
  Claim C13. Splitting a NUL-terminated buffer with the \<open>strtok_r\<close> idiom returns, without
  reading outside the buffer, and yields exactly the maximal delimiter-free runs of the string
  in order.
\<close>

theorem strtok_splits:
  assumes "terminated delim" and "terminated b"
  shows "\<exists>ts. strtok_loop delim (Some 0) save b = Inr ts \<and>
    map fst ts = tokens (cstr delim) (cstr b)"
  using strtok_loop_tokens [where p = 0 and str = "Some 0"] assms by simp

theorem strtok_splits_witness:
  "\<exists>ts. strtok_loop [47, 0] (Some 0) 9 [47, 97, 98, 47, 47, 99, 0] = Inr ts \<and>
     map fst ts = tokens (cstr [47, 0]) (cstr [47, 97, 98, 47, 47, 99, 0])"
  by (rule strtok_splits) simp_all

end
