(* ===== verification/Kmalloc.thy ===== *)
theory Kmalloc
  imports Petix_Prelude CString "HOL-Library.Monad_Syntax"
begin

unbundle bit_operations_syntax

text \<open>
  The kernel heap, \<open>kernel/kmalloc.c\<close>: blocks in address order, doubly linked, each a 24-byte
  header followed by its payload; \<open>base\<close> is the last block. The headers are a store from
  addresses to \<open>struct block\<close>, so that stale headers of merged blocks stay in memory as they do
  in the code; the payload bytes are \<open>mem\<close>. Pointers and sizes are naturals below \<open>2 ^ 32\<close>
  with the 32-bit wrap-around written out; 0 is \<open>NULL\<close>. \<open>None\<close> means that the code follows a
  pointer to no block or does not return.
\<close>

section \<open>State\<close>

record block =
  bprev :: nat
  bnext :: nat
  pos_mag :: u64
  blen :: nat
  bused :: bool

record heap =
  base :: nat
  hbrk :: nat
  hdrs :: "nat \<rightharpoonup> block"
  mem :: "nat \<Rightarrow> byte"

definition HDR :: nat where "HDR = 24"  \<comment> \<open>\<open>sizeof(struct block)\<close>\<close>
definition MIN_SPLIT_SIZE :: nat where "MIN_SPLIT_SIZE = 128"
definition MALLOC_MAG :: u64 where "MALLOC_MAG = 0x8a05e5ad623cc4e"

definition sub32 :: "nat \<Rightarrow> nat \<Rightarrow> nat" where
  "sub32 a b = (a + 2 ^ 32 - b) mod 2 ^ 32"

definition align8 :: "nat \<Rightarrow> nat" where
  "align8 i = (8 - i mod 8) mod 8"

text \<open>The position dependent magic number: the address is a signed \<open>long\<close>, widened.\<close>

definition magic :: "nat \<Rightarrow> u64" where
  "magic a = MALLOC_MAG XOR scast (of_nat a :: u32)"

definition is_mem_block :: "heap \<Rightarrow> nat \<Rightarrow> bool" where
  "is_mem_block h m \<longleftrightarrow>
     (case hdrs h m of None \<Rightarrow> False
      | Some b \<Rightarrow> scast (of_nat m :: u32) XOR pos_mag b = MALLOC_MAG)"

definition upd_hdr :: "nat \<Rightarrow> (block \<Rightarrow> block) \<Rightarrow> heap \<Rightarrow> heap option" where
  "upd_hdr a f h = do { b \<leftarrow> hdrs h a; Some (h\<lparr>hdrs := (hdrs h)(a \<mapsto> f b)\<rparr>) }"

section \<open>Operations on blocks\<close>

definition push_block :: "heap \<Rightarrow> nat \<Rightarrow> (nat \<times> heap) option" where
  "push_block h sz =
     (let start = hbrk h;
          align = align8 start;
          h1 = h\<lparr>hbrk := (hbrk h + (align + HDR + sz)) mod 2 ^ 32\<rparr>;
          nb = start + align
      in do {
        h2 \<leftarrow> (if base h1 \<noteq> 0 then upd_hdr (base h1) (\<lambda>b. b\<lparr>bnext := nb\<rparr>) h1 else Some h1);
        Some (nb, h2\<lparr>hdrs := (hdrs h2)(nb \<mapsto>
                 \<lparr>bprev = base h2, bnext = 0, pos_mag = magic nb, blen = sz, bused = True\<rparr>),
               base := nb\<rparr>)
      })"

definition shrink_block :: "heap \<Rightarrow> nat \<Rightarrow> nat \<Rightarrow> (bool \<times> heap) option" where
  "shrink_block h m sz = do {
     b \<leftarrow> hdrs h m;
     if sub32 (blen b) sz \<ge> MIN_SPLIT_SIZE
     then let n0 = m + HDR + sz; n = n0 + align8 n0;
              h1 = h\<lparr>hdrs := (hdrs h)(n \<mapsto>
                     \<lparr>bprev = m, bnext = bnext b, pos_mag = magic n,
                      blen = sub32 (m + blen b) n, bused = False\<rparr>),
                     base := (if m = base h then n else base h)\<rparr>
          in do {
            h2 \<leftarrow> (if bnext b \<noteq> 0 then upd_hdr (bnext b) (\<lambda>c. c\<lparr>bprev := n\<rparr>) h1 else Some h1);
            h3 \<leftarrow> upd_hdr m (\<lambda>c. c\<lparr>bnext := n, blen := sz\<rparr>) h2;
            Some (True, h3)
          }
     else Some (False, h)
   }"

text \<open>The walk of \<open>get_free_block\<close> from \<open>base\<close> backwards; 0 when no block fits.\<close>

partial_function (option) find_free :: "heap \<Rightarrow> nat \<Rightarrow> nat \<Rightarrow> nat option" where
  "find_free h cur sz =
     (if cur = 0 then Some 0
      else do {
        b \<leftarrow> hdrs h cur;
        if \<not> bused b \<and> blen b \<ge> sz then Some cur else find_free h (bprev b) sz
      })"

definition get_free_block :: "heap \<Rightarrow> nat \<Rightarrow> (nat \<times> heap) option" where
  "get_free_block h sz = do {
     cur \<leftarrow> find_free h (base h) sz;
     if cur = 0 then Some (0, h)
     else do {
       (_, h1) \<leftarrow> shrink_block h cur sz;
       h2 \<leftarrow> upd_hdr cur (\<lambda>b. b\<lparr>bused := True\<rparr>) h1;
       Some (cur, h2)
     }
   }"

definition block_merge_next :: "heap \<Rightarrow> nat \<Rightarrow> heap option" where
  "block_merge_next h m = do {
     b \<leftarrow> hdrs h m;
     c \<leftarrow> hdrs h (bnext b);
     h1 \<leftarrow> upd_hdr m (\<lambda>b. b\<lparr>blen := sub32 (bnext b) m + blen c\<rparr>) h;
     let h2 = (if bnext b = base h1 then h1\<lparr>base := m\<rparr> else h1) in do {
       h3 \<leftarrow> upd_hdr m (\<lambda>b. b\<lparr>bnext := bnext c\<rparr>) h2;
       if bnext c \<noteq> 0 then upd_hdr (bnext c) (\<lambda>d. d\<lparr>bprev := m\<rparr>) h3 else Some h3
     }
   }"

section \<open>The allocator\<close>

definition kmalloc :: "heap \<Rightarrow> nat \<Rightarrow> (nat \<times> heap) option" where
  "kmalloc h sz =
     (if sz = 0 then Some (0, h)
      else if base h = 0 then do { (m, h1) \<leftarrow> push_block h sz; Some (m + HDR, h1) }
      else do {
        (m, h1) \<leftarrow> get_free_block h sz;
        if m = 0 then do { (m', h2) \<leftarrow> push_block h1 sz; Some (m' + HDR, h2) }
        else Some (m + HDR, h1)
      })"

definition kfree :: "heap \<Rightarrow> nat \<Rightarrow> heap option" where
  "kfree h ptr =
     (if ptr = 0 then Some h
      else let m = ptr - HDR in
        if is_mem_block h m
        then do {
          h1 \<leftarrow> upd_hdr m (\<lambda>b. b\<lparr>bused := False\<rparr>) h;
          b \<leftarrow> hdrs h1 m;
          h2 \<leftarrow> (if bnext b \<noteq> 0
                then do { c \<leftarrow> hdrs h1 (bnext b);
                          if \<not> bused c then block_merge_next h1 m else Some h1 }
                else Some h1);
          b' \<leftarrow> hdrs h2 m;
          if bprev b' \<noteq> 0
          then do { c \<leftarrow> hdrs h2 (bprev b');
                    if \<not> bused c then block_merge_next h2 (bprev b') else Some h2 }
          else Some h2
        }
        else Some h)"

text \<open>\<open>memcpy\<close> inside the heap, for ranges that do not overlap.\<close>

definition copy_mem :: "nat \<Rightarrow> nat \<Rightarrow> nat \<Rightarrow> (nat \<Rightarrow> byte) \<Rightarrow> nat \<Rightarrow> byte" where
  "copy_mem dst src n m a = (if dst \<le> a \<and> a < dst + n then m (src + (a - dst)) else m a)"

definition krealloc :: "heap \<Rightarrow> nat \<Rightarrow> nat \<Rightarrow> (nat \<times> heap) option" where
  "krealloc h ptr sz =
     (if ptr = 0 then kmalloc h sz
      else let m = ptr - HDR in
        if \<not> is_mem_block h m then Some (0, h)
        else do {
          b \<leftarrow> hdrs h m;
          if sz < blen b then do { (_, h1) \<leftarrow> shrink_block h m sz; Some (ptr, h1) }
          else if bnext b = 0 \<and> m = base h
          then do {
            h1 \<leftarrow> upd_hdr m (\<lambda>b. b\<lparr>blen := sz\<rparr>)
                    (h\<lparr>hbrk := (hbrk h + sub32 sz (blen b)) mod 2 ^ 32\<rparr>);
            Some (ptr, h1)
          }
          else do {
            c \<leftarrow> hdrs h (bnext b);
            if \<not> bused c \<and> sub32 (bnext b) m + blen c \<ge> sz
            then do { h1 \<leftarrow> block_merge_next h m; Some (ptr, h1) }
            else do {
              (new_ptr, h1) \<leftarrow> kmalloc h sz;
              h2 \<leftarrow> kfree (h1\<lparr>mem := copy_mem new_ptr ptr (blen b) (mem h1)\<rparr>) ptr;
              Some (new_ptr, h2)
            }
          }
        })"

text \<open>
  \<open>kstrdup_sync\<close> allocates \<open>strlen(str)\<close> bytes and copies \<open>strlen(str) + 1\<close>; \<open>str\<close> lies outside
  the heap.
\<close>

definition write_mem :: "nat \<Rightarrow> byte list \<Rightarrow> (nat \<Rightarrow> byte) \<Rightarrow> nat \<Rightarrow> byte" where
  "write_mem dst bs m a = (if dst \<le> a \<and> a < dst + length bs then bs ! (a - dst) else m a)"

definition kstrdup :: "heap \<Rightarrow> byte list \<Rightarrow> (nat \<times> heap) option" where
  "kstrdup h str =
     (case strlen str of Inl _ \<Rightarrow> None
      | Inr n \<Rightarrow> do {
          (p, h1) \<leftarrow> kmalloc h n;
          Some (p, h1\<lparr>mem := write_mem p (take (n + 1) str) (mem h1)\<rparr>)
        })"

section \<open>Clients of the heap\<close>

text \<open>
  A client keeps a table of pointers and allocates, frees, reallocates and stores into the
  objects of the table. \<open>array_step\<close> is what the client has in mind: separate arrays of
  bytes, \<open>None\<close> standing for a byte never written; a freed slot holds no array.
\<close>

datatype heap_op = Malloc nat | Free nat | Realloc nat nat | Store nat nat byte

definition poke :: "heap \<Rightarrow> nat \<Rightarrow> byte \<Rightarrow> heap" where
  "poke h a v = h\<lparr>mem := (mem h)(a := v)\<rparr>"

fun client_step ::
    "('s \<Rightarrow> nat \<Rightarrow> (nat \<times> 's) option) \<Rightarrow> ('s \<Rightarrow> nat \<Rightarrow> 's option) \<Rightarrow>
     ('s \<Rightarrow> nat \<Rightarrow> nat \<Rightarrow> (nat \<times> 's) option) \<Rightarrow> ('s \<Rightarrow> nat \<Rightarrow> byte \<Rightarrow> 's) \<Rightarrow>
     's \<times> nat list \<Rightarrow> heap_op \<Rightarrow> ('s \<times> nat list) option" where
  "client_step ma fr re pk (s, ps) (Malloc sz) = do { (p, s') \<leftarrow> ma s sz; Some (s', ps @ [p]) }"
| "client_step ma fr re pk (s, ps) (Free i) = do { s' \<leftarrow> fr s (ps ! i); Some (s', ps[i := 0]) }"
| "client_step ma fr re pk (s, ps) (Realloc i sz) =
     do { (p, s') \<leftarrow> re s (ps ! i) sz; Some (s', ps[i := p]) }"
| "client_step ma fr re pk (s, ps) (Store i j v) = Some (pk s (ps ! i + j) v, ps)"

type_synonym array = "byte option list"

definition array_at :: "array option list \<Rightarrow> nat \<Rightarrow> array option" where
  "array_at as i = (if i < length as then as ! i else None)"

fun array_step :: "array option list \<Rightarrow> heap_op \<Rightarrow> array option list option" where
  "array_step as (Malloc sz) = (if 0 < sz then Some (as @ [Some (replicate sz None)]) else None)"
| "array_step as (Free i) = do { _ \<leftarrow> array_at as i; Some (as[i := None]) }"
| "array_step as (Realloc i sz) = do {
     a \<leftarrow> array_at as i;
     if 0 < sz then Some (as[i := Some (take sz a @ replicate (sz - length a) None)]) else None }"
| "array_step as (Store i j v) = do {
     a \<leftarrow> array_at as i;
     if j < length a then Some (as[i := Some (a[j := Some v])]) else None }"

fun cost :: "heap_op \<Rightarrow> nat" where
  "cost (Malloc sz) = sz + 32"
| "cost (Realloc i sz) = sz + 32"
| "cost _ = 0"

text \<open>
  The object at \<open>p\<close> holds the array \<open>a\<close>; the pointers \<open>ps\<close> hold the arrays \<open>as\<close>, \<open>ls\<close> being
  the lengths of the live objects.
\<close>

definition slot :: "(nat \<times> nat) set \<Rightarrow> nat \<Rightarrow> (nat \<Rightarrow> byte) \<Rightarrow> nat \<Rightarrow> array \<Rightarrow> bool" where
  "slot L l m p a \<longleftrightarrow> (p, l) \<in> L \<and> length a \<le> l \<and>
     (\<forall>j v. j < length a \<and> a ! j = Some v \<longrightarrow> m (p + j) = v)"

definition holds ::
    "(nat \<times> nat) set \<Rightarrow> (nat \<Rightarrow> nat) \<Rightarrow> (nat \<Rightarrow> byte) \<Rightarrow> nat list \<Rightarrow> array option list \<Rightarrow> bool" where
  "holds L ls m ps as \<longleftrightarrow> length ps = length as \<and>
     (\<forall>i a. array_at as i = Some a \<longrightarrow> slot L (ls i) m (ps ! i) a) \<and>
     (\<forall>i k. array_at as i \<noteq> None \<and> array_at as k \<noteq> None \<and> ps ! i = ps ! k \<longrightarrow> i = k)"

section \<open>The block list\<close>

text \<open>
  \<open>seg H p as n lim\<close>: the blocks \<open>as\<close> are linked both ways between \<open>p\<close> and \<open>n\<close>, aligned,
  carry their magic number, and each payload ends before the next block (before the break
  \<open>lim\<close> for the last one).
\<close>

definition hd0 :: "nat list \<Rightarrow> nat \<Rightarrow> nat" where
  "hd0 as n = (case as of [] \<Rightarrow> n | a # _ \<Rightarrow> a)"

definition last0 :: "nat list \<Rightarrow> nat \<Rightarrow> nat" where
  "last0 as p = (if as = [] then p else last as)"

definition bound_of :: "nat \<Rightarrow> nat \<Rightarrow> nat" where
  "bound_of n lim = (if n = 0 then lim else n)"

fun seg :: "(nat \<rightharpoonup> block) \<Rightarrow> nat \<Rightarrow> nat list \<Rightarrow> nat \<Rightarrow> nat \<Rightarrow> bool" where
  "seg H p [] n lim = True"
| "seg H p (a # as) n lim =
     (case H a of None \<Rightarrow> False
      | Some b \<Rightarrow> bprev b = p \<and> bnext b = hd0 as n \<and> pos_mag b = magic a \<and> 0 < a \<and> a mod 8 = 0 \<and>
          a + HDR + blen b \<le> bound_of (hd0 as n) lim \<and> seg H a as n lim)"

definition heap_ok :: "heap \<Rightarrow> nat list \<Rightarrow> bool" where
  "heap_ok h bs \<longleftrightarrow> seg (hdrs h) 0 bs 0 (hbrk h) \<and> base h = last0 bs 0 \<and>
     0 < hbrk h \<and> hbrk h < 2 ^ 32"

text \<open>What a client sees of the list: address, payload length and use of every block.\<close>

definition entry :: "(nat \<rightharpoonup> block) \<Rightarrow> nat \<Rightarrow> nat \<times> nat \<times> bool" where
  "entry H a = (a, blen (the (H a)), bused (the (H a)))"

definition relink :: "(nat \<rightharpoonup> block) \<Rightarrow> nat \<Rightarrow> nat list \<Rightarrow> (nat \<rightharpoonup> block)" where
  "relink H q ys = (if ys = [] then H else H(hd ys \<mapsto> (the (H (hd ys)))\<lparr>bprev := q\<rparr>))"

section \<open>Lemmas on block lists\<close>

lemma hd0_simps [simp]: "hd0 [] n = n" "hd0 (a # as) n = a"
  by (simp_all add: hd0_def)

lemma hd0_append: "hd0 (as @ bs) n = hd0 as (hd0 bs n)"
  by (cases as) simp_all

lemma last0_simps [simp]: "last0 [] p = p" "last0 (xs @ [a]) p = a" "last0 (a # as) p = last0 as a"
  by (auto simp: last0_def)

lemma last0_append [simp]: "last0 (xs @ ys) p = last0 ys (last0 xs p)"
  by (simp add: last0_def)

lemma bound_of_simps [simp]: "bound_of 0 lim = lim" "0 < n \<Longrightarrow> bound_of n lim = n"
  by (simp_all add: bound_of_def)

lemma seg_Cons:
  "seg H p (a # as) n lim \<longleftrightarrow>
     (\<exists>b. H a = Some b \<and> bprev b = p \<and> bnext b = hd0 as n \<and> pos_mag b = magic a \<and> 0 < a \<and>
       a mod 8 = 0 \<and> a + HDR + blen b \<le> bound_of (hd0 as n) lim \<and> seg H a as n lim)"
  by (auto split: option.splits)

declare seg.simps(2) [simp del]

lemma seg_append:
  "seg H p (as @ bs) n lim \<longleftrightarrow> seg H p as (hd0 bs n) lim \<and> seg H (last0 as p) bs n lim"
  by (induction as arbitrary: p) (auto simp: hd0_append seg_Cons)

lemma seg_cong: "(\<And>a. a \<in> set as \<Longrightarrow> H a = H' a) \<Longrightarrow> seg H p as n lim = seg H' p as n lim"
  by (induction as arbitrary: p) (auto simp: seg_Cons)

lemma seg_upd [simp]: "a \<notin> set as \<Longrightarrow> seg (H(a := x)) p as n lim = seg H p as n lim"
  by (rule seg_cong) auto

lemma seg_bound: "0 < n \<Longrightarrow> seg H p as n lim \<longleftrightarrow> seg H p as n lim'"
proof (induction as arbitrary: p)
  case (Cons a as)
  then show ?case by (cases as) (auto simp: seg_Cons)
qed simp

lemma seg_pos: "seg H p as n lim \<Longrightarrow> a \<in> set as \<Longrightarrow> 0 < a"
  by (induction as arbitrary: p) (auto simp: seg_Cons)

lemma seg_first:
  "seg H p (a # as) n lim \<Longrightarrow>
   \<exists>b. H a = Some b \<and> a + HDR + blen b \<le> bound_of n lim \<and> (\<forall>c \<in> set as. a + HDR + blen b \<le> c)"
proof (induction as arbitrary: p a)
  case Nil
  then show ?case by (auto simp: seg_Cons)
next
  case (Cons d ds)
  then obtain b where b: "H a = Some b" "a + HDR + blen b \<le> d" "seg H a (d # ds) n lim" "0 < d"
    by (auto simp: seg_Cons)
  from Cons.IH [OF b(3)] b show ?case by fastforce
qed

lemma seg_split:
  assumes "seg H p (xs @ a # ys) n lim"
  shows "\<exists>b. H a = Some b \<and> bprev b = last0 xs p \<and> bnext b = hd0 ys n \<and> pos_mag b = magic a \<and>
    0 < a \<and> a mod 8 = 0 \<and> a + HDR + blen b \<le> bound_of (hd0 ys n) lim \<and>
    a + HDR + blen b \<le> bound_of n lim \<and> (\<forall>c \<in> set ys. a < c \<and> a + HDR + blen b \<le> c) \<and>
    (\<forall>c \<in> set xs. c < a \<and> c + HDR + blen (the (H c)) \<le> a)"
proof -
  from assms have s: "seg H (last0 xs p) (a # ys) n lim" by (simp add: seg_append)
  have "c < a \<and> c + HDR + blen (the (H c)) \<le> a" if "c \<in> set xs" for c
  proof -
    from that obtain us vs where "xs = us @ c # vs" by (auto dest: split_list)
    with assms have "seg H (last0 us p) (c # (vs @ a # ys)) n lim" by (simp add: seg_append)
    from seg_first [OF this] show ?thesis by (auto simp: HDR_def)
  qed
  moreover from seg_first [OF s] obtain b where "H a = Some b" "a + HDR + blen b \<le> bound_of n lim"
    "\<forall>c \<in> set ys. a + HDR + blen b \<le> c" by blast
  moreover from this have "\<forall>c \<in> set ys. a < c" by (force simp: HDR_def)
  ultimately show ?thesis using s by (auto simp: seg_Cons)
qed

lemma seg_distinct: "seg H p as n lim \<Longrightarrow> distinct as"
proof (induction as arbitrary: p)
  case (Cons a as)
  from seg_first [OF Cons.prems] have "\<forall>c \<in> set as. a < c" by (auto simp: HDR_def)
  with Cons show ?case by (auto simp: seg_Cons)
qed simp

lemma seg_relink:
  assumes "seg H p ys n lim"
  shows "seg (relink H q ys) q ys n lim"
proof (cases ys)
  case (Cons a as)
  with seg_distinct [OF assms] assms show ?thesis by (auto simp: relink_def seg_Cons)
qed (simp add: relink_def)

lemma relink_other: "a \<notin> set ys \<Longrightarrow> relink H q ys a = H a"
  by (cases ys) (auto simp: relink_def)

lemma entry_relink [simp]: "entry (relink H q ys) a = entry H a"
  by (auto simp: entry_def relink_def)

lemma entry_upd: "entry (H(a \<mapsto> b)) c = (if c = a then (a, blen b, bused b) else entry H c)"
  by (simp add: entry_def)

lemma upd_hdr_Some: "hdrs h a = Some b \<Longrightarrow> upd_hdr a f h = Some (h\<lparr>hdrs := (hdrs h)(a \<mapsto> f b)\<rparr>)"
  by (simp add: upd_hdr_def)

lemma sub32_le:
  assumes "b \<le> a" "a < 2 ^ 32"
  shows "sub32 a b = a - b"
proof -
  have "a + 2 ^ 32 - b = (a - b) + 2 ^ 32" using assms by simp
  then have "sub32 a b = (a - b) mod 2 ^ 32" unfolding sub32_def by (metis mod_add_self2)
  moreover have "a - b < 2 ^ 32" using assms by simp
  ultimately show ?thesis by (simp only: mod_less)
qed

lemma align8_aligns: "(i + align8 i) mod 8 = 0" "align8 i < 8"
proof -
  have "i mod 8 < 8" by simp
  then have "(i mod 8 + (8 - i mod 8) mod 8) mod 8 = 0"
    by (cases "i mod 8 = 0") simp_all
  then show "(i + align8 i) mod 8 = 0" unfolding align8_def by (metis mod_add_left_eq)
  show "align8 i < 8" by (simp add: align8_def)
qed

section \<open>The operations on the block list\<close>

lemma merge_list:
  assumes ok: "heap_ok h (xs @ m # n # ys)"
  shows "\<exists>h'. block_merge_next h m = Some h' \<and> heap_ok h' (xs @ m # ys) \<and> mem h' = mem h \<and>
    hbrk h' = hbrk h \<and>
    (\<forall>a \<in> set (xs @ ys). entry (hdrs h') a = entry (hdrs h) a) \<and>
    entry (hdrs h') m = (m, n - m + blen (the (hdrs h n)), bused (the (hdrs h m)))"
proof -
  let ?H = "hdrs h"
  have sg: "seg ?H 0 (xs @ m # n # ys) 0 (hbrk h)" and lim: "hbrk h < 2 ^ 32"
    using ok by (auto simp: heap_ok_def)
  from seg_split [OF sg] obtain b where b: "?H m = Some b" "bprev b = last0 xs 0" "bnext b = n"
    "pos_mag b = magic m" "0 < m" "m mod 8 = 0" "m < n"
    "\<forall>c \<in> set ys. m < c" "\<forall>c \<in> set xs. c < m"
    by auto
  from sg have "seg ?H 0 ((xs @ [m]) @ n # ys) 0 (hbrk h)" by simp
  from seg_split [OF this] obtain c where c: "?H n = Some c" "bnext c = hd0 ys 0"
    "0 < n" "n + HDR + blen c \<le> bound_of (hd0 ys 0) (hbrk h)" "n + HDR + blen c \<le> hbrk h"
    "\<forall>c \<in> set ys. n < c"
    by auto
  have ys: "seg ?H n ys 0 (hbrk h)" using sg by (auto simp: seg_append seg_Cons)
  have sub: "sub32 n m = n - m" using b c lim by (intro sub32_le) auto
  let ?b = "b\<lparr>blen := n - m + blen c, bnext := hd0 ys 0\<rparr>"
  let ?H' = "relink (?H(m \<mapsto> ?b)) m ys"
  let ?h' = "h\<lparr>hdrs := ?H', base := (if ys = [] then m else base h)\<rparr>"
  have base: "n = base h \<longleftrightarrow> ys = []"
    using ok c(6) by (cases ys rule: rev_cases) (auto simp: heap_ok_def)
  have "block_merge_next h m = Some ?h'"
  proof (cases ys)
    case Nil
    with b c sub base show ?thesis
      by (simp add: block_merge_next_def upd_hdr_def Let_def relink_def)
  next
    case (Cons y ys')
    with ys obtain d where "?H y = Some d" "0 < y" by (auto simp: seg_Cons)
    moreover have "y \<noteq> m" using Cons b(8) by auto
    ultimately show ?thesis using b c sub base Cons
      by (simp add: block_merge_next_def upd_hdr_def Let_def relink_def)
  qed
  moreover have "heap_ok ?h' (xs @ m # ys)"
  proof -
    have m: "m \<notin> set xs" "m \<notin> set ys" using b(8,9) by auto
    have xs: "seg ?H' 0 xs m (hbrk h)"
    proof -
      have "seg ?H 0 xs m (hbrk h)" using sg by (simp add: seg_append)
      moreover have "?H' a = ?H a" if "a \<in> set xs" for a
        using that b(8,9) by (subst relink_other) force+
      ultimately show ?thesis by (metis seg_cong)
    qed
    have "seg ?H' m ys 0 (hbrk h)" using ys m by (intro seg_relink [of _ n]) simp
    moreover have "?H' m = Some ?b" using m by (simp add: relink_other)
    ultimately show ?thesis
      using ok xs b c by (auto simp: heap_ok_def seg_append seg_Cons last0_def)
  qed
  moreover have "entry ?H' a = entry ?H a" if "a \<in> set (xs @ ys)" for a
    using that b(8,9) by (auto simp: entry_upd)
  moreover have "entry ?H' m = (m, n - m + blen c, bused b)" by (simp add: entry_upd)
  ultimately show ?thesis using b c by auto
qed

lemma shrink_list:
  assumes ok: "heap_ok h (xs @ m # ys)" and fits: "sz + MIN_SPLIT_SIZE \<le> blen (the (hdrs h m))"
  shows "\<exists>h' n. shrink_block h m sz = Some (True, h') \<and> heap_ok h' (xs @ m # n # ys) \<and>
    mem h' = mem h \<and> hbrk h' = hbrk h \<and> m + HDR + sz \<le> n \<and>
    n + HDR \<le> m + HDR + blen (the (hdrs h m)) \<and>
    (\<forall>a \<in> set (xs @ ys). entry (hdrs h') a = entry (hdrs h) a) \<and>
    entry (hdrs h') m = (m, sz, bused (the (hdrs h m))) \<and>
    entry (hdrs h') n = (n, m + blen (the (hdrs h m)) - n, False)"
proof -
  let ?H = "hdrs h"
  have sg: "seg ?H 0 (xs @ m # ys) 0 (hbrk h)" and lim: "hbrk h < 2 ^ 32"
    using ok by (auto simp: heap_ok_def)
  from seg_split [OF sg] obtain b where b: "?H m = Some b" "bprev b = last0 xs 0" "bnext b = hd0 ys 0"
    "pos_mag b = magic m" "0 < m" "m mod 8 = 0" "m + HDR + blen b \<le> bound_of (hd0 ys 0) (hbrk h)"
    "m + HDR + blen b \<le> hbrk h" "\<forall>c \<in> set ys. m + HDR + blen b \<le> c" "\<forall>c \<in> set xs. c < m"
    by auto
  have ys: "seg ?H m ys 0 (hbrk h)" using sg by (auto simp: seg_append seg_Cons)
  define n where "n = m + HDR + sz + align8 (m + HDR + sz)"
  have n: "m + HDR + sz \<le> n" "n + HDR \<le> m + HDR + blen b" "n mod 8 = 0" "m < n" "0 < n"
    using align8_aligns [of "m + HDR + sz"] fits b(1)
    by (auto simp: n_def HDR_def MIN_SPLIT_SIZE_def)
  have sub: "sub32 (m + blen b) n = m + blen b - n" "sub32 (blen b) sz = blen b - sz"
    using n b(8) lim fits b(1) by (auto intro!: sub32_le simp: HDR_def MIN_SPLIT_SIZE_def)
  let ?nb = "\<lparr>bprev = m, bnext = bnext b, pos_mag = magic n, blen = m + blen b - n, bused = False\<rparr>"
  let ?b = "b\<lparr>bnext := n, blen := sz\<rparr>"
  have fresh: "n \<notin> set xs" "n \<notin> set ys" "m \<notin> set xs" "m \<notin> set ys" "n \<noteq> m"
    using n b(9,10) by (force simp: HDR_def)+
  let ?H' = "(relink (?H(n \<mapsto> ?nb)) n ys)(m \<mapsto> ?b)"
  let ?h' = "h\<lparr>base := (if m = base h then n else base h), hdrs := ?H'\<rparr>"
  have fit: "128 \<le> blen b - sz" using fits b(1) by (simp add: MIN_SPLIT_SIZE_def)
  have "shrink_block h m sz = Some (True, ?h')"
  proof (cases ys)
    case Nil
    with b sub n fresh fit show ?thesis
      unfolding shrink_block_def Let_def n_def [symmetric]
      by (simp add: upd_hdr_def relink_def MIN_SPLIT_SIZE_def split del: if_split)
  next
    case (Cons y ys')
    with ys obtain d where "?H y = Some d" "0 < y" by (auto simp: seg_Cons)
    with b sub n fresh fit Cons show ?thesis
      unfolding shrink_block_def Let_def n_def [symmetric]
      by (simp add: upd_hdr_def relink_def MIN_SPLIT_SIZE_def split del: if_split)
  qed
  moreover have "heap_ok ?h' (xs @ m # n # ys)"
  proof -
    have xs: "seg ?H' 0 xs m (hbrk h)"
    proof -
      have "seg ?H 0 xs m (hbrk h)" using sg by (simp add: seg_append)
      moreover have "?H' a = ?H a" if "a \<in> set xs" for a
        using that fresh b(9,10) by (subst fun_upd_other, force, subst relink_other) force+
      ultimately show ?thesis using seg_cong [of xs ?H' ?H] by simp
    qed
    have "seg (relink (?H(n \<mapsto> ?nb)) n ys) n ys 0 (hbrk h)"
      using ys fresh by (intro seg_relink [of _ m]) simp
    then have "seg ?H' n ys 0 (hbrk h)" using fresh by simp
    moreover have "?H' n = Some ?nb" using fresh by (simp add: relink_other)
    moreover have "n + HDR + (m + blen b - n) \<le> bound_of (hd0 ys 0) (hbrk h)"
      using n b(7) by (simp add: HDR_def)
    moreover have "m = base h \<longleftrightarrow> ys = []"
      using ok fresh(4) by (cases ys rule: rev_cases) (auto simp: heap_ok_def)
    ultimately show ?thesis
      using ok xs b n by (auto simp: heap_ok_def seg_append seg_Cons last0_def)
  qed
  moreover have "entry ?H' a = entry ?H a" if "a \<in> set (xs @ ys)" for a
    using that fresh by (auto simp: entry_upd)
  moreover have "entry ?H' m = (m, sz, bused b)" "entry ?H' n = (n, m + blen b - n, False)"
    using fresh by (simp_all add: entry_upd)
  ultimately show ?thesis using b n by auto
qed

lemma shrink_none:
  assumes ok: "heap_ok h bs" "m \<in> set bs"
    and small: "sz \<le> blen (the (hdrs h m))" "blen (the (hdrs h m)) < sz + MIN_SPLIT_SIZE"
  shows "shrink_block h m sz = Some (False, h)"
proof -
  from ok(2) obtain xs ys where "bs = xs @ m # ys" by (auto dest: split_list)
  with ok(1) have "seg (hdrs h) 0 (xs @ m # ys) 0 (hbrk h)" "hbrk h < 2 ^ 32"
    by (auto simp: heap_ok_def)
  from seg_split [OF this(1)] this(2) obtain b where b: "hdrs h m = Some b" "blen b < 2 ^ 32" by auto
  with small have "sub32 (blen b) sz = blen b - sz" by (intro sub32_le) auto
  moreover from b small have "\<not> MIN_SPLIT_SIZE \<le> blen b - sz" by simp
  ultimately show ?thesis using b by (simp add: shrink_block_def)
qed

lemma push_list:
  assumes ok: "heap_ok h bs" and room: "hbrk h + sz + 32 < 2 ^ 32"
  shows "\<exists>h' n. push_block h sz = Some (n, h') \<and> heap_ok h' (bs @ [n]) \<and> mem h' = mem h \<and>
    hbrk h \<le> n \<and> hbrk h' = n + HDR + sz \<and> hbrk h' \<le> hbrk h + sz + 32 \<and>
    (\<forall>a \<in> set bs. entry (hdrs h') a = entry (hdrs h) a) \<and> entry (hdrs h') n = (n, sz, True)"
proof -
  let ?H = "hdrs h"
  define n where "n = hbrk h + align8 (hbrk h)"
  have n: "hbrk h \<le> n" "n mod 8 = 0" "0 < n" "n + HDR + sz \<le> hbrk h + sz + 32" "n + HDR + sz < 2 ^ 32"
    using align8_aligns [of "hbrk h"] ok room by (auto simp: n_def HDR_def heap_ok_def)
  let ?nb = "\<lparr>bprev = last0 bs 0, bnext = 0, pos_mag = magic n, blen = sz, bused = True\<rparr>"
  have brk: "(hbrk h + (align8 (hbrk h) + HDR + sz)) mod 2 ^ 32 = n + HDR + sz"
    using n(5) by (simp add: n_def add.assoc)
  show ?thesis
  proof (cases bs rule: rev_cases)
    case Nil
    with ok n brk show ?thesis
      by (auto simp: push_block_def Let_def n_def [symmetric] heap_ok_def seg_Cons entry_upd)
  next
    case (snoc xs m)
    with ok have sg: "seg ?H 0 (xs @ [m]) 0 (hbrk h)" by (simp add: heap_ok_def)
    from seg_split [OF sg] obtain b where b: "?H m = Some b" "bprev b = last0 xs 0"
      "pos_mag b = magic m" "0 < m" "m mod 8 = 0" "m + HDR + blen b \<le> hbrk h" "\<forall>c \<in> set xs. c < m"
      by auto
    then have fresh: "n \<notin> set xs" "m \<notin> set xs" "n \<noteq> m" using n(1) by (auto simp: HDR_def)
    let ?h' = "h\<lparr>hbrk := n + HDR + sz, hdrs := ?H(m \<mapsto> b\<lparr>bnext := n\<rparr>, n \<mapsto> ?nb), base := n\<rparr>"
    have "base h = m" using ok snoc by (simp add: heap_ok_def)
    then have "push_block h sz = Some (n, ?h')"
      using b snoc brk by (simp add: push_block_def Let_def n_def [symmetric] upd_hdr_def)
    moreover have "heap_ok ?h' (bs @ [n])"
    proof -
      have "seg (?H(m \<mapsto> b\<lparr>bnext := n\<rparr>, n \<mapsto> ?nb)) 0 xs m (n + HDR + sz)"
        using sg fresh b(4) seg_bound [of m ?H 0 xs "hbrk h" "n + HDR + sz"] by (simp add: seg_append)
      then show ?thesis
        using n b fresh snoc by (auto simp: heap_ok_def seg_append seg_Cons)
    qed
    moreover have "\<forall>a \<in> set bs. entry (hdrs ?h') a = entry ?H a"
      using b fresh snoc by (auto simp: entry_def)
    ultimately show ?thesis using n by (auto simp: entry_upd)
  qed
qed

lemma seg_used: "H a = Some b \<Longrightarrow> seg (H(a \<mapsto> b\<lparr>bused := v\<rparr>)) p as n lim \<longleftrightarrow> seg H p as n lim"
  by (induction as arbitrary: p) (auto simp: seg_Cons)

lemma mark_list:
  assumes ok: "heap_ok h bs" and m: "m \<in> set bs"
  shows "\<exists>h'. upd_hdr m (\<lambda>b. b\<lparr>bused := v\<rparr>) h = Some h' \<and> heap_ok h' bs \<and> mem h' = mem h \<and>
    hbrk h' = hbrk h \<and> (\<forall>a. a \<noteq> m \<longrightarrow> entry (hdrs h') a = entry (hdrs h) a) \<and>
    entry (hdrs h') m = (m, blen (the (hdrs h m)), v)"
proof -
  from m obtain xs ys where bs: "bs = xs @ m # ys" by (auto dest: split_list)
  with ok have "seg (hdrs h) 0 (xs @ m # ys) 0 (hbrk h)" by (simp add: heap_ok_def)
  from seg_split [OF this] obtain b where "hdrs h m = Some b" by auto
  with ok show ?thesis by (auto simp: upd_hdr_def heap_ok_def seg_used entry_upd)
qed

lemma find_free_ok:
  assumes "seg (hdrs h) 0 bs n lim"
  shows "\<exists>r. find_free h (last0 bs 0) sz = Some r \<and>
    (r = 0 \<or> r \<in> set bs \<and> \<not> bused (the (hdrs h r)) \<and> sz \<le> blen (the (hdrs h r)))"
  using assms
proof (induction bs arbitrary: n rule: rev_induct)
  case Nil
  then show ?case by (subst find_free.simps) simp
next
  case (snoc a as)
  then obtain b where b: "hdrs h a = Some b" "bprev b = last0 as 0" "0 < a" "seg (hdrs h) 0 as a lim"
    by (auto simp: seg_append seg_Cons)
  from snoc.IH [OF b(4)] b show ?case by (subst find_free.simps) auto
qed

lemma is_mem_block_ok:
  assumes "heap_ok h bs" "m \<in> set bs"
  shows "is_mem_block h m"
proof -
  from assms obtain xs ys where "seg (hdrs h) 0 (xs @ m # ys) 0 (hbrk h)"
    by (auto simp: heap_ok_def dest: split_list)
  from seg_split [OF this] obtain b where "hdrs h m = Some b" "pos_mag b = magic m" by auto
  then show ?thesis by (simp add: is_mem_block_def magic_def xor.left_commute)
qed

section \<open>What the allocator promises\<close>

text \<open>
  The live allocations of a heap: address and length of the payload of every block in use.
  \<open>heap_rep h L\<close> is the contract between the heap and its clients.
\<close>

definition payload :: "(nat \<rightharpoonup> block) \<Rightarrow> nat \<Rightarrow> nat \<times> nat" where
  "payload H a = (a + HDR, blen (the (H a)))"

definition allocs :: "(nat \<rightharpoonup> block) \<Rightarrow> nat list \<Rightarrow> (nat \<times> nat) set" where
  "allocs H bs = payload H ` {a \<in> set bs. bused (the (H a))}"

definition heap_rep :: "heap \<Rightarrow> (nat \<times> nat) set \<Rightarrow> bool" where
  "heap_rep h L \<longleftrightarrow> (\<exists>bs. heap_ok h bs \<and> L = allocs (hdrs h) bs)"

lemma allocs_append: "allocs H (xs @ ys) = allocs H xs \<union> allocs H ys"
  by (auto simp: allocs_def)

lemma allocs_Nil [simp]: "allocs H [] = {}"
  by (simp add: allocs_def)

lemma allocs_Cons:
  "allocs H (a # as) = (if snd (snd (entry H a)) then {(a + HDR, fst (snd (entry H a)))} else {}) \<union>
     allocs H as"
  by (auto simp: allocs_def payload_def entry_def)

lemma allocs_entry: "(\<forall>a \<in> set as. entry H' a = entry H a) \<Longrightarrow> allocs H' as = allocs H as"
  by (induction as) (simp_all add: allocs_Cons)

lemma allocs_fresh: "fst q = a + HDR \<Longrightarrow> a \<notin> set as \<Longrightarrow> q \<notin> allocs H as"
  by (auto simp: allocs_def payload_def)

lemma heap_distinct: "heap_ok h bs \<Longrightarrow> distinct bs"
  by (auto simp: heap_ok_def dest: seg_distinct)

lemma heap_block:
  assumes "heap_ok h (xs @ m # ys)"
  shows "0 < m \<and> m mod 8 = 0 \<and> m + HDR + blen (the (hdrs h m)) \<le> hbrk h \<and>
    (\<forall>c \<in> set ys. m + HDR + blen (the (hdrs h m)) \<le> c) \<and>
    (\<forall>c \<in> set xs. c + HDR + blen (the (hdrs h c)) \<le> m) \<and> m \<notin> set xs \<and> m \<notin> set ys \<and>
    (\<exists>b. hdrs h m = Some b \<and> bprev b = last0 xs 0 \<and> bnext b = hd0 ys 0)"
  using seg_split [of "hdrs h" 0 xs m ys 0 "hbrk h"] heap_distinct [OF assms] assms
  by (auto simp: heap_ok_def)

lemma entry_snd: "snd (entry H a) = (blen (the (H a)), bused (the (H a)))"
  by (simp add: entry_def)

lemma shrink_any:
  assumes ok: "heap_ok h (xs @ m # ys)" and fits: "sz \<le> blen (the (hdrs h m))"
  shows "\<exists>t h' zs l. shrink_block h m sz = Some (t, h') \<and> heap_ok h' (xs @ m # zs) \<and>
    mem h' = mem h \<and> hbrk h' = hbrk h \<and> sz \<le> l \<and> entry (hdrs h') m = (m, l, bused (the (hdrs h m))) \<and>
    allocs (hdrs h') xs = allocs (hdrs h) xs \<and> allocs (hdrs h') zs = allocs (hdrs h) ys"
proof (cases "sz + MIN_SPLIT_SIZE \<le> blen (the (hdrs h m))")
  case True
  from shrink_list [OF ok True] obtain h1 n where h1:
    "shrink_block h m sz = Some (True, h1)" "heap_ok h1 (xs @ m # n # ys)" "mem h1 = mem h"
    "hbrk h1 = hbrk h" "\<forall>a \<in> set (xs @ ys). entry (hdrs h1) a = entry (hdrs h) a"
    "entry (hdrs h1) m = (m, sz, bused (the (hdrs h m)))"
    "entry (hdrs h1) n = (n, m + blen (the (hdrs h m)) - n, False)" by blast
  then have "allocs (hdrs h1) (n # ys) = allocs (hdrs h) ys"
    using allocs_entry [of ys "hdrs h1" "hdrs h"] by (simp add: allocs_Cons)
  moreover have "allocs (hdrs h1) xs = allocs (hdrs h) xs" using h1(5) by (simp add: allocs_entry)
  ultimately show ?thesis using h1 by blast
next
  case False
  then have "shrink_block h m sz = Some (False, h)" using fits by (intro shrink_none [OF ok]) auto
  then show ?thesis using ok fits
    by (intro exI [of _ False] exI [of _ h] exI [of _ ys] exI [of _ "blen (the (hdrs h m))"])
      (simp add: entry_def)
qed

lemma get_free_ok:
  assumes ok: "heap_ok h bs"
  shows "get_free_block h sz = Some (0, h) \<or>
    (\<exists>m h' bs' l. get_free_block h sz = Some (m, h') \<and> heap_ok h' bs' \<and> m \<in> set bs' \<and> m \<in> set bs \<and>
       \<not> bused (the (hdrs h m)) \<and> mem h' = mem h \<and> hbrk h' = hbrk h \<and> sz \<le> l \<and>
       allocs (hdrs h') bs' = insert (m + HDR, l) (allocs (hdrs h) bs))"
proof -
  from ok have "seg (hdrs h) 0 bs 0 (hbrk h)" "base h = last0 bs 0" by (simp_all add: heap_ok_def)
  with find_free_ok [OF this(1), of sz] obtain r where r: "find_free h (base h) sz = Some r"
    "r = 0 \<or> r \<in> set bs \<and> \<not> bused (the (hdrs h r)) \<and> sz \<le> blen (the (hdrs h r))" by auto
  show ?thesis
  proof (cases "r = 0")
    case True
    with r show ?thesis by (simp add: get_free_block_def)
  next
    case False
    with r obtain xs ys where bs: "bs = xs @ r # ys" and free: "\<not> bused (the (hdrs h r))"
      "sz \<le> blen (the (hdrs h r))" by (auto dest: split_list)
    from shrink_any [OF ok [unfolded bs] free(2)] obtain t h1 zs l where h1:
      "shrink_block h r sz = Some (t, h1)" "heap_ok h1 (xs @ r # zs)" "mem h1 = mem h"
      "hbrk h1 = hbrk h" "sz \<le> l" "entry (hdrs h1) r = (r, l, bused (the (hdrs h r)))"
      "allocs (hdrs h1) xs = allocs (hdrs h) xs" "allocs (hdrs h1) zs = allocs (hdrs h) ys" by blast
    from mark_list [OF h1(2), of r True] obtain h2 where h2:
      "upd_hdr r (\<lambda>b. b\<lparr>bused := True\<rparr>) h1 = Some h2" "heap_ok h2 (xs @ r # zs)"
      "mem h2 = mem h1" "hbrk h2 = hbrk h1" "\<forall>a. a \<noteq> r \<longrightarrow> entry (hdrs h2) a = entry (hdrs h1) a"
      "entry (hdrs h2) r = (r, blen (the (hdrs h1 r)), True)" by auto
    have d: "r \<notin> set xs" "r \<notin> set zs" using heap_distinct [OF h2(2)] by auto
    have "allocs (hdrs h2) xs = allocs (hdrs h1) xs" "allocs (hdrs h2) zs = allocs (hdrs h1) zs"
      using d h2(5) by (auto intro!: allocs_entry)
    moreover have "blen (the (hdrs h1 r)) = l" using h1(6) by (simp add: entry_def)
    ultimately have "allocs (hdrs h2) (xs @ r # zs) = insert (r + HDR, l) (allocs (hdrs h) bs)"
      using h1(7,8) h2(6) free by (simp add: bs allocs_append allocs_Cons entry_snd)
    with r(1) False h1 h2 bs free show ?thesis
      by (intro disjI2 exI [of _ r] exI [of _ h2] exI [of _ "xs @ r # zs"] exI [of _ l])
        (simp add: get_free_block_def)
  qed
qed

lemma kmalloc_ok:
  assumes ok: "heap_ok h bs" and sz: "0 < sz" and room: "hbrk h + sz + 32 < 2 ^ 32"
  shows "\<exists>m h' bs' l. kmalloc h sz = Some (m + HDR, h') \<and> heap_ok h' bs' \<and> m \<in> set bs' \<and>
    sz \<le> l \<and> mem h' = mem h \<and> hbrk h' \<le> hbrk h + sz + 32 \<and>
    allocs (hdrs h') bs' = insert (m + HDR, l) (allocs (hdrs h) bs) \<and>
    m + HDR \<notin> fst ` allocs (hdrs h) bs"
proof -
  have push: "\<exists>m h' bs' l. push_block h sz = Some (m, h') \<and> heap_ok h' bs' \<and> m \<in> set bs' \<and>
    sz \<le> l \<and> mem h' = mem h \<and> hbrk h' \<le> hbrk h + sz + 32 \<and>
    allocs (hdrs h') bs' = insert (m + HDR, l) (allocs (hdrs h) bs) \<and>
    m + HDR \<notin> fst ` allocs (hdrs h) bs"
  proof -
    from push_list [OF ok room] obtain h' n where p: "push_block h sz = Some (n, h')"
      "heap_ok h' (bs @ [n])" "mem h' = mem h" "hbrk h' \<le> hbrk h + sz + 32"
      "\<forall>a \<in> set bs. entry (hdrs h') a = entry (hdrs h) a" "entry (hdrs h') n = (n, sz, True)"
      by blast
    then have "allocs (hdrs h') (bs @ [n]) = insert (n + HDR, sz) (allocs (hdrs h) bs)"
      using allocs_entry [OF p(5)] by (simp add: allocs_append allocs_Cons)
    moreover have "n + HDR \<notin> fst ` allocs (hdrs h) bs"
      using heap_distinct [OF p(2)] by (auto simp: allocs_def payload_def)
    ultimately show ?thesis using p
      by (intro exI [of _ n] exI [of _ h'] exI [of _ "bs @ [n]"] exI [of _ sz]) simp
  qed
  show ?thesis
  proof (cases "base h = 0 \<or> get_free_block h sz = Some (0, h)")
    case True
    with sz have km: "kmalloc h sz = push_block h sz \<bind> (\<lambda>(m, h1). Some (m + HDR, h1))"
      by (auto simp: kmalloc_def)
    from push obtain m h' bs' l where "push_block h sz = Some (m, h')" "heap_ok h' bs'" "m \<in> set bs'"
      "sz \<le> l" "mem h' = mem h" "hbrk h' \<le> hbrk h + sz + 32"
      "allocs (hdrs h') bs' = insert (m + HDR, l) (allocs (hdrs h) bs)"
      "m + HDR \<notin> fst ` allocs (hdrs h) bs" by blast
    with km show ?thesis
      by (intro exI [of _ m] exI [of _ h'] exI [of _ bs'] exI [of _ l]) simp
  next
    case False
    with get_free_ok [OF ok, of sz] obtain m h' bs' l where g: "get_free_block h sz = Some (m, h')"
      "heap_ok h' bs'" "m \<in> set bs'" "m \<in> set bs" "\<not> bused (the (hdrs h m))" "mem h' = mem h"
      "hbrk h' = hbrk h" "sz \<le> l" "allocs (hdrs h') bs' = insert (m + HDR, l) (allocs (hdrs h) bs)"
      by blast
    from g(4) obtain xs ys where "bs = xs @ m # ys" by (auto dest: split_list)
    with ok have "0 < m" using heap_block by blast
    moreover have "m + HDR \<notin> fst ` allocs (hdrs h) bs" using g(5) by (auto simp: allocs_def payload_def)
    ultimately show ?thesis using g False sz
      by (intro exI [of _ m] exI [of _ h'] exI [of _ bs'] exI [of _ l]) (simp add: kmalloc_def)
  qed
qed

lemma merge_ok:
  assumes ok: "heap_ok h (xs @ m # n # ys)" and free: "\<not> bused (the (hdrs h n))"
  shows "\<exists>h' l. block_merge_next h m = Some h' \<and> heap_ok h' (xs @ m # ys) \<and> mem h' = mem h \<and>
    hbrk h' = hbrk h \<and> l = n - m + blen (the (hdrs h n)) \<and> blen (the (hdrs h m)) \<le> l \<and>
    entry (hdrs h') m = (m, l, bused (the (hdrs h m))) \<and>
    allocs (hdrs h') xs = allocs (hdrs h) xs \<and> allocs (hdrs h') ys = allocs (hdrs h) (n # ys)"
proof -
  from merge_list [OF ok] obtain h' where h': "block_merge_next h m = Some h'"
    "heap_ok h' (xs @ m # ys)" "mem h' = mem h" "hbrk h' = hbrk h"
    "\<forall>a \<in> set (xs @ ys). entry (hdrs h') a = entry (hdrs h) a"
    "entry (hdrs h') m = (m, n - m + blen (the (hdrs h n)), bused (the (hdrs h m)))" by blast
  moreover have "blen (the (hdrs h m)) \<le> n - m + blen (the (hdrs h n))"
    using heap_block [OF ok] by auto
  moreover have "allocs (hdrs h') xs = allocs (hdrs h) xs" "allocs (hdrs h') ys = allocs (hdrs h) (n # ys)"
    using h'(5) free by (simp_all add: allocs_entry allocs_Cons entry_snd)
  ultimately show ?thesis by blast
qed

lemma merge_free:
  assumes ok: "heap_ok h (xs @ m # n # ys)" and free: "\<not> bused (the (hdrs h n))" "\<not> bused (the (hdrs h m))"
  shows "\<exists>h'. block_merge_next h m = Some h' \<and> heap_ok h' (xs @ m # ys) \<and> mem h' = mem h \<and>
    hbrk h' = hbrk h \<and> \<not> bused (the (hdrs h' m)) \<and>
    allocs (hdrs h') (xs @ m # ys) = allocs (hdrs h) (xs @ m # n # ys)"
proof -
  from merge_ok [OF ok free(1)] obtain h' l where "block_merge_next h m = Some h'"
    "heap_ok h' (xs @ m # ys)" "mem h' = mem h" "hbrk h' = hbrk h"
    "entry (hdrs h') m = (m, l, bused (the (hdrs h m)))"
    "allocs (hdrs h') xs = allocs (hdrs h) xs" "allocs (hdrs h') ys = allocs (hdrs h) (n # ys)"
    by blast
  with free show ?thesis by (auto simp: allocs_append allocs_Cons entry_snd entry_def)
qed

lemma kfree_next:
  assumes ok: "heap_ok h (xs @ m # ys)" and free: "\<not> bused (the (hdrs h m))"
  shows "\<exists>h' zs. (if bnext (the (hdrs h m)) \<noteq> 0 then do { c \<leftarrow> hdrs h (bnext (the (hdrs h m)));
                   if \<not> bused c then block_merge_next h m else Some h } else Some h) = Some h' \<and>
    heap_ok h' (xs @ m # zs) \<and> mem h' = mem h \<and> hbrk h' = hbrk h \<and> \<not> bused (the (hdrs h' m)) \<and>
    allocs (hdrs h') (xs @ m # zs) = allocs (hdrs h) (xs @ m # ys)"
proof (cases ys)
  case Nil
  with heap_block [OF ok] ok free show ?thesis by (auto intro!: exI [of _ "[]"])
next
  case (Cons n zs)
  have n: "0 < n" "\<exists>c. hdrs h n = Some c" "bnext (the (hdrs h m)) = n"
    using heap_block [OF ok] heap_block [of h "xs @ [m]" n zs] ok Cons by auto
  then obtain c where c: "hdrs h n = Some c" by blast
  show ?thesis
  proof (cases "bused c")
    case True
    with n c ok free Cons show ?thesis by (intro exI [of _ h] exI [of _ ys]) simp
  next
    case False
    with merge_free [OF ok [unfolded Cons]] n c free show ?thesis unfolding Cons by auto
  qed
qed

lemma kfree_prev:
  assumes ok: "heap_ok h (xs @ m # zs)" and free: "\<not> bused (the (hdrs h m))"
  shows "\<exists>h' bs. (if bprev (the (hdrs h m)) \<noteq> 0 then do { c \<leftarrow> hdrs h (bprev (the (hdrs h m)));
                   if \<not> bused c then block_merge_next h (bprev (the (hdrs h m))) else Some h } else Some h)
      = Some h' \<and>
    heap_ok h' bs \<and> mem h' = mem h \<and> hbrk h' = hbrk h \<and>
    allocs (hdrs h') bs = allocs (hdrs h) (xs @ m # zs)"
proof (cases xs rule: rev_cases)
  case Nil
  with heap_block [OF ok] ok show ?thesis by auto
next
  case (snoc us p)
  have ok': "heap_ok h (us @ p # m # zs)" using ok snoc by simp
  have p: "0 < p" "\<exists>c. hdrs h p = Some c" "bprev (the (hdrs h m)) = p"
    using heap_block [OF ok] heap_block [OF ok'] snoc by auto
  then obtain c where c: "hdrs h p = Some c" by blast
  show ?thesis
  proof (cases "bused c")
    case True
    with p c ok show ?thesis by auto
  next
    case False
    with merge_free [OF ok'] p c free snoc show ?thesis by auto
  qed
qed

lemma kfree_ok:
  assumes ok: "heap_ok h bs" and m: "m \<in> set bs"
  shows "\<exists>h' bs'. kfree h (m + HDR) = Some h' \<and> heap_ok h' bs' \<and> mem h' = mem h \<and>
    hbrk h' = hbrk h \<and> allocs (hdrs h') bs' = allocs (hdrs h) bs - {payload (hdrs h) m}"
proof -
  from m obtain xs ys where bs: "bs = xs @ m # ys" by (auto dest: split_list)
  from mark_list [OF ok m, of False] obtain h1 where h1:
    "upd_hdr m (\<lambda>b. b\<lparr>bused := False\<rparr>) h = Some h1" "heap_ok h1 (xs @ m # ys)" "mem h1 = mem h"
    "hbrk h1 = hbrk h" "\<forall>a. a \<noteq> m \<longrightarrow> entry (hdrs h1) a = entry (hdrs h) a"
    "entry (hdrs h1) m = (m, blen (the (hdrs h m)), False)" by (auto simp: bs)
  have blk: "m \<notin> set xs" "m \<notin> set ys" using heap_block [OF h1(2)] by auto
  have al: "allocs (hdrs h1) (xs @ m # ys) = allocs (hdrs h) bs - {payload (hdrs h) m}"
  proof -
    have "allocs (hdrs h1) xs = allocs (hdrs h) xs" "allocs (hdrs h1) ys = allocs (hdrs h) ys"
      using h1(5) blk by (auto intro!: allocs_entry)
    then show ?thesis using h1(6) blk allocs_fresh [of "payload (hdrs h) m" m]
      by (auto simp: bs allocs_append allocs_Cons entry_snd payload_def)
  qed
  have f: "\<not> bused (the (hdrs h1 m))" using h1(6) by (simp add: entry_def)
  from kfree_next [OF h1(2) f] obtain h2 zs where h2:
    "(if bnext (the (hdrs h1 m)) \<noteq> 0 then do { c \<leftarrow> hdrs h1 (bnext (the (hdrs h1 m)));
        if \<not> bused c then block_merge_next h1 m else Some h1 } else Some h1) = Some h2"
    "heap_ok h2 (xs @ m # zs)" "mem h2 = mem h1" "hbrk h2 = hbrk h1" "\<not> bused (the (hdrs h2 m))"
    "allocs (hdrs h2) (xs @ m # zs) = allocs (hdrs h1) (xs @ m # ys)" by blast
  from kfree_prev [OF h2(2,5)] obtain h3 bs' where h3:
    "(if bprev (the (hdrs h2 m)) \<noteq> 0 then do { c \<leftarrow> hdrs h2 (bprev (the (hdrs h2 m)));
        if \<not> bused c then block_merge_next h2 (bprev (the (hdrs h2 m))) else Some h2 } else Some h2)
      = Some h3"
    "heap_ok h3 bs'" "mem h3 = mem h2" "hbrk h3 = hbrk h2"
    "allocs (hdrs h3) bs' = allocs (hdrs h2) (xs @ m # zs)" by blast
  obtain b1 where b1: "hdrs h1 m = Some b1" using heap_block [OF h1(2)] by blast
  obtain b2 where b2: "hdrs h2 m = Some b2" using heap_block [OF h2(2)] by blast
  have "kfree h (m + HDR) = Some h3"
    using is_mem_block_ok [OF ok m] h1(1) h2(1) [unfolded b1 option.sel]
      h3(1) [unfolded b2 option.sel] b1 b2
    unfolding kfree_def Let_def diff_add_inverse2
    by (simp add: HDR_def split del: if_split)
  with h1(3,4) h2(3,4,6) h3(2-5) al show ?thesis by auto
qed

lemma grow_last:
  assumes ok: "heap_ok h (xs @ [m])" and sz: "blen (the (hdrs h m)) \<le> sz"
    and room: "hbrk h + sz + 32 < 2 ^ 32"
  shows "\<exists>h'. upd_hdr m (\<lambda>b. b\<lparr>blen := sz\<rparr>)
      (h\<lparr>hbrk := (hbrk h + sub32 sz (blen (the (hdrs h m)))) mod 2 ^ 32\<rparr>) = Some h' \<and>
    heap_ok h' (xs @ [m]) \<and> mem h' = mem h \<and> hbrk h' \<le> hbrk h + sz + 32 \<and>
    entry (hdrs h') m = (m, sz, bused (the (hdrs h m))) \<and> allocs (hdrs h') xs = allocs (hdrs h) xs"
proof -
  from ok have sg: "seg (hdrs h) 0 (xs @ [m]) 0 (hbrk h)" by (simp add: heap_ok_def)
  from seg_split [OF sg] heap_block [OF ok] obtain b where b: "hdrs h m = Some b"
    "bprev b = last0 xs 0" "bnext b = 0" "pos_mag b = magic m" "0 < m" "m mod 8 = 0"
    "m + HDR + blen b \<le> hbrk h" "m \<notin> set xs" by auto
  let ?brk = "hbrk h + (sz - blen b)"
  have brk: "(hbrk h + sub32 sz (blen b)) mod 2 ^ 32 = ?brk" "?brk < 2 ^ 32"
    using room sz b(1) by (simp_all add: sub32_le)
  have "seg ((hdrs h)(m \<mapsto> b\<lparr>blen := sz\<rparr>)) 0 xs m ?brk"
    using sg b seg_bound [of m "hdrs h" 0 xs "hbrk h" ?brk] by (simp add: seg_append)
  then have "heap_ok (h\<lparr>hbrk := ?brk, hdrs := (hdrs h)(m \<mapsto> b\<lparr>blen := sz\<rparr>)\<rparr>) (xs @ [m])"
    using ok b brk sz by (simp add: heap_ok_def seg_append seg_Cons)
  moreover have "allocs ((hdrs h)(m \<mapsto> b\<lparr>blen := sz\<rparr>)) xs = allocs (hdrs h) xs"
    using b(8) by (intro allocs_entry) (auto simp: entry_upd)
  ultimately show ?thesis using b brk by (simp add: upd_hdr_def entry_upd)
qed

text \<open>The condition under which \<open>krealloc\<close> moves the allocation.\<close>

definition moves :: "heap \<Rightarrow> nat \<Rightarrow> nat list \<Rightarrow> nat \<Rightarrow> bool" where
  "moves h m ys sz \<longleftrightarrow> blen (the (hdrs h m)) \<le> sz \<and>
     (\<exists>n zs. ys = n # zs \<and> (bused (the (hdrs h n)) \<or> n - m + blen (the (hdrs h n)) < sz))"

lemma krealloc_in_place:
  assumes ok: "heap_ok h (xs @ m # ys)" and room: "hbrk h + sz + 32 < 2 ^ 32"
    and stay: "\<not> moves h m ys sz"
  shows "\<exists>h' zs k. krealloc h (m + HDR) sz = Some (m + HDR, h') \<and> heap_ok h' (xs @ m # zs) \<and>
    mem h' = mem h \<and> hbrk h' \<le> hbrk h + sz + 32 \<and> sz \<le> k \<and>
    entry (hdrs h') m = (m, k, bused (the (hdrs h m))) \<and>
    allocs (hdrs h') xs = allocs (hdrs h) xs \<and> allocs (hdrs h') zs = allocs (hdrs h) ys"
proof -
  have blk: "is_mem_block h m" using is_mem_block_ok [OF ok] by simp
  from heap_block [OF ok] obtain b where b: "hdrs h m = Some b" "bnext b = hd0 ys 0" by auto
  have P: "0 < HDR" by (simp add: HDR_def)
  consider (shrink) "sz < blen b" | (last) "blen b \<le> sz" "ys = []"
    | (merge) n zs where "blen b \<le> sz" "ys = n # zs" by (cases ys; cases "sz < blen b") (auto simp: not_less)
  then show ?thesis
  proof cases
    case shrink
    with shrink_any [OF ok, of sz] b obtain t h' zs l where "shrink_block h m sz = Some (t, h')"
      "heap_ok h' (xs @ m # zs)" "mem h' = mem h" "hbrk h' = hbrk h" "sz \<le> l"
      "entry (hdrs h') m = (m, l, bused (the (hdrs h m)))" "allocs (hdrs h') xs = allocs (hdrs h) xs"
      "allocs (hdrs h') zs = allocs (hdrs h) ys" by auto
    with shrink b blk P show ?thesis
      by (intro exI [of _ h'] exI [of _ zs] exI [of _ l]) (simp add: krealloc_def)
  next
    case last
    with grow_last [of h xs m sz] ok room b obtain h' where
      "upd_hdr m (\<lambda>b. b\<lparr>blen := sz\<rparr>) (h\<lparr>hbrk := (hbrk h + sub32 sz (blen b)) mod 2 ^ 32\<rparr>) = Some h'"
      "heap_ok h' (xs @ [m])" "mem h' = mem h" "hbrk h' \<le> hbrk h + sz + 32"
      "entry (hdrs h') m = (m, sz, bused b)" "allocs (hdrs h') xs = allocs (hdrs h) xs" by auto
    moreover have "m = base h" using ok last by (simp add: heap_ok_def)
    ultimately show ?thesis using last b blk P
      by (intro exI [of _ h'] exI [of _ "[]"] exI [of _ sz]) (simp add: krealloc_def)
  next
    case merge
    have n: "hdrs h n \<noteq> None" "0 < n" "sub32 n m = n - m"
      using heap_block [of h "xs @ [m]" n zs] heap_block [OF ok] ok merge
      by (auto intro!: sub32_le simp: heap_ok_def)
    with stay merge b have f: "\<not> bused (the (hdrs h n))" "sz \<le> n - m + blen (the (hdrs h n))"
      by (auto simp: moves_def)
    from merge_ok [OF ok [unfolded merge(2)] f(1)] obtain h' where "block_merge_next h m = Some h'"
      "heap_ok h' (xs @ m # zs)" "mem h' = mem h" "hbrk h' = hbrk h"
      "entry (hdrs h') m = (m, n - m + blen (the (hdrs h n)), bused (the (hdrs h m)))"
      "allocs (hdrs h') xs = allocs (hdrs h) xs" "allocs (hdrs h') zs = allocs (hdrs h) ys"
      unfolding merge by auto
    with merge b blk n f P show ?thesis
      by (intro exI [of _ h'] exI [of _ zs] exI [of _ "n - m + blen (the (hdrs h n))"])
        (auto simp: krealloc_def)
  qed
qed

lemma krealloc_moves:
  assumes ok: "heap_ok h (xs @ m # ys)" and mv: "moves h m ys sz"
  shows "krealloc h (m + HDR) sz = do {
    (q, h1) \<leftarrow> kmalloc h sz;
    h2 \<leftarrow> kfree (h1\<lparr>mem := copy_mem q (m + HDR) (blen (the (hdrs h m))) (mem h1)\<rparr>) (m + HDR);
    Some (q, h2) }"
proof -
  have blk: "is_mem_block h m" using is_mem_block_ok [OF ok] by simp
  from heap_block [OF ok] obtain b where b: "hdrs h m = Some b" "bnext b = hd0 ys 0" by auto
  from mv obtain n zs where ys: "ys = n # zs" "blen (the (hdrs h m)) \<le> sz"
    "bused (the (hdrs h n)) \<or> n - m + blen (the (hdrs h n)) < sz" by (auto simp: moves_def)
  have n: "hdrs h n \<noteq> None" "0 < n" "sub32 n m = n - m"
    using heap_block [of h "xs @ [m]" n zs] heap_block [OF ok] ok ys
    by (auto intro!: sub32_le simp: heap_ok_def)
  with b blk ys show ?thesis by (auto simp: krealloc_def HDR_def)
qed

section \<open>The heap as its clients see it\<close>

lemma heap_rep_elem:
  assumes "heap_ok h bs" "(p, l) \<in> allocs (hdrs h) bs"
  shows "\<exists>m xs ys. p = m + HDR \<and> bs = xs @ m # ys \<and> l = blen (the (hdrs h m)) \<and> bused (the (hdrs h m))"
  using assms by (force simp: allocs_def payload_def dest: split_list)

lemma rep_bounds:
  assumes "heap_rep h L" "(p, l) \<in> L"
  shows "HDR < p" "p mod 8 = 0" "p + l \<le> hbrk h" "hbrk h < 2 ^ 32"
proof -
  from assms(1) obtain bs where bs: "heap_ok h bs" "L = allocs (hdrs h) bs" by (auto simp: heap_rep_def)
  with assms(2) obtain m xs ys where m: "p = m + HDR" "bs = xs @ m # ys" "l = blen (the (hdrs h m))"
    using heap_rep_elem by blast
  with heap_block [of h xs m ys] bs show "HDR < p" "p mod 8 = 0" "p + l \<le> hbrk h" "hbrk h < 2 ^ 32"
    by (auto simp: HDR_def heap_ok_def)
qed

lemma rep_disjoint:
  assumes rep: "heap_rep h L" and in_L: "(p, l) \<in> L" "(q, k) \<in> L" and ne: "(p, l) \<noteq> (q, k)"
  shows "p + l + HDR \<le> q \<or> q + k + HDR \<le> p"
proof -
  from rep obtain bs where bs: "heap_ok h bs" "L = allocs (hdrs h) bs" by (auto simp: heap_rep_def)
  with in_L(1) obtain m xs ys where m: "p = m + HDR" "bs = xs @ m # ys" "l = blen (the (hdrs h m))"
    using heap_rep_elem by blast
  from bs in_L(2) obtain n where n: "q = n + HDR" "n \<in> set bs" "k = blen (the (hdrs h n))"
    by (auto simp: allocs_def payload_def)
  with ne m have "n \<in> set xs \<or> n \<in> set ys" by auto
  with heap_block [of h xs m ys] bs m n show ?thesis by (auto simp: add.commute add.left_commute)
qed

lemma rep_kmalloc:
  assumes rep: "heap_rep h L" and sz: "0 < sz" and room: "hbrk h + sz + 32 < 2 ^ 32"
  shows "\<exists>p l h'. kmalloc h sz = Some (p, h') \<and> heap_rep h' (insert (p, l) L) \<and> sz \<le> l \<and>
    p \<notin> fst ` L \<and> mem h' = mem h \<and> hbrk h' \<le> hbrk h + sz + 32"
proof -
  from rep obtain bs where bs: "heap_ok h bs" "L = allocs (hdrs h) bs" by (auto simp: heap_rep_def)
  from kmalloc_ok [OF bs(1) sz room] obtain m h' bs' l where "kmalloc h sz = Some (m + HDR, h')"
    "heap_ok h' bs'" "sz \<le> l" "mem h' = mem h" "hbrk h' \<le> hbrk h + sz + 32"
    "allocs (hdrs h') bs' = insert (m + HDR, l) (allocs (hdrs h) bs)"
    "m + HDR \<notin> fst ` allocs (hdrs h) bs" by blast
  with bs(2) show ?thesis
    by (intro exI [of _ "m + HDR"] exI [of _ l] exI [of _ h']) (auto simp: heap_rep_def)
qed

lemma rep_kfree:
  assumes rep: "heap_rep h L" and p: "(p, l) \<in> L"
  shows "\<exists>h'. kfree h p = Some h' \<and> heap_rep h' (L - {(p, l)}) \<and> mem h' = mem h \<and> hbrk h' = hbrk h"
proof -
  from rep obtain bs where bs: "heap_ok h bs" "L = allocs (hdrs h) bs" by (auto simp: heap_rep_def)
  with p obtain m xs ys where m: "p = m + HDR" "m \<in> set bs" "payload (hdrs h) m = (p, l)"
    by (auto simp: allocs_def payload_def)
  from kfree_ok [OF bs(1) m(2)] obtain h' bs' where "kfree h (m + HDR) = Some h'" "heap_ok h' bs'"
    "mem h' = mem h" "hbrk h' = hbrk h" "allocs (hdrs h') bs' = allocs (hdrs h) bs - {payload (hdrs h) m}"
    by blast
  with bs(2) m show ?thesis by (auto simp: heap_rep_def)
qed

lemma copy_mem_dst: "i < n \<Longrightarrow> copy_mem d s n m (d + i) = m (s + i)"
  by (simp add: copy_mem_def)

lemma copy_mem_other: "a < d \<or> d + n \<le> a \<Longrightarrow> copy_mem d s n m a = m a"
  by (auto simp: copy_mem_def)

lemma rep_krealloc:
  assumes rep: "heap_rep h L" and p: "(p, l) \<in> L" and sz: "0 < sz" and room: "hbrk h + sz + 32 < 2 ^ 32"
  shows "\<exists>q k h'. krealloc h p sz = Some (q, h') \<and> heap_rep h' (insert (q, k) (L - {(p, l)})) \<and> sz \<le> k \<and>
    q \<notin> fst ` (L - {(p, l)}) \<and> (\<forall>i < min l sz. mem h' (q + i) = mem h (p + i)) \<and>
    (\<forall>(r, j) \<in> L - {(p, l)}. \<forall>i < j. mem h' (r + i) = mem h (r + i)) \<and>
    hbrk h' \<le> hbrk h + sz + 32"
proof -
  from rep obtain bs where bs: "heap_ok h bs" "L = allocs (hdrs h) bs" by (auto simp: heap_rep_def)
  with p obtain m xs ys where m: "p = m + HDR" "bs = xs @ m # ys" "l = blen (the (hdrs h m))"
    "bused (the (hdrs h m))" using heap_rep_elem by blast
  have ok: "heap_ok h (xs @ m # ys)" using bs m by simp
  have L: "L - {(p, l)} = allocs (hdrs h) xs \<union> allocs (hdrs h) ys" and fr: "p \<notin> fst ` (L - {(p, l)})"
    using heap_block [OF ok] bs m
    by (auto simp: allocs_append allocs_Cons entry_snd allocs_def payload_def)
  show ?thesis
  proof (cases "moves h m ys sz")
    case False
    from krealloc_in_place [OF ok room False] obtain h' zs k where k:
      "krealloc h (m + HDR) sz = Some (m + HDR, h')" "heap_ok h' (xs @ m # zs)" "mem h' = mem h"
      "hbrk h' \<le> hbrk h + sz + 32" "sz \<le> k" "entry (hdrs h') m = (m, k, bused (the (hdrs h m)))"
      "allocs (hdrs h') xs = allocs (hdrs h) xs" "allocs (hdrs h') zs = allocs (hdrs h) ys" by blast
    then have "allocs (hdrs h') (xs @ m # zs) = insert (p, k) (L - {(p, l)})"
      unfolding L using m by (simp add: allocs_append allocs_Cons)
    with k(2) have "heap_rep h' (insert (p, k) (L - {(p, l)}))" unfolding heap_rep_def by metis
    with k m(1) fr show ?thesis by (intro exI [of _ p] exI [of _ k] exI [of _ h']) auto
  next
    case True
    from rep_kmalloc [OF rep sz room] obtain q k h1 where q: "kmalloc h sz = Some (q, h1)"
      "heap_rep h1 (insert (q, k) L)" "sz \<le> k" "q \<notin> fst ` L" "mem h1 = mem h"
      "hbrk h1 \<le> hbrk h + sz + 32" by blast
    let ?h2 = "h1\<lparr>mem := copy_mem q p l (mem h1)\<rparr>"
    have "heap_rep ?h2 (insert (q, k) L)" using q(2) by (simp add: heap_rep_def heap_ok_def)
    from rep_kfree [OF this, of p l] p obtain h3 where h3: "kfree ?h2 p = Some h3"
      "heap_rep h3 (insert (q, k) L - {(p, l)})" "mem h3 = copy_mem q p l (mem h)" "hbrk h3 = hbrk h1"
      using q(5) by auto
    have "(p, l) \<noteq> (q, k)" using q(4) p by force
    then have "insert (q, k) L - {(p, l)} = insert (q, k) (L - {(p, l)})" by auto
    moreover have "mem h3 (r + i) = mem h (r + i)" if "(r, j) \<in> L" "i < j" for r j i
    proof -
      have "(r, j) \<noteq> (q, k)" using q(4) that(1) by force
      from rep_disjoint [OF q(2), of r j q k] this that True m q(3) show ?thesis
        by (auto simp: h3(3) moves_def intro!: copy_mem_other)
    qed
    moreover have "krealloc h p sz = Some (q, h3)"
      using krealloc_moves [OF ok True] q(1) h3(1) m by simp
    moreover have "\<forall>i < min l sz. mem h3 (q + i) = mem h (p + i)"
      by (simp add: h3(3) copy_mem_dst)
    moreover have "q \<notin> fst ` (L - {(p, l)})" using q(4) by blast
    moreover have "hbrk h3 \<le> hbrk h + sz + 32" using q(6) h3(4) by simp
    ultimately show ?thesis using q(3) h3(2)
      by (intro exI [of _ q] exI [of _ k] exI [of _ h3]) auto
  qed
qed

section \<open>The heap interface\<close>

lemma array_at_update:
  "array_at (as[i := x]) k = (if k = i \<and> i < length as then x else array_at as k)"
  by (simp add: array_at_def)

lemma array_at_snoc: "array_at (as @ [x]) k = (if k = length as then x else array_at as k)"
  by (simp add: array_at_def nth_append)

lemma array_at_less: "array_at as i = Some a \<Longrightarrow> i < length as"
  by (simp add: array_at_def split: if_splits)

lemma holdsD:
  assumes "holds L ls m ps as" "array_at as i = Some a"
  shows "slot L (ls i) m (ps ! i) a" "i < length ps"
    "array_at as k = Some b \<Longrightarrow> k \<noteq> i \<Longrightarrow> ps ! k \<noteq> ps ! i"
  using assms array_at_less [OF assms(2)] by (auto simp: holds_def)

lemma holds_set:
  assumes h: "holds L ls m ps as" and i: "i < length as"
    and old: "\<And>k b. k \<noteq> i \<Longrightarrow> array_at as k = Some b \<Longrightarrow> slot L' (ls k) m' (ps ! k) b \<and> ps ! k \<noteq> p"
    and new: "slot L' l m' p a"
  shows "holds L' (ls(i := l)) m' (ps[i := p]) (as[i := Some a])"
proof -
  have "length ps = length as" using h by (simp add: holds_def)
  moreover have "j = k" if "j \<noteq> i" "k \<noteq> i" "array_at as j \<noteq> None" "array_at as k \<noteq> None" "ps ! j = ps ! k"
    for j k using h that by (auto simp: holds_def)
  ultimately show ?thesis using i old new
    by (auto simp: holds_def array_at_update nth_list_update split: if_splits) metis+
qed

lemma holds_clear:
  assumes h: "holds L ls m ps as" and i: "i < length as"
    and old: "\<And>k b. k \<noteq> i \<Longrightarrow> array_at as k = Some b \<Longrightarrow> slot L' (ls k) m (ps ! k) b"
  shows "holds L' ls m (ps[i := 0]) (as[i := None])"
proof -
  have "length ps = length as" using h by (simp add: holds_def)
  moreover have "j = k" if "j \<noteq> i" "k \<noteq> i" "array_at as j \<noteq> None" "array_at as k \<noteq> None" "ps ! j = ps ! k"
    for j k using h that by (auto simp: holds_def)
  ultimately show ?thesis using i old by (auto simp: holds_def array_at_update split: if_splits)
qed

lemma holds_snoc:
  assumes h: "holds L ls m ps as"
    and old: "\<And>k b. array_at as k = Some b \<Longrightarrow> slot L' (ls k) m' (ps ! k) b \<and> ps ! k \<noteq> p"
    and new: "slot L' l m' p a"
  shows "holds L' (ls(length as := l)) m' (ps @ [p]) (as @ [Some a])"
proof -
  have len: "length ps = length as" using h by (simp add: holds_def)
  have nth: "(ps @ [q]) ! k = ps ! k" if "array_at as k = Some b" for k b q
    using array_at_less [OF that] len by (simp add: nth_append)
  have last: "(ps @ [p]) ! length as = p" by (simp add: len [symmetric])
  have inj: "j = k" if "array_at as j = Some b" "array_at as k = Some c" "ps ! j = ps ! k" for j k b c
    using h that by (auto simp: holds_def)
  have lt: "k < length as" if "array_at as k = Some b" for k b using array_at_less [OF that] .
  show ?thesis
    unfolding holds_def array_at_snoc
    using len nth last inj old new lt by (auto split: if_splits) blast
qed

lemma slot_mono:
  assumes "slot L l m p a" "(p, l) \<in> L'" "\<And>j. j < l \<Longrightarrow> m' (p + j) = m (p + j)"
  shows "slot L' l m' p a"
  using assms by (auto simp: slot_def)

locale heap_provider =
  fixes rep :: "'s \<Rightarrow> (nat \<times> nat) set \<Rightarrow> bool"
    and brk :: "'s \<Rightarrow> nat"
    and bytes :: "'s \<Rightarrow> nat \<Rightarrow> byte"
    and ma :: "'s \<Rightarrow> nat \<Rightarrow> (nat \<times> 's) option"
    and fr :: "'s \<Rightarrow> nat \<Rightarrow> 's option"
    and re :: "'s \<Rightarrow> nat \<Rightarrow> nat \<Rightarrow> (nat \<times> 's) option"
    and pk :: "'s \<Rightarrow> nat \<Rightarrow> byte \<Rightarrow> 's"
  assumes disjoint: "rep s L \<Longrightarrow> (p, l) \<in> L \<Longrightarrow> (q, k) \<in> L \<Longrightarrow> (p, l) \<noteq> (q, k) \<Longrightarrow>
      p + l < q \<or> q + k < p"
    and ma_ok: "rep s L \<Longrightarrow> 0 < sz \<Longrightarrow> brk s + sz + 32 < 2 ^ 32 \<Longrightarrow>
      \<exists>p l s'. ma s sz = Some (p, s') \<and> rep s' (insert (p, l) L) \<and> sz \<le> l \<and> p \<notin> fst ` L \<and>
        bytes s' = bytes s \<and> brk s' \<le> brk s + sz + 32"
    and fr_ok: "rep s L \<Longrightarrow> (p, l) \<in> L \<Longrightarrow>
      \<exists>s'. fr s p = Some s' \<and> rep s' (L - {(p, l)}) \<and> bytes s' = bytes s \<and> brk s' = brk s"
    and re_ok: "rep s L \<Longrightarrow> (p, l) \<in> L \<Longrightarrow> 0 < sz \<Longrightarrow> brk s + sz + 32 < 2 ^ 32 \<Longrightarrow>
      \<exists>q k s'. re s p sz = Some (q, s') \<and> rep s' (insert (q, k) (L - {(p, l)})) \<and> sz \<le> k \<and>
        q \<notin> fst ` (L - {(p, l)}) \<and> (\<forall>i < min l sz. bytes s' (q + i) = bytes s (p + i)) \<and>
        (\<forall>(r, j) \<in> L - {(p, l)}. \<forall>i < j. bytes s' (r + i) = bytes s (r + i)) \<and>
        brk s' \<le> brk s + sz + 32"
    and pk_ok: "rep (pk s a v) L = rep s L" "bytes (pk s a v) = (bytes s)(a := v)" "brk (pk s a v) = brk s"
begin

lemma step_Malloc:
  assumes "rep s L" "holds L ls (bytes s) ps as" "array_step as (Malloc sz) = Some as'"
    "brk s + sz + 32 < 2 ^ 32"
  shows "\<exists>s' ps' L' ls'. client_step ma fr re pk (s, ps) (Malloc sz) = Some (s', ps') \<and> rep s' L' \<and>
    holds L' ls' (bytes s') ps' as' \<and> brk s' \<le> brk s + sz + 32"
proof -
  from assms(3) have as': "0 < sz" "as' = as @ [Some (replicate sz None)]" by (auto split: if_splits)
  from ma_ok [OF assms(1) as'(1) assms(4)] obtain p l s' where m: "ma s sz = Some (p, s')"
    "rep s' (insert (p, l) L)" "sz \<le> l" "p \<notin> fst ` L" "bytes s' = bytes s" "brk s' \<le> brk s + sz + 32"
    by blast
  have "holds (insert (p, l) L) (ls(length as := l)) (bytes s') (ps @ [p]) as'" unfolding as'(2)
  proof (rule holds_snoc [OF assms(2)])
    fix k b assume "array_at as k = Some b"
    from holdsD(1) [OF assms(2) this] m(4,5)
    show "slot (insert (p, l) L) (ls k) (bytes s') (ps ! k) b \<and> ps ! k \<noteq> p"
      by (force simp: slot_def)
  next
    show "slot (insert (p, l) L) l (bytes s') p (replicate sz None)" using m(3) by (auto simp: slot_def)
  qed
  with m show ?thesis by auto
qed

lemma step_Free:
  assumes "rep s L" "holds L ls (bytes s) ps as" "array_step as (Free i) = Some as'"
  shows "\<exists>s' ps' L' ls'. client_step ma fr re pk (s, ps) (Free i) = Some (s', ps') \<and> rep s' L' \<and>
    holds L' ls' (bytes s') ps' as' \<and> brk s' \<le> brk s"
proof -
  from assms(3) obtain a where a: "array_at as i = Some a" "as' = as[i := None]"
    by (auto split: bind_splits)
  from holdsD(1) [OF assms(2) a(1)] have "(ps ! i, ls i) \<in> L" by (simp add: slot_def)
  from fr_ok [OF assms(1) this] obtain s' where f: "fr s (ps ! i) = Some s'"
    "rep s' (L - {(ps ! i, ls i)})" "bytes s' = bytes s" "brk s' = brk s" by blast
  have "holds (L - {(ps ! i, ls i)}) ls (bytes s') (ps[i := 0]) as'" unfolding a(2) f(3)
  proof (rule holds_clear [OF assms(2) array_at_less [OF a(1)]])
    fix k b assume k: "k \<noteq> i" "array_at as k = Some b"
    from holdsD(1) [OF assms(2) k(2)] holdsD(3) [OF assms(2) a(1) k(2,1)]
    show "slot (L - {(ps ! i, ls i)}) (ls k) (bytes s) (ps ! k) b" by (auto simp: slot_def)
  qed
  with f show ?thesis by auto
qed

lemma step_Realloc:
  assumes "rep s L" "holds L ls (bytes s) ps as" "array_step as (Realloc i sz) = Some as'"
    "brk s + sz + 32 < 2 ^ 32"
  shows "\<exists>s' ps' L' ls'. client_step ma fr re pk (s, ps) (Realloc i sz) = Some (s', ps') \<and> rep s' L' \<and>
    holds L' ls' (bytes s') ps' as' \<and> brk s' \<le> brk s + sz + 32"
proof -
  from assms(3) obtain a where a: "array_at as i = Some a" "0 < sz"
    "as' = as[i := Some (take sz a @ replicate (sz - length a) None)]"
    by (auto split: bind_splits if_splits)
  let ?o = "(ps ! i, ls i)"
  from holdsD(1) [OF assms(2) a(1)] have s: "?o \<in> L" "length a \<le> ls i"
    "\<And>j v. j < length a \<Longrightarrow> a ! j = Some v \<Longrightarrow> bytes s (ps ! i + j) = v" by (auto simp: slot_def)
  from re_ok [OF assms(1) s(1) a(2) assms(4)] obtain q k s' where r: "re s (ps ! i) sz = Some (q, s')"
    "rep s' (insert (q, k) (L - {?o}))" "sz \<le> k" "q \<notin> fst ` (L - {?o})"
    "\<forall>j < min (ls i) sz. bytes s' (q + j) = bytes s (ps ! i + j)"
    "\<forall>(r, j) \<in> L - {?o}. \<forall>i < j. bytes s' (r + i) = bytes s (r + i)" "brk s' \<le> brk s + sz + 32"
    by blast
  have "holds (insert (q, k) (L - {?o})) (ls(i := k)) (bytes s') (ps[i := q]) as'" unfolding a(3)
  proof (rule holds_set [OF assms(2) array_at_less [OF a(1)]])
    fix n b assume k: "n \<noteq> i" "array_at as n = Some b"
    from holdsD(1) [OF assms(2) k(2)] holdsD(3) [OF assms(2) a(1) k(2,1)]
    have o: "slot L (ls n) (bytes s) (ps ! n) b" "(ps ! n, ls n) \<in> L - {?o}" by (auto simp: slot_def)
    have "ps ! n \<noteq> q" using r(4) o(2) by force
    moreover have "\<forall>j < ls n. bytes s' (ps ! n + j) = bytes s (ps ! n + j)"
      using bspec [OF r(6) o(2)] by simp
    ultimately show "slot (insert (q, k) (L - {?o})) (ls n) (bytes s') (ps ! n) b \<and> ps ! n \<noteq> q"
      using o by (auto intro: slot_mono)
  next
    show "slot (insert (q, k) (L - {?o})) k (bytes s') q (take sz a @ replicate (sz - length a) None)"
      using r(3,5) s(2,3) by (auto simp: slot_def nth_append split: if_splits)
  qed
  with r show ?thesis by auto
qed

lemma step_Store:
  assumes "rep s L" "holds L ls (bytes s) ps as" "array_step as (Store i j v) = Some as'"
  shows "\<exists>s' ps' L' ls'. client_step ma fr re pk (s, ps) (Store i j v) = Some (s', ps') \<and> rep s' L' \<and>
    holds L' ls' (bytes s') ps' as' \<and> brk s' \<le> brk s"
proof -
  from assms(3) obtain a where a: "array_at as i = Some a" "j < length a" "as' = as[i := Some (a[j := Some v])]"
    by (auto split: bind_splits if_splits)
  note si = holdsD(1) [OF assms(2) a(1)]
  let ?m = "(bytes s)(ps ! i + j := v)"
  have "holds L (ls(i := ls i)) ?m (ps[i := ps ! i]) as'" unfolding a(3)
  proof (rule holds_set [OF assms(2) array_at_less [OF a(1)]])
    fix k b assume k: "k \<noteq> i" "array_at as k = Some b"
    note sk = holdsD(1) [OF assms(2) k(2)] and ne = holdsD(3) [OF assms(2) a(1) k(2,1)]
    from disjoint [OF assms(1), of "ps ! k" "ls k" "ps ! i" "ls i"] sk si ne a(2)
    show "slot L (ls k) ?m (ps ! k) b \<and> ps ! k \<noteq> ps ! i"
      by (auto simp: slot_def)
  next
    show "slot L (ls i) ?m (ps ! i) (a[j := Some v])"
      using si a(2) by (auto simp: slot_def nth_list_update)
  qed
  with assms(1) show ?thesis by (auto simp: pk_ok)
qed

lemma step_any:
  assumes "rep s L" "holds L ls (bytes s) ps as" "array_step as op = Some as'"
    "brk s + cost op < 2 ^ 32"
  shows "\<exists>s' ps' L' ls'. client_step ma fr re pk (s, ps) op = Some (s', ps') \<and> rep s' L' \<and>
    holds L' ls' (bytes s') ps' as' \<and> brk s' \<le> brk s + cost op"
proof (cases op)
  case (Malloc sz)
  with step_Malloc [OF assms(1,2)] assms(3,4) show ?thesis by (simp add: add.assoc)
next
  case (Free i)
  with step_Free [OF assms(1,2)] assms(3) show ?thesis by simp
next
  case (Realloc i sz)
  with step_Realloc [OF assms(1,2), of i sz as'] assms(3,4) show ?thesis by (simp add: add.assoc)
next
  case (Store i j v)
  with step_Store [OF assms(1,2)] assms(3) show ?thesis by simp
qed

lemma client_refines:
  "rep s L \<Longrightarrow> holds L ls (bytes s) ps as \<Longrightarrow> run_steps array_step as ops = Some as' \<Longrightarrow>
   brk s + sum_list (map cost ops) < 2 ^ 32 \<Longrightarrow>
   \<exists>s' ps' L' ls'. run_steps (client_step ma fr re pk) (s, ps) ops = Some (s', ps') \<and> rep s' L' \<and>
     holds L' ls' (bytes s') ps' as'"
proof (induction ops arbitrary: s L ls ps as)
  case Nil
  then show ?case by auto
next
  case (Cons op ops)
  from Cons.prems(3) obtain as1 where as1: "array_step as op = Some as1" "run_steps array_step as1 ops = Some as'"
    by (auto split: bind_splits)
  from step_any [OF Cons.prems(1,2) as1(1)] Cons.prems(4) obtain s1 ps1 L1 ls1 where s1: "client_step ma fr re pk (s, ps) op = Some (s1, ps1)" "rep s1 L1"
    "holds L1 ls1 (bytes s1) ps1 as1" "brk s1 \<le> brk s + cost op" by auto
  from Cons.IH [OF s1(2,3) as1(2)] s1(1,4) Cons.prems(4) show ?case by auto
qed

end

lemma poke_rep:
  "heap_rep (poke h a v) L = heap_rep h L" "mem (poke h a v) = (mem h)(a := v)" "hbrk (poke h a v) = hbrk h"
  by (simp_all add: poke_def heap_rep_def heap_ok_def)

interpretation kheap: heap_provider heap_rep hbrk mem kmalloc kfree krealloc poke
proof unfold_locales
  fix s L p l q k
  assume "heap_rep s L" "(p, l) \<in> L" "(q, k) \<in> L" "(p, l) \<noteq> (q, k)"
  from rep_disjoint [OF this] show "p + l < q \<or> q + k < p" by (auto simp: HDR_def)
qed (use rep_kmalloc rep_kfree rep_krealloc poke_rep in simp_all)

definition empty_heap :: heap where
  "empty_heap = \<lparr>base = 0, hbrk = 0x1000, hdrs = Map.empty, mem = (\<lambda>_. 0)\<rparr>"

lemma empty_heap_rep: "heap_rep empty_heap {}"
  by (auto simp: heap_rep_def heap_ok_def empty_heap_def intro!: exI [of _ "[]"])

lemma empty_heap_kmalloc:
  "\<exists>p l h'. kmalloc empty_heap 16 = Some (p, h') \<and> heap_rep h' {(p, l)} \<and> hbrk h' \<le> 0x1000 + 48"
  using rep_kmalloc [OF empty_heap_rep, of 16] by (auto simp: empty_heap_def)

section \<open>Properties\<close>

text \<open>
  Claim C1. The heap gives its clients private arrays. Whatever sequence of allocations, frees,
  reallocations and stores a client performs, as long as the sequence makes sense on separate
  byte arrays and the break stays below 4 GB, every call returns; every live object is 8-byte
  aligned and apart from the other live objects, and holds exactly the bytes that were stored
  into it, through every reallocation.
\<close>

theorem heap_refines_arrays:
  assumes "heap_rep h L" "run_steps array_step [] ops = Some arrs"
    "hbrk h + sum_list (map cost ops) < 2 ^ 32"
  shows "\<exists>h' ps. run_steps (client_step kmalloc kfree krealloc poke) (h, []) ops = Some (h', ps) \<and>
    length ps = length arrs \<and>
    (\<forall>i a. array_at arrs i = Some a \<longrightarrow> ps ! i mod 8 = 0 \<and>
       (\<forall>j v. j < length a \<and> a ! j = Some v \<longrightarrow> mem h' (ps ! i + j) = v) \<and>
       (\<forall>k b. array_at arrs k = Some b \<and> k \<noteq> i \<longrightarrow>
          ps ! i + length a < ps ! k \<or> ps ! k + length b < ps ! i))"
proof -
  have "holds L (\<lambda>_. 0) (mem h) [] []" by (simp add: holds_def array_at_def)
  from kheap.client_refines [OF assms(1) this assms(2,3)] obtain h' ps L' ls' where
    run: "run_steps (client_step kmalloc kfree krealloc poke) (h, []) ops = Some (h', ps)" and
    rep: "heap_rep h' L'" and hold: "holds L' ls' (mem h') ps arrs" by blast
  have "ps ! i + length a < ps ! k \<or> ps ! k + length b < ps ! i"
    if "array_at arrs i = Some a" "array_at arrs k = Some b" "k \<noteq> i" for i k a b
    using kheap.disjoint [OF rep, of "ps ! i" "ls' i" "ps ! k" "ls' k"] holdsD(1) [OF hold that(1)]
      holdsD(1) [OF hold that(2)] holdsD(3) [OF hold that] by (auto simp: slot_def)
  moreover have "ps ! i mod 8 = 0" if "array_at arrs i = Some a" for i a
    using rep_bounds(2) [OF rep] holdsD(1) [OF hold that] by (auto simp: slot_def)
  ultimately show ?thesis using run holdsD(1) [OF hold] hold by (auto simp: slot_def holds_def)
qed

theorem heap_refines_arrays_witness:
  "\<exists>h' ps. run_steps (client_step kmalloc kfree krealloc poke) (empty_heap, [])
      [Malloc 2, Store 0 1 7, Malloc 1, Realloc 0 3, Free 1] = Some (h', ps) \<and> length ps = 2 \<and>
    mem h' (ps ! 0 + 1) = 7"
proof -
  have "run_steps array_step [] [Malloc 2, Store 0 1 7, Malloc 1, Realloc 0 3, Free 1] =
      Some [Some [None, Some 7, None], None]"
    by (simp add: array_at_def numeral_2_eq_2 numeral_3_eq_3)
  from heap_refines_arrays [OF empty_heap_rep this] obtain h' ps where
    "run_steps (client_step kmalloc kfree krealloc poke) (empty_heap, [])
      [Malloc 2, Store 0 1 7, Malloc 1, Realloc 0 3, Free 1] = Some (h', ps)" and len: "length ps = 2" and
    all: "\<forall>i a. array_at [Some [None, Some 7, None], None] i = Some a \<longrightarrow>
       (\<forall>j v. j < length a \<and> a ! j = Some v \<longrightarrow> mem h' (ps ! i + j) = v)"
    by (auto simp: empty_heap_def)
  moreover have "mem h' (ps ! 0 + 1) = 7"
    using all [rule_format, of 0 "[None, Some 7, None]" 1 7] by (simp add: array_at_def)
  ultimately show ?thesis by blast
qed

text \<open>
  Claim C14. \<open>kmalloc\<close> returns on every heap with room for the request, with an aligned block of
  at least the size asked for that overlaps no live allocation; the live allocations and the
  contents of memory stay as they are.
\<close>

theorem kmalloc_fresh:
  assumes "heap_rep h L" "0 < sz" "hbrk h + sz + 32 < 2 ^ 32"
  shows "\<exists>p l h'. kmalloc h sz = Some (p, h') \<and> heap_rep h' (insert (p, l) L) \<and> sz \<le> l \<and>
    p mod 8 = 0 \<and> HDR < p \<and> p + l < 2 ^ 32 \<and> mem h' = mem h \<and> (p, l) \<notin> L \<and>
    (\<forall>(q, k) \<in> L. p + l < q \<or> q + k < p)"
proof -
  from rep_kmalloc [OF assms] obtain p l h' where m: "kmalloc h sz = Some (p, h')"
    "heap_rep h' (insert (p, l) L)" "sz \<le> l" "p \<notin> fst ` L" "mem h' = mem h" by blast
  have fresh: "(p, l) \<notin> L" using m(4) by force
  have "p + l < q \<or> q + k < p" if "(q, k) \<in> L" for q k
    using kheap.disjoint [OF m(2), of p l q k] that fresh by auto
  then have "\<forall>(q, k) \<in> L. p + l < q \<or> q + k < p" by blast
  moreover have "p mod 8 = 0" "HDR < p" "p + l < 2 ^ 32" using rep_bounds [OF m(2), of p l] by auto
  ultimately show ?thesis using m(1-3,5) fresh
    by (intro exI [of _ p] exI [of _ l] exI [of _ h']) simp
qed

theorem kmalloc_fresh_witness:
  "\<exists>p l h'. kmalloc empty_heap 100 = Some (p, h') \<and> heap_rep h' {(p, l)} \<and> 100 \<le> l \<and> p mod 8 = 0"
  using kmalloc_fresh [OF empty_heap_rep, of 100] by (auto simp: empty_heap_def)

text \<open>
  \<open>kfree\<close> of a live allocation returns, takes exactly that allocation out of the live
  ones and touches no contents, whichever neighbours it coalesces with.
\<close>

theorem kfree_releases:
  assumes "heap_rep h L" "(p, l) \<in> L"
  shows "\<exists>h'. kfree h p = Some h' \<and> heap_rep h' (L - {(p, l)}) \<and> mem h' = mem h"
  using rep_kfree [OF assms] by blast

theorem kfree_releases_witness:
  "\<exists>p h1 h2. kmalloc empty_heap 16 = Some (p, h1) \<and> kfree h1 p = Some h2 \<and> heap_rep h2 {}"
proof -
  obtain p l h1 where "kmalloc empty_heap 16 = Some (p, h1)" "heap_rep h1 {(p, l)}"
    using empty_heap_kmalloc by blast
  with kfree_releases [of h1 "{(p, l)}" p l] show ?thesis by auto
qed

text \<open>
  Claim C15. \<open>krealloc\<close> of a live allocation returns a live allocation of at least the new size
  whose first bytes are those of the old one, whether it shrinks the block, extends the last
  block, merges with a free neighbour or moves; the other allocations keep place and contents.
\<close>

theorem krealloc_keeps_contents:
  assumes "heap_rep h L" "(p, l) \<in> L" "0 < sz" "hbrk h + sz + 32 < 2 ^ 32"
  shows "\<exists>q k h'. krealloc h p sz = Some (q, h') \<and> heap_rep h' (insert (q, k) (L - {(p, l)})) \<and>
    sz \<le> k \<and> (\<forall>i < min l sz. mem h' (q + i) = mem h (p + i)) \<and>
    (\<forall>(r, j) \<in> L - {(p, l)}. \<forall>i < j. mem h' (r + i) = mem h (r + i))"
  using rep_krealloc [OF assms] by blast

theorem krealloc_keeps_contents_witness:
  "\<exists>p q k h1 h2. kmalloc empty_heap 16 = Some (p, h1) \<and> krealloc h1 p 500 = Some (q, h2) \<and>
     heap_rep h2 {(q, k)} \<and> 500 \<le> k"
proof -
  obtain p l h1 where a: "kmalloc empty_heap 16 = Some (p, h1)" "heap_rep h1 {(p, l)}"
    "hbrk h1 \<le> 0x1000 + 48" using empty_heap_kmalloc by blast
  from krealloc_keeps_contents [OF a(2), of p l 500] a(3) obtain q k h2 where
    "krealloc h1 p 500 = Some (q, h2)" "heap_rep h2 {(q, k)}" "500 \<le> k" by auto
  with a(1) show ?thesis by blast
qed



end
