(* ===== verification/Mem.thy ===== *)
theory Mem
  imports Petix_Prelude
begin

unbundle bit_operations_syntax

text \<open>
  The physical page allocator and the kernel break, \<open>kernel/mem.c\<close>. A \<open>page_t\<close> is a frame
  number. \<open>frames\<close> is a bitmap with one bit per frame of the managed region; up to 128 frames
  that were freed last are also kept on \<open>free_stack\<close>, which \<open>alloc_page\<close> empties before it
  scans the bitmap. The static variables of the file are the record \<open>page_mem\<close>.
\<close>

section \<open>State\<close>

record page_mem =
  mem_base :: u32
  breakptr :: u32
  nframes :: u32
  frames :: "u32 list"
  free_stack :: "u32 list"
  free_stack_top :: nat

definition PAGE_SIZE :: nat where "PAGE_SIZE = 4096"
definition FREE_STACK_SIZE :: nat where "FREE_STACK_SIZE = 128"

definition CIEL :: "u32 \<Rightarrow> u32 \<Rightarrow> u32" where
  "CIEL x y = (x + y - 1) div y"

section \<open>The kernel break\<close>

definition kbrk :: "page_mem \<Rightarrow> u32 \<Rightarrow> int \<times> page_mem" where
  "kbrk s addr = (0, s\<lparr>breakptr := addr\<rparr>)"

text \<open>\<open>ksbrk\<close> returns the old break; the addition wraps and nothing bounds it.\<close>

definition ksbrk :: "page_mem \<Rightarrow> u32 \<Rightarrow> u32 \<times> page_mem" where
  "ksbrk s increment = (breakptr s, s\<lparr>breakptr := breakptr s + increment\<rparr>)"

text \<open>
  \<open>mem_init\<close>, up to the call of \<open>init_paging\<close>: the bitmap is \<open>sizeof_frames\<close> bytes at the
  initial break, cleared.
\<close>

definition mem_init :: "page_mem \<Rightarrow> u32 \<Rightarrow> u32 \<Rightarrow> u32 \<Rightarrow> page_mem" where
  "mem_init s base initbrk len =
     (let s1 = s\<lparr>mem_base := base, breakptr := initbrk\<rparr>;
          words = CIEL (len div 4096) 32;
          s2 = snd (ksbrk s1 (4 * words))
      in s2\<lparr>frames := replicate (unat words) 0, nframes := len div 4096, free_stack_top := 0\<rparr>)"

section \<open>The bitmap\<close>

definition mem_get_bit :: "u32 list \<Rightarrow> u32 \<Rightarrow> kerr + bool" where
  "mem_get_bit arr i =
     kbind (rd arr (unat (i div 32))) (\<lambda>w. Inr (w AND push_bit (unat (i mod 32)) 1 \<noteq> 0))"

definition mem_set_bit :: "u32 list \<Rightarrow> u32 \<Rightarrow> bool \<Rightarrow> kerr + u32 list" where
  "mem_set_bit arr i val =
     kbind (rd arr (unat (i div 32))) (\<lambda>w.
       wr arr (unat (i div 32))
         (if val then w OR push_bit (unat (i mod 32)) 1
          else w AND NOT (push_bit (unat (i mod 32)) 1)))"

section \<open>Allocation\<close>

text \<open>\<open>__builtin_ctzl\<close>: the number of zero bits below the lowest one bit.\<close>

definition ctz :: "u32 \<Rightarrow> nat" where
  "ctz x = length (takeWhile (\<lambda>n. \<not> bit x n) [0..<32])"

text \<open>
  The scan \<open>for (i = (nframes-1)/32; i >= 0; --i)\<close>. The counter is unsigned, so the test always
  holds: below 0 it wraps to the word in front of the bitmap, a read outside the array.
\<close>

fun scan_frames :: "u32 list \<Rightarrow> nat \<Rightarrow> kerr + nat" where
  "scan_frames fr i =
     kbind (rd fr i) (\<lambda>w.
       if w \<noteq> - 1 then Inr i
       else case i of 0 \<Rightarrow> Inl BadAccess | Suc j \<Rightarrow> scan_frames fr j)"

definition alloc_page :: "page_mem \<Rightarrow> kerr + (u32 \<times> page_mem)" where
  "alloc_page s =
     (if free_stack_top s > 0
      then let top = free_stack_top s - 1 in
           kbind (rd (free_stack s) top) (\<lambda>frame.
           kbind (mem_get_bit (frames s) (frame - mem_base s div 4096)) (\<lambda>used.
           kbind (kassert (\<not> used)) (\<lambda>_.
           kbind (mem_set_bit (frames s) (frame - mem_base s div 4096) True) (\<lambda>fr.
           kbind (kassert (frame \<noteq> 0)) (\<lambda>_.
           Inr (frame, s\<lparr>free_stack_top := top, frames := fr\<rparr>))))))
      else kbind (scan_frames (frames s) (unat ((nframes s - 1) div 32))) (\<lambda>i.
           kbind (rd (frames s) i) (\<lambda>w.
           let off = of_nat i * 32; b = of_nat (ctz (NOT w)) in
           kbind (mem_set_bit (frames s) (off + b) True) (\<lambda>fr.
           let frame = off + b + mem_base s div 4096 in
           kbind (kassert (frame \<noteq> 0)) (\<lambda>_.
           Inr (frame, s\<lparr>frames := fr\<rparr>))))))"

definition free_page :: "page_mem \<Rightarrow> u32 \<Rightarrow> kerr + page_mem" where
  "free_page s page =
     (if page = 0 then Inr s
      else kbind (mem_get_bit (frames s) (page - mem_base s div 4096)) (\<lambda>used.
           kbind (kassert used) (\<lambda>_.
           kbind (if free_stack_top s < FREE_STACK_SIZE
                  then kbind (wr (free_stack s) (free_stack_top s) page) (\<lambda>st.
                       Inr (s\<lparr>free_stack := st, free_stack_top := Suc (free_stack_top s)\<rparr>))
                  else Inr s) (\<lambda>s'.
           kbind (mem_set_bit (frames s') (page - mem_base s' div 4096) False) (\<lambda>fr.
           Inr (s'\<lparr>frames := fr\<rparr>))))))"

definition alloc_page_ptr :: "page_mem \<Rightarrow> kerr + (u32 \<times> page_mem)" where
  "alloc_page_ptr s = kbind (alloc_page s) (\<lambda>(p, s'). Inr (push_bit 12 p, s'))"

definition free_page_ptr :: "page_mem \<Rightarrow> u32 \<Rightarrow> kerr + page_mem" where
  "free_page_ptr s page = free_page s (drop_bit 12 page)"

declare scan_frames.simps [simp del]

section \<open>Clients of an allocator\<close>

text \<open>
  A client allocates frames and frees frames it holds (\<open>FreeP i\<close> frees the \<open>i\<close>-th held one), for
  any allocator \<open>al\<close> and release function \<open>fr\<close>.
\<close>

datatype page_op = AllocP | FreeP nat

fun run_pages ::
    "('s \<Rightarrow> kerr + (u32 \<times> 's)) \<Rightarrow> ('s \<Rightarrow> u32 \<Rightarrow> kerr + 's) \<Rightarrow> page_op list \<Rightarrow>
     u32 list \<times> 's \<Rightarrow> kerr + (u32 list \<times> 's)" where
  "run_pages al fr [] hs = Inr hs"
| "run_pages al fr (AllocP # ops) (held, s) =
     kbind (al s) (\<lambda>(p, s'). run_pages al fr ops (p # held, s'))"
| "run_pages al fr (FreeP i # ops) (held, s) =
     (if i < length held
      then kbind (fr s (held ! i)) (\<lambda>s'. run_pages al fr ops (take i held @ drop (Suc i) held, s'))
      else run_pages al fr ops (held, s))"

section \<open>The abstraction: which frames are in use\<close>

definition bits :: "u32 list \<Rightarrow> nat set" where
  "bits fr = {i. i < 32 * length fr \<and> bit (fr ! (i div 32)) (i mod 32)}"

definition base_frame :: "page_mem \<Rightarrow> nat" where
  "base_frame s = unat (mem_base s div 4096)"

definition allocated :: "page_mem \<Rightarrow> u32 set" where
  "allocated s = {p. base_frame s \<le> unat p \<and> unat p - base_frame s \<in> bits (frames s)}"

text \<open>The frames the bitmap has a bit for.\<close>

definition region :: "page_mem \<Rightarrow> u32 set" where
  "region s = {p. base_frame s \<le> unat p \<and> unat p < base_frame s + 32 * length (frames s)}"

text \<open>
  The bitmap covers the frames of a region that starts above frame 0 and ends below \<open>2 ^ 32\<close>,
  and the frames on the stack are distinct, inside the region and free.
\<close>

definition pm_inv :: "page_mem \<Rightarrow> bool" where
  "pm_inv s \<longleftrightarrow>
     0 < base_frame s \<and> base_frame s + 32 * length (frames s) < 2 ^ 32 \<and>
     0 < nframes s \<and> length (frames s) = Suc (unat ((nframes s - 1) div 32)) \<and>
     length (free_stack s) = FREE_STACK_SIZE \<and> free_stack_top s \<le> FREE_STACK_SIZE \<and>
     distinct (take (free_stack_top s) (free_stack s)) \<and>
     (\<forall>p \<in> set (take (free_stack_top s) (free_stack s)). p \<in> region s \<and> p \<notin> allocated s)"

section \<open>Lemmas\<close>

lemma unat_div32: "unat ((i::u32) div 32) = unat i div 32" "unat (i mod 32) = unat i mod 32"
  by (simp_all add: unat_div_distrib unat_mod_distrib)

lemma mem_get_bit_eq:
  "unat i < 32 * length arr \<Longrightarrow> mem_get_bit arr i = Inr (unat i \<in> bits arr)"
  by (auto simp: mem_get_bit_def bits_def unat_div32 bit_iff_and_push_bit_not_eq_0)

lemma mem_set_bit_eq:
  assumes "unat i < 32 * length arr"
  obtains arr' where "mem_set_bit arr i v = Inr arr'" "length arr' = length arr"
    "bits arr' = (if v then insert (unat i) (bits arr) else bits arr - {unat i})"
proof -
  let ?k = "unat i div 32" and ?n = "unat i mod 32"
  have k: "?k < length arr" using assms by simp
  define w where "w = (if v then arr ! ?k OR push_bit ?n 1 else arr ! ?k AND NOT (push_bit ?n 1))"
  have eq: "mem_set_bit arr i v = Inr (arr[?k := w])"
    using k by (simp add: mem_set_bit_def unat_div32 w_def)
  have b: "bit w m \<longleftrightarrow> (if m = ?n then v else bit (arr ! ?k) m)" if "m < 32" for m
    using that by (auto simp: bit_simps w_def)
  have upd: "bit (arr[?k := w] ! (j div 32)) (j mod 32) \<longleftrightarrow>
      (if j = unat i then v else bit (arr ! (j div 32)) (j mod 32))" for j
  proof (cases "j div 32 = ?k")
    case True
    then have "j = unat i \<longleftrightarrow> j mod 32 = ?n" by (metis div_mult_mod_eq)
    with True k b [of "j mod 32"] show ?thesis by simp
  next
    case False
    then show ?thesis by auto
  qed
  have "bits (arr[?k := w]) = (if v then insert (unat i) (bits arr) else bits arr - {unat i})"
    unfolding bits_def upd using assms by auto
  with eq that show thesis by simp
qed

lemma ctz_spec:
  assumes "x \<noteq> 0"
  shows "ctz x < 32" "bit x (ctz x)"
proof -
  from assms obtain n where "n < 32" "bit x n"
    by (auto simp: bit_eq_iff dest: bit_imp_le_length)
  then have "\<exists>n \<in> set [0..<32]. \<not> (\<not> bit x n)" by auto
  then have lt: "length (takeWhile (\<lambda>n. \<not> bit x n) [0..<32]) < length [0..<32]"
    by (rule length_takeWhile_less)
  from lt show "ctz x < 32" by (simp add: ctz_def)
  from nth_takeWhile_stop [OF lt] lt show "bit x (ctz x)" by (simp add: ctz_def)
qed

lemma scan_frames_found:
  "i < length fr \<Longrightarrow> \<exists>k \<le> i. fr ! k \<noteq> - 1 \<Longrightarrow>
   \<exists>k. scan_frames fr i = Inr k \<and> k \<le> i \<and> fr ! k \<noteq> - 1"
proof (induction i)
  case 0
  then show ?case by (subst scan_frames.simps) simp
next
  case (Suc i)
  show ?case
  proof (cases "fr ! Suc i = - 1")
    case True
    with Suc.prems have "\<exists>k \<le> i. fr ! k \<noteq> - 1" by (metis le_Suc_eq)
    with Suc True show ?thesis by (subst scan_frames.simps) (auto intro: le_SucI)
  next
    case False
    with Suc.prems show ?thesis by (subst scan_frames.simps) simp
  qed
qed

lemma scan_frames_full:
  "i < length fr \<Longrightarrow> \<forall>k \<le> i. fr ! k = - 1 \<Longrightarrow> scan_frames fr i = Inl BadAccess"
  by (induction i) (subst scan_frames.simps, simp)+

lemma scan_frames_Inr:
  "scan_frames fr i = Inr k \<Longrightarrow> k \<le> i \<and> k < length fr \<and> fr ! k \<noteq> - 1"
proof (induction i)
  case 0
  then show ?case by (subst (asm) scan_frames.simps) (auto simp: kres split: if_splits)
next
  case (Suc i)
  from Suc.prems show ?case
    by (subst (asm) scan_frames.simps) (auto simp: kres split: if_splits dest: Suc.IH)
qed

subsection \<open>Frame numbers and bit indices\<close>

lemma allocated_region: "allocated s \<subseteq> region s"
  by (auto simp: allocated_def region_def bits_def)

lemma region_index:
  assumes "p \<in> region s"
  shows "unat (p - mem_base s div 4096) = unat p - base_frame s"
    "unat p - base_frame s < 32 * length (frames s)"
proof -
  have "mem_base s div 4096 \<le> p"
    using assms by (simp add: region_def base_frame_def word_le_nat_alt)
  then show "unat (p - mem_base s div 4096) = unat p - base_frame s"
    by (simp add: unat_sub base_frame_def)
  show "unat p - base_frame s < 32 * length (frames s)"
    using assms by (auto simp: region_def)
qed

lemma allocated_iff: "p \<in> region s \<Longrightarrow> p \<in> allocated s \<longleftrightarrow> unat p - base_frame s \<in> bits (frames s)"
  by (auto simp: allocated_def region_def)

lemma get_bit_region:
  "p \<in> region s \<Longrightarrow> mem_get_bit (frames s) (p - mem_base s div 4096) = Inr (p \<in> allocated s)"
  by (simp add: mem_get_bit_eq region_index allocated_iff)

text \<open>Writing the bit of a frame changes the set of frames in use by that frame.\<close>

lemma set_bit_region:
  assumes "p \<in> region s"
  obtains fr where "mem_set_bit (frames s) (p - mem_base s div 4096) v = Inr fr"
    "length fr = length (frames s)"
    "\<forall>s'. frames s' = fr \<longrightarrow> mem_base s' = mem_base s \<longrightarrow>
       allocated s' = (if v then insert p (allocated s) else allocated s - {p})"
proof -
  let ?i = "p - mem_base s div 4096"
  have i: "unat ?i = unat p - base_frame s" "unat ?i < 32 * length (frames s)"
    using region_index [OF assms] by simp_all
  from mem_set_bit_eq [OF i(2)] obtain fr where fr: "mem_set_bit (frames s) ?i v = Inr fr"
    "length fr = length (frames s)"
    "bits fr = (if v then insert (unat ?i) (bits (frames s)) else bits (frames s) - {unat ?i})" .
  have "base_frame s \<le> unat p" using assms by (simp add: region_def)
  then have idx: "base_frame s \<le> unat q \<Longrightarrow> unat q - base_frame s = unat p - base_frame s \<longleftrightarrow> q = p" for q
    by (auto simp: word_unat_eq_iff)
  have "allocated s' = (if v then insert p (allocated s) else allocated s - {p})"
    if "frames s' = fr" "mem_base s' = mem_base s" for s'
  proof -
    have "base_frame s' = base_frame s" using that by (simp add: base_frame_def)
    with that fr(3) i(1) idx \<open>base_frame s \<le> unat p\<close> show ?thesis
      by (auto simp: allocated_def)
  qed
  with fr that show thesis by blast
qed

lemmas mark_used = set_bit_region [where v = True, unfolded if_True]
lemmas mark_free = set_bit_region [where v = False, unfolded if_False]

lemma frame_of_index:
  assumes "pm_inv s" "j < 32 * length (frames s)"
  shows "unat (of_nat j + mem_base s div 4096) = j + base_frame s"
    "of_nat j + mem_base s div 4096 \<in> region s"
proof -
  have "j + base_frame s < 2 ^ 32" using assms by (simp add: pm_inv_def)
  moreover from this have "unat (of_nat j :: u32) = j" by (simp add: unat_of_nat_u32)
  ultimately show u: "unat (of_nat j + mem_base s div 4096) = j + base_frame s"
    by (subst unat_add_lem [THEN iffD1]) (simp_all add: base_frame_def)
  with assms(2) show "of_nat j + mem_base s div 4096 \<in> region s" by (simp add: region_def)
qed

subsection \<open>Allocation and release\<close>

lemma word_full: "(w::u32) = - 1 \<longleftrightarrow> (\<forall>n < 32. bit w n)"
  by (auto simp: bit_eq_iff dest: bit_imp_le_length)

lemma bits_full: "i < length fr \<Longrightarrow> fr ! i = - 1 \<longleftrightarrow> (\<forall>n < 32. 32 * i + n \<in> bits fr)"
  by (auto simp: bits_def word_full)

lemma stack_top:
  assumes "pm_inv s" "0 < free_stack_top s"
  shows "free_stack s ! (free_stack_top s - 1) \<in> region s"
    "free_stack s ! (free_stack_top s - 1) \<notin> allocated s"
    "free_stack s ! (free_stack_top s - 1) \<notin> set (take (free_stack_top s - 1) (free_stack s))"
    "free_stack_top s - 1 < length (free_stack s)"
proof -
  from assms obtain n where n: "free_stack_top s = Suc n" "n < length (free_stack s)"
    by (cases "free_stack_top s") (auto simp: pm_inv_def)
  then have "take (free_stack_top s) (free_stack s) = take n (free_stack s) @ [free_stack s ! n]"
    by (simp add: take_Suc_conv_app_nth)
  with assms(1) n show "free_stack s ! (free_stack_top s - 1) \<in> region s"
    "free_stack s ! (free_stack_top s - 1) \<notin> allocated s"
    "free_stack s ! (free_stack_top s - 1) \<notin> set (take (free_stack_top s - 1) (free_stack s))"
    "free_stack_top s - 1 < length (free_stack s)"
    by (auto simp: pm_inv_def)
qed

lemma region_nonzero: "pm_inv s \<Longrightarrow> p \<in> region s \<Longrightarrow> p \<noteq> 0"
  by (auto simp: pm_inv_def region_def)

lemma alloc_page_pop:
  assumes inv: "pm_inv s" and top: "0 < free_stack_top s"
  shows "\<exists>s'. alloc_page s = Inr (free_stack s ! (free_stack_top s - 1), s') \<and>
    allocated s' = insert (free_stack s ! (free_stack_top s - 1)) (allocated s) \<and>
    region s' = region s \<and> pm_inv s'"
proof -
  let ?p = "free_stack s ! (free_stack_top s - 1)"
  note st = stack_top [OF inv top]
  from mark_used [OF st(1)] obtain fr where
    fr: "mem_set_bit (frames s) (?p - mem_base s div 4096) True = Inr fr"
      "length fr = length (frames s)"
    and al: "\<forall>s'. frames s' = fr \<longrightarrow> mem_base s' = mem_base s \<longrightarrow>
       allocated s' = insert ?p (allocated s)" .
  let ?s' = "s\<lparr>free_stack_top := free_stack_top s - 1, frames := fr\<rparr>"
  have "alloc_page s = Inr (?p, ?s')"
    using top st fr region_nonzero [OF inv st(1)]
    by (simp add: alloc_page_def Let_def get_bit_region)
  moreover have al': "allocated ?s' = insert ?p (allocated s)" using al by simp
  moreover have reg: "region ?s' = region s" by (simp add: region_def base_frame_def fr)
  moreover have "pm_inv ?s'"
  proof -
    have sub: "set (take (free_stack_top s - 1) (free_stack s)) \<subseteq> set (take (free_stack_top s) (free_stack s))"
      by (rule set_take_subset_set_take) simp
    have "distinct (take (free_stack_top s - 1) (free_stack s))"
      using inv distinct_take [of "take (free_stack_top s) (free_stack s)" "free_stack_top s - 1"]
      by (simp add: pm_inv_def min_def)
    with inv fr sub st al' reg show ?thesis
      by (auto simp: pm_inv_def base_frame_def)
  qed
  ultimately show ?thesis by blast
qed

lemma alloc_page_scan:
  assumes inv: "pm_inv s" and top: "free_stack_top s = 0" and free: "allocated s \<noteq> region s"
  shows "\<exists>p s'. alloc_page s = Inr (p, s') \<and> p \<in> region s \<and> p \<notin> allocated s \<and>
    allocated s' = insert p (allocated s) \<and> region s' = region s \<and> pm_inv s'"
proof -
  let ?last = "unat ((nframes s - 1) div 32)"
  have last: "length (frames s) = Suc ?last" using inv by (simp add: pm_inv_def)
  from free allocated_region obtain p0 where p0: "p0 \<in> region s" "p0 \<notin> allocated s" by blast
  let ?j0 = "unat p0 - base_frame s"
  have "?j0 \<notin> bits (frames s)" "?j0 div 32 < length (frames s)"
    using p0 region_index(2) [OF p0(1)] by (auto simp: allocated_iff)
  then have "frames s ! (?j0 div 32) \<noteq> - 1" using region_index(2) [OF p0(1)] by (auto simp: bits_def)
  moreover have "?j0 div 32 \<le> ?last" using \<open>?j0 div 32 < length (frames s)\<close> last by simp
  ultimately obtain k where k: "scan_frames (frames s) ?last = Inr k" "k \<le> ?last" "frames s ! k \<noteq> - 1"
    using scan_frames_found [of ?last "frames s"] last by auto
  let ?b = "ctz (NOT (frames s ! k))"
  let ?j = "32 * k + ?b"
  have "NOT (frames s ! k) \<noteq> 0" using k(3) by (metis bit.compl_one bit.double_compl)
  from ctz_spec [OF this] have b: "?b < 32" "\<not> bit (frames s ! k) ?b" by (auto simp: bit_simps)
  then have j: "?j < 32 * length (frames s)" "?j \<notin> bits (frames s)"
    using k(2) last by (auto simp: bits_def)
  let ?p = "of_nat ?j + mem_base s div 4096"
  note p = frame_of_index [OF inv j(1)]
  have "?p \<notin> allocated s" using j p by (simp add: allocated_iff)
  have idx: "?p - mem_base s div 4096 = of_nat k * 32 + of_nat ?b" by simp
  from mark_used [OF p(2)] obtain fr where
    fr: "mem_set_bit (frames s) (?p - mem_base s div 4096) True = Inr fr"
      "length fr = length (frames s)"
    and al: "\<forall>s'. frames s' = fr \<longrightarrow> mem_base s' = mem_base s \<longrightarrow>
       allocated s' = insert ?p (allocated s)" .
  let ?s' = "s\<lparr>frames := fr\<rparr>"
  have "alloc_page s = Inr (?p, ?s')"
    using top k last fr(1) region_nonzero [OF inv p(2)]
    by (simp add: alloc_page_def Let_def idx mult.commute)
  moreover have "allocated ?s' = insert ?p (allocated s)" using al by simp
  moreover have "region ?s' = region s" by (simp add: region_def base_frame_def fr)
  moreover have "pm_inv ?s'" using inv fr top by (simp add: pm_inv_def base_frame_def)
  ultimately show ?thesis using p \<open>?p \<notin> allocated s\<close> by blast
qed

lemma alloc_page_ok:
  assumes "pm_inv s" "allocated s \<noteq> region s"
  shows "\<exists>p s'. alloc_page s = Inr (p, s') \<and> p \<in> region s \<and> p \<notin> allocated s \<and>
    allocated s' = insert p (allocated s) \<and> region s' = region s \<and> pm_inv s'"
proof (cases "free_stack_top s = 0")
  case True
  with assms show ?thesis by (intro alloc_page_scan)
next
  case False
  with assms alloc_page_pop [of s] stack_top [of s] show ?thesis by blast
qed

lemma alloc_page_full:
  assumes inv: "pm_inv s" and full: "allocated s = region s"
  shows "alloc_page s = Inl BadAccess"
proof -
  have top: "free_stack_top s = 0" using stack_top [OF inv] full by auto
  have "32 * i + n \<in> bits (frames s)" if "i < length (frames s)" "n < 32" for i n
  proof -
    have "32 * i + n < 32 * length (frames s)" using that by linarith
    from frame_of_index [OF inv this] full show ?thesis by (metis add_diff_cancel_right' allocated_iff)
  qed
  then have "\<forall>i < length (frames s). frames s ! i = - 1" by (simp add: bits_full)
  then show ?thesis
    using inv scan_frames_full [of "unat ((nframes s - 1) div 32)" "frames s"] top
    by (simp add: pm_inv_def alloc_page_def)
qed

lemma free_page_ok:
  assumes inv: "pm_inv s" and p: "p \<in> allocated s"
  shows "\<exists>s'. free_page s p = Inr s' \<and> allocated s' = allocated s - {p} \<and>
    region s' = region s \<and> pm_inv s' \<and>
    (free_stack_top s < FREE_STACK_SIZE \<longrightarrow> 0 < free_stack_top s' \<and> free_stack s' ! (free_stack_top s' - 1) = p)"
proof -
  have reg: "p \<in> region s" using p allocated_region by blast
  note nz = region_nonzero [OF inv reg]
  from mark_free [OF reg] obtain fr where
    fr: "mem_set_bit (frames s) (p - mem_base s div 4096) False = Inr fr"
      "length fr = length (frames s)"
    and al: "\<forall>s'. frames s' = fr \<longrightarrow> mem_base s' = mem_base s \<longrightarrow>
       allocated s' = allocated s - {p}" .
  let ?t = "free_stack_top s"
  let ?s' = "if ?t < FREE_STACK_SIZE
    then s\<lparr>free_stack := (free_stack s)[?t := p], free_stack_top := Suc ?t, frames := fr\<rparr>
    else s\<lparr>frames := fr\<rparr>"
  have len: "length (free_stack s) = FREE_STACK_SIZE" using inv by (simp add: pm_inv_def)
  have "free_page s p = Inr ?s'"
    using fr nz p reg len by (simp add: free_page_def get_bit_region)
  moreover have al': "allocated ?s' = allocated s - {p}" using al by simp
  moreover have reg': "region ?s' = region s" by (simp add: region_def base_frame_def fr)
  moreover have "pm_inv ?s'"
  proof (cases "?t < FREE_STACK_SIZE")
    case True
    have "take (Suc ?t) ((free_stack s)[?t := p]) = take ?t (free_stack s) @ [p]"
      using True len by (simp add: take_Suc_conv_app_nth)
    moreover have "p \<notin> set (take ?t (free_stack s))" using inv p by (auto simp: pm_inv_def)
    ultimately show ?thesis
      using True inv fr reg al' reg' by (auto simp: pm_inv_def base_frame_def)
  next
    case False
    with inv fr al' reg' show ?thesis by (auto simp: pm_inv_def base_frame_def)
  qed
  ultimately show ?thesis using len by auto
qed

lemma free_page_double:
  assumes "pm_inv s" "p \<in> region s" "p \<notin> allocated s"
  shows "free_page s p = Inl Kassert"
  using assms region_nonzero [of s p] by (simp add: free_page_def get_bit_region)

lemma mem_init_inv:
  assumes "length (free_stack s) = FREE_STACK_SIZE" "4096 \<le> base" "4096 \<le> len"
  shows "pm_inv (mem_init s base initbrk len)" "allocated (mem_init s base initbrk len) = {}"
proof -
  let ?s = "mem_init s base initbrk len"
  define n where "n = unat len div 4096"
  have n: "0 < n" "n < 2 ^ 20"
    using assms(3) unat_u32_less [of len] by (simp_all add: n_def word_le_nat_alt div_greater_zero_iff)
  have nf: "unat (len div 4096) = n" by (simp add: n_def unat_div_distrib)
  have "unat (len div 4096 + 32 - 1 :: u32) = n + 31"
    using n nf by (simp add: unat_arith_simps)
  then have c: "unat (CIEL (len div 4096) 32) = (n + 31) div 32"
    by (simp add: CIEL_def unat_div_distrib)
  have "unat (len div 4096 - 1) = n - 1" using n nf by (subst unat_sub) (auto simp: word_le_nat_alt)
  then have l: "unat ((len div 4096 - 1) div 32) = (n - 1) div 32" by (simp add: unat_div_distrib)
  have "(n + 31) div 32 = Suc ((n - 1) div 32)" using n(1) by (cases n) auto
  moreover have b: "0 < base_frame ?s" "base_frame ?s < 2 ^ 20"
    using assms(2) unat_u32_less [of base]
    by (simp_all add: base_frame_def mem_init_def Let_def ksbrk_def unat_div_distrib word_le_nat_alt div_greater_zero_iff)
  moreover have "32 * ((n + 31) div 32) < 2 ^ 21"
    using n(2) times_div_less_eq_dividend [of 32 "n + 31"] by simp
  ultimately show "pm_inv ?s"
    using assms(1) c l n(1) nf
    by (auto simp: pm_inv_def mem_init_def Let_def ksbrk_def word_less_nat_alt)
  show "allocated ?s = {}" by (auto simp: allocated_def bits_def mem_init_def Let_def ksbrk_def)
qed


section \<open>The allocator interface\<close>

text \<open>
  What the address spaces and the memory file system rely on: a frame handed out is a frame of
  the region nobody holds, and it stays taken until it is given back.
\<close>

locale page_allocator =
  fixes inv :: "'s \<Rightarrow> bool"
    and used :: "'s \<Rightarrow> u32 set"
    and avail :: "'s \<Rightarrow> u32 set"
    and al :: "'s \<Rightarrow> kerr + (u32 \<times> 's)"
    and fr :: "'s \<Rightarrow> u32 \<Rightarrow> kerr + 's"
  assumes al_ok: "inv s \<Longrightarrow> used s \<noteq> avail s \<Longrightarrow>
      \<exists>p s'. al s = Inr (p, s') \<and> p \<in> avail s \<and> p \<notin> used s \<and> used s' = insert p (used s) \<and>
        avail s' = avail s \<and> inv s'"
    and al_full: "inv s \<Longrightarrow> used s = avail s \<Longrightarrow> al s = Inl BadAccess"
    and fr_ok: "inv s \<Longrightarrow> p \<in> used s \<Longrightarrow>
      \<exists>s'. fr s p = Inr s' \<and> used s' = used s - {p} \<and> avail s' = avail s \<and> inv s'"
begin

lemma al_Inr:
  assumes "inv s" "al s = Inr (p, s')"
  shows "p \<in> avail s" "p \<notin> used s" "used s' = insert p (used s)" "avail s' = avail s" "inv s'"
proof -
  have "used s \<noteq> avail s" using assms al_full [of s] by auto
  with assms al_ok [of s]
  show "p \<in> avail s" "p \<notin> used s" "used s' = insert p (used s)" "avail s' = avail s" "inv s'"
    by auto
qed

lemma al_Inl: "inv s \<Longrightarrow> al s = Inl e \<Longrightarrow> e = BadAccess \<and> used s = avail s"
  using al_ok [of s] al_full [of s] by (cases "used s = avail s") auto

lemma fr_Inr:
  assumes "inv s" "p \<in> used s" "fr s p = Inr s'"
  shows "used s' = used s - {p}" "avail s' = avail s" "inv s'"
  using fr_ok [OF assms(1,2)] assms(3) by auto

lemma fr_Inl: "inv s \<Longrightarrow> p \<in> used s \<Longrightarrow> fr s p \<noteq> Inl e"
  using fr_ok [of s p] by auto

text \<open>Any sequence of requests: what the client holds is distinct and is what it added.\<close>

lemma run_pages_exclusive:
  "inv s \<Longrightarrow> distinct held \<Longrightarrow> set held \<inter> own = {} \<Longrightarrow> used s = own \<union> set held \<Longrightarrow>
   run_pages al fr ops (held, s) = Inr (held', s') \<Longrightarrow>
   inv s' \<and> distinct held' \<and> set held' \<inter> own = {} \<and> used s' = own \<union> set held' \<and> avail s' = avail s"
proof (induction ops arbitrary: held s)
  case Nil
  then show ?case by simp
next
  case (Cons op ops)
  show ?case
  proof (cases op)
    case AllocP
    with Cons.prems(5) obtain p s1 where
      a: "al s = Inr (p, s1)" "run_pages al fr ops (p # held, s1) = Inr (held', s')"
      by (auto simp: kres)
    note n = al_Inr [OF Cons.prems(1) a(1)]
    have "inv s' \<and> distinct held' \<and> set held' \<inter> own = {} \<and> used s' = own \<union> set held' \<and> avail s' = avail s1"
      using n Cons.prems(2-4) by (intro Cons.IH [OF _ _ _ _ a(2)]) auto
    with n show ?thesis by simp
  next
    case (FreeP i)
    show ?thesis
    proof (cases "i < length held")
      case True
      let ?h = "take i held @ drop (Suc i) held"
      have h: "distinct ?h" "set ?h = set held - {held ! i}" "held ! i \<in> set held"
        using remove_nth [OF Cons.prems(2) True] True by simp_all
      from FreeP True Cons.prems(5) obtain s1 where
        a: "fr s (held ! i) = Inr s1" "run_pages al fr ops (?h, s1) = Inr (held', s')"
        by (auto simp: kres)
      have "held ! i \<in> used s" using h(3) Cons.prems(4) by simp
      note n = fr_Inr [OF Cons.prems(1) this a(1)]
      have "inv s' \<and> distinct held' \<and> set held' \<inter> own = {} \<and> used s' = own \<union> set held' \<and> avail s' = avail s1"
        using n h Cons.prems(3,4) by (intro Cons.IH [OF _ _ _ _ a(2)]) auto
      with n show ?thesis by simp
    next
      case False
      with FreeP Cons show ?thesis by simp
    qed
  qed
qed

text \<open>The only way such a sequence stops is that the region is used up.\<close>

lemma run_pages_stops:
  "inv s \<Longrightarrow> distinct held \<Longrightarrow> set held \<subseteq> used s \<Longrightarrow>
   run_pages al fr ops (held, s) = Inl e \<Longrightarrow> e = BadAccess"
proof (induction ops arbitrary: held s)
  case Nil
  then show ?case by simp
next
  case (Cons op ops)
  show ?case
  proof (cases op)
    case AllocP
    show ?thesis
    proof (cases "al s")
      case (Inl e')
      with AllocP Cons.prems al_Inl [OF Cons.prems(1) Inl] show ?thesis by simp
    next
      case (Inr r)
      obtain p s1 where r: "r = (p, s1)" by (cases r)
      with AllocP Inr Cons.prems(4) have "run_pages al fr ops (p # held, s1) = Inl e" by simp
      with al_Inr [OF Cons.prems(1) Inr [unfolded r]] Cons.prems(2,3) show ?thesis
        by (intro Cons.IH [of s1 "p # held"]) auto
    qed
  next
    case (FreeP i)
    show ?thesis
    proof (cases "i < length held")
      case True
      let ?h = "take i held @ drop (Suc i) held"
      have h: "distinct ?h" "set ?h = set held - {held ! i}" "held ! i \<in> used s"
        using remove_nth [OF Cons.prems(2) True] True Cons.prems(3) by auto
      from fr_ok [OF Cons.prems(1) h(3)] obtain s1 where
        s1: "fr s (held ! i) = Inr s1" "used s1 = used s - {held ! i}" "inv s1" by blast
      with FreeP True Cons.prems(4) have "run_pages al fr ops (?h, s1) = Inl e" by simp
      with s1 h Cons.prems(3) show ?thesis by (intro Cons.IH [of s1 ?h]) auto
    next
      case False
      with FreeP Cons show ?thesis by simp
    qed
  qed
qed

end

interpretation pages: page_allocator pm_inv allocated region alloc_page free_page
proof
  fix s p
  show "pm_inv s \<Longrightarrow> allocated s \<noteq> region s \<Longrightarrow>
    \<exists>p s'. alloc_page s = Inr (p, s') \<and> p \<in> region s \<and> p \<notin> allocated s \<and>
      allocated s' = insert p (allocated s) \<and> region s' = region s \<and> pm_inv s'"
    by (rule alloc_page_ok)
  show "pm_inv s \<Longrightarrow> allocated s = region s \<Longrightarrow> alloc_page s = Inl BadAccess"
    by (rule alloc_page_full)
  show "pm_inv s \<Longrightarrow> p \<in> allocated s \<Longrightarrow>
    \<exists>s'. free_page s p = Inr s' \<and> allocated s' = allocated s - {p} \<and> region s' = region s \<and> pm_inv s'"
    using free_page_ok by blast
qed

section \<open>Properties\<close>

text \<open>A small memory for the witnesses: 64 frames from 1 MiB on.\<close>

definition demo_mem :: page_mem where
  "demo_mem = mem_init \<lparr>mem_base = 0, breakptr = 0, nframes = 0, frames = [],
     free_stack = replicate FREE_STACK_SIZE 0, free_stack_top = 0\<rparr> 0x100000 0x110000 0x40000"

lemma demo_mem: "pm_inv demo_mem" "allocated demo_mem = {}"
  unfolding demo_mem_def by (rule mem_init_inv; simp)+

text \<open>The same memory with every frame in use.\<close>

definition demo_full :: page_mem where
  "demo_full = demo_mem\<lparr>frames := [- 1, - 1]\<rparr>"

lemma demo_full: "pm_inv demo_full" "allocated demo_full = region demo_full"
proof -
  have sel: "frames demo_full = [- 1, - 1]" "base_frame demo_full = 0x100" "nframes demo_full = 64"
    "free_stack_top demo_full = 0" "length (free_stack demo_full) = FREE_STACK_SIZE"
    by (simp_all add: demo_full_def base_frame_def demo_mem_def mem_init_def Let_def ksbrk_def)
  then show "pm_inv demo_full" by (simp add: pm_inv_def)
  have b: "bits [- 1, - 1] = {i. i < 64}"
    by (auto simp: bits_def nth_Cons')
  show "allocated demo_full = region demo_full"
    unfolding allocated_def region_def sel b by (rule Collect_cong) (simp, linarith)
qed

lemma demo_frame: "0x100 \<in> region demo_full" "free_stack_top demo_full < FREE_STACK_SIZE"
  by (simp_all add: demo_full_def region_def base_frame_def demo_mem_def mem_init_def Let_def
    ksbrk_def FREE_STACK_SIZE_def)



text \<open>
  \<open>alloc_page\<close> succeeds whenever the bitmap has a free frame, and returns a non-zero
  frame of the region that was not in use.
\<close>

theorem alloc_page_total:
  assumes "pm_inv s" and "allocated s \<noteq> region s"
  shows "\<exists>p s'. alloc_page s = Inr (p, s') \<and> p \<noteq> 0 \<and> p \<in> region s - allocated s \<and>
    allocated s' = insert p (allocated s) \<and> pm_inv s'"
  using alloc_page_ok [OF assms] region_nonzero [OF assms(1)] by blast

theorem alloc_page_total_witness:
  "\<exists>p s'. alloc_page demo_mem = Inr (p, s') \<and> p \<noteq> 0 \<and> p \<in> region demo_mem - allocated demo_mem \<and>
    allocated s' = insert p (allocated demo_mem) \<and> pm_inv s'"
proof (rule alloc_page_total [OF demo_mem(1)])
  have "0x100 \<in> region demo_mem"
    by (simp add: region_def base_frame_def demo_mem_def mem_init_def Let_def ksbrk_def CIEL_def)
  then show "allocated demo_mem \<noteq> region demo_mem" by (simp add: demo_mem) blast
qed

text \<open>
  A frame freed while the stack has room is the next frame allocated, and freeing a
  frame of the region that is not in use fails the double-free \<open>kassert\<close>.
\<close>

theorem free_page_reuse:
  assumes "pm_inv s" and "p \<in> region s" and "free_stack_top s < FREE_STACK_SIZE"
  shows "if p \<in> allocated s
    then \<exists>s1 s2. free_page s p = Inr s1 \<and> alloc_page s1 = Inr (p, s2) \<and> allocated s2 = allocated s
    else free_page s p = Inl Kassert"
proof (cases "p \<in> allocated s")
  case True
  from free_page_ok [OF assms(1) True] assms(3) obtain s1 where s1:
    "free_page s p = Inr s1" "allocated s1 = allocated s - {p}" "pm_inv s1"
    "0 < free_stack_top s1" "free_stack s1 ! (free_stack_top s1 - 1) = p" by blast
  with alloc_page_pop [OF s1(3,4)] True show ?thesis by auto
next
  case False
  with free_page_double [OF assms(1,2)] show ?thesis by simp
qed

theorem free_page_reuse_witness:
  "0x100 \<in> allocated demo_full \<and>
   (\<exists>s1 s2. free_page demo_full 0x100 = Inr s1 \<and> alloc_page s1 = Inr (0x100, s2) \<and>
      allocated s2 = allocated demo_full)"
  using free_page_reuse [OF demo_full(1) demo_frame] demo_full(2) demo_frame(1) by simp

text \<open>
  When every frame is in use \<open>alloc_page\<close> does not reach its \<open>panic\<close>: the unsigned
  loop counter passes below zero and the scan reads in front of the bitmap.
\<close>

theorem alloc_page_exhausted:
  assumes "pm_inv s" and "allocated s = region s"
  shows "alloc_page s = Inl BadAccess"
  by (rule alloc_page_full [OF assms])

theorem alloc_page_exhausted_witness: "alloc_page demo_full = Inl BadAccess"
  by (rule alloc_page_exhausted [OF demo_full])

text \<open>
  The bitmap is rounded up to whole words, and \<open>alloc_page\<close> does not know where the
  region ends inside the last word: with one frame of memory the second request succeeds and
  returns a frame past the region's \<open>nframes\<close>.
\<close>

theorem alloc_page_overrun:
  defines "s \<equiv> mem_init \<lparr>mem_base = 0, breakptr = 0, nframes = 0, frames = [],
     free_stack = replicate FREE_STACK_SIZE 0, free_stack_top = 0\<rparr> 0x100000 0x110000 0x1000"
  shows "\<exists>p1 s1 p2 s2. alloc_page s = Inr (p1, s1) \<and> alloc_page s1 = Inr (p2, s2) \<and>
    nframes s = 1 \<and> unat p2 = base_frame s + unat (nframes s)"
proof -
  have "scan_frames [x] 0 = (if x \<noteq> - 1 then Inr 0 else Inl BadAccess)" for x
    by (subst scan_frames.simps) simp
  moreover have "ctz (- 1) = 0" "ctz (- 2) = 1"
    by (simp_all add: ctz_def upt_conv_Cons)
  ultimately show ?thesis
    by (simp add: s_def mem_init_def Let_def ksbrk_def CIEL_def alloc_page_def mem_set_bit_def
      base_frame_def)
qed

end
