(* ===== verification/Paging.thy ===== *)
theory Paging
  imports Mem "HOL-Library.Multiset"
begin

unbundle bit_operations_syntax

text \<open>
  Address spaces, \<open>kernel/arch/i686/paging.c\<close> and \<open>mmu.c\<close>. Physical memory is a map from page numbers to
  the object a page holds: a page directory, a page table or 4096 bytes. The kernel reaches a page by its physical
  address (memory below 0xC0000000 is mapped to itself), so a pointer to a page is its number here. An address space is
  the number of its page directory. The bits of an entry that the code never sets are left out.
\<close>

section \<open>The source\<close>

definition PROC_REGION :: u32 where "PROC_REGION = 0xC0000000"
definition PTAB_SIZE :: nat where "PTAB_SIZE = 1024"
definition PDIR_SIZE :: nat where "PDIR_SIZE = 1024"
definition identity_len :: nat where "identity_len = 768"

record page_dir_ent =
  dpresent :: bool
  drw :: bool
  duser :: bool
  dalloc :: bool
  dtable :: u32

record page_tab_ent =
  ppresent :: bool
  prw :: bool
  puser :: bool
  pglobal :: bool
  palloc :: bool
  paddr :: u32

definition zero_pde :: page_dir_ent where
  "zero_pde = \<lparr>dpresent = False, drw = False, duser = False, dalloc = False, dtable = 0\<rparr>"

definition zero_pte :: page_tab_ent where
  "zero_pte = \<lparr>ppresent = False, prw = False, puser = False, pglobal = False, palloc = False, paddr = 0\<rparr>"

datatype page = PDir "page_dir_ent list" | PTab "page_tab_ent list" | PData "byte list"

record paging =
  pmem :: page_mem
  phys :: "u32 \<Rightarrow> page"
  kpagedir :: u32
  cr3 :: u32

text \<open>Reading a page as a directory or as a table.\<close>

definition dir_at :: "paging \<Rightarrow> u32 \<Rightarrow> kerr + page_dir_ent list" where
  "dir_at s p = (case phys s p of PDir es \<Rightarrow> Inr es | _ \<Rightarrow> Inl BadAccess)"

definition tab_at :: "paging \<Rightarrow> u32 \<Rightarrow> kerr + page_tab_ent list" where
  "tab_at s p = (case phys s p of PTab es \<Rightarrow> Inr es | _ \<Rightarrow> Inl BadAccess)"

definition put_page :: "u32 \<Rightarrow> page \<Rightarrow> paging \<Rightarrow> paging" where
  "put_page p c s = s\<lparr>phys := (phys s)(p := c)\<rparr>"

definition set_pde :: "u32 \<Rightarrow> nat \<Rightarrow> (page_dir_ent \<Rightarrow> page_dir_ent) \<Rightarrow> paging \<Rightarrow> kerr + paging" where
  "set_pde p i f s = kbind (dir_at s p) (\<lambda>es. kbind (rd es i) (\<lambda>e. Inr (put_page p (PDir (es[i := f e])) s)))"

definition set_pte :: "u32 \<Rightarrow> nat \<Rightarrow> (page_tab_ent \<Rightarrow> page_tab_ent) \<Rightarrow> paging \<Rightarrow> kerr + paging" where
  "set_pte p i f s = kbind (tab_at s p) (\<lambda>es. kbind (rd es i) (\<lambda>e. Inr (put_page p (PTab (es[i := f e])) s)))"

definition dir_ent :: "paging \<Rightarrow> u32 \<Rightarrow> nat \<Rightarrow> kerr + page_dir_ent" where
  "dir_ent s p i = kbind (dir_at s p) (\<lambda>es. rd es i)"

definition tab_ent :: "paging \<Rightarrow> u32 \<Rightarrow> nat \<Rightarrow> kerr + page_tab_ent" where
  "tab_ent s p i = kbind (tab_at s p) (\<lambda>es. rd es i)"

text \<open>\<open>alloc_page_ptr\<close> and the page number of the pointer; \<open>free_page\<close>.\<close>

definition get_page :: "paging \<Rightarrow> kerr + (u32 \<times> paging)" where
  "get_page s = kbind (alloc_page_ptr (pmem s)) (\<lambda>(ptr, m). Inr (drop_bit 12 ptr, s\<lparr>pmem := m\<rparr>))"

definition drop_page :: "u32 \<Rightarrow> paging \<Rightarrow> kerr + paging" where
  "drop_page p s = kbind (free_page (pmem s) p) (\<lambda>m. Inr (s\<lparr>pmem := m\<rparr>))"

text \<open>\<open>split_addr\<close> of \<open>mmu.h\<close>.\<close>

definition dir_idx :: "u32 \<Rightarrow> nat" where "dir_idx a = unat (drop_bit 22 a)"
definition tab_idx :: "u32 \<Rightarrow> nat" where "tab_idx a = unat (drop_bit 12 a AND 0x3ff)"

text \<open>\<open>init_paging\<close>, for \<open>page_tabs\<close> starting at page \<open>kt\<close>; \<open>kd\<close> is the page of \<open>kpagedir\<close>.\<close>

definition identity_tab :: "nat \<Rightarrow> page_tab_ent list" where
  "identity_tab i =
     map (\<lambda>j. zero_pte\<lparr>ppresent := True, prw := True, pglobal := True,
            paddr := drop_bit 12 (of_nat i * (of_nat PAGE_SIZE * of_nat PTAB_SIZE) + of_nat j * of_nat PAGE_SIZE)\<rparr>) [0..<PTAB_SIZE]"

definition identity_dir :: "u32 \<Rightarrow> page_dir_ent list" where
  "identity_dir kt =
     map (\<lambda>i. if i < identity_len then zero_pde\<lparr>dpresent := True, drw := True, dtable := kt + of_nat i\<rparr> else zero_pde) [0..<PDIR_SIZE]"

definition init_paging :: "u32 \<Rightarrow> u32 \<Rightarrow> paging \<Rightarrow> kerr + paging" where
  "init_paging kd kt s =
     (let s1 = fold (\<lambda>i. put_page (kt + of_nat i) (PTab (identity_tab i))) [0..<identity_len] s;
          s2 = put_page kd (PDir (identity_dir kt)) s1
      in kbind (dir_ent s2 kd 0) (\<lambda>e.
         kbind (set_pte (dtable e) 0 (\<lambda>p. p\<lparr>ppresent := False\<rparr>) s2) (\<lambda>s3.
         Inr (s3\<lparr>kpagedir := kd, cr3 := kd\<rparr>))))"

text \<open>\<open>page_fault_handler\<close>: the two steps that allocate, then the handler. \<open>linaddr\<close> is \<open>cr2\<close>.\<close>

definition fault_table :: "nat \<Rightarrow> paging \<Rightarrow> kerr + paging" where
  "fault_table i s =
     kbind (dir_ent s (cr3 s) i) (\<lambda>e.
     if \<not> dpresent e \<and> dalloc e
     then kbind (get_page s) (\<lambda>(t, s).
          let s = put_page t (PTab (replicate PTAB_SIZE (zero_pte\<lparr>palloc := True, prw := drw e, puser := duser e\<rparr>))) s
          in set_pde (cr3 s) i (\<lambda>e. e\<lparr>dpresent := True, dtable := t\<rparr>) s)
     else Inr s)"

definition fault_page :: "u32 \<Rightarrow> nat \<Rightarrow> paging \<Rightarrow> kerr + paging" where
  "fault_page t j s =
     kbind (tab_ent s t j) (\<lambda>e.
     if \<not> ppresent e \<and> \<not> palloc e then Inl Panic
     else if \<not> ppresent e \<and> palloc e
     then kbind (get_page s) (\<lambda>(p, s).
          set_pte t j (\<lambda>e. e\<lparr>ppresent := True, pglobal := False, paddr := p\<rparr>) (put_page p (PData (replicate PAGE_SIZE 0)) s))
     else Inr s)"

definition page_fault_handler :: "u32 \<Rightarrow> u32 \<Rightarrow> paging \<Rightarrow> kerr + paging" where
  "page_fault_handler error_code linaddr s =
     (if error_code AND 0x9 \<noteq> 0 then Inl Panic
      else
        kbind (dir_ent s (cr3 s) (dir_idx linaddr)) (\<lambda>e.
        if \<not> dpresent e \<and> \<not> dalloc e then Inl Panic
        else
          kbind (fault_table (dir_idx linaddr) s) (\<lambda>s.
          kbind (dir_ent s (cr3 s) (dir_idx linaddr)) (\<lambda>e.
          kbind (kassert (dpresent e)) (\<lambda>_.
          fault_page (dtable e) (tab_idx linaddr) s)))))"

definition create_proc_addr_space :: "paging \<Rightarrow> kerr + (u32 \<times> paging)" where
  "create_proc_addr_space s =
     kbind (get_page s) (\<lambda>(pd, s).
     kbind (dir_at s (kpagedir s)) (\<lambda>ks.
     Inr (pd, put_page pd (PDir (map (\<lambda>(i, e). if identity_len \<le> i
            then e\<lparr>dpresent := False, drw := True, duser := True, dalloc := True\<rparr> else e) (enumerate 0 ks))) s)))"

text \<open>The loops of \<open>free_proc_addr_space\<close>.\<close>

definition free_entry :: "u32 \<Rightarrow> nat \<Rightarrow> paging \<Rightarrow> kerr + paging" where
  "free_entry t j s =
     kbind (tab_ent s t j) (\<lambda>e. if ppresent e \<and> palloc e then drop_page (paddr e) s else Inr s)"

definition free_table :: "u32 \<Rightarrow> nat \<Rightarrow> paging \<Rightarrow> kerr + paging" where
  "free_table as i s =
     kbind (dir_ent s as i) (\<lambda>e.
     if dpresent e \<and> dalloc e
     then kbind (for_each (free_entry (dtable e)) [0..<PTAB_SIZE] s) (drop_page (dtable e))
     else Inr s)"

definition free_proc_addr_space :: "u32 \<Rightarrow> paging \<Rightarrow> kerr + paging" where
  "free_proc_addr_space as s =
     (if as = 0 then Inr s
      else kbind (for_each (free_table as) [identity_len..<PDIR_SIZE] s) (drop_page as))"

text \<open>The loops of \<open>fork_proc_addr_space\<close>.\<close>

definition fork_page :: "u32 \<Rightarrow> nat \<Rightarrow> paging \<Rightarrow> kerr + paging" where
  "fork_page t j s =
     kbind (tab_ent s t j) (\<lambda>e.
     if ppresent e \<and> palloc e
     then kbind (get_page s) (\<lambda>(p, s). set_pte t j (\<lambda>e. e\<lparr>paddr := p\<rparr>) (put_page p (phys s (paddr e)) s))
     else Inr s)"

definition fork_table :: "u32 \<Rightarrow> u32 \<Rightarrow> nat \<Rightarrow> paging \<Rightarrow> kerr + paging" where
  "fork_table as dir i s =
     kbind (dir_ent s as i) (\<lambda>e.
     if dpresent e \<and> dalloc e
     then kbind (get_page s) (\<lambda>(t, s).
          kbind (set_pde dir i (\<lambda>e. e\<lparr>dtable := t\<rparr>) (put_page t (phys s (dtable e)) s))
                (for_each (fork_page t) [0..<PTAB_SIZE]))
     else Inr s)"

definition fork_proc_addr_space :: "u32 \<Rightarrow> paging \<Rightarrow> kerr + (u32 \<times> paging)" where
  "fork_proc_addr_space as s =
     kbind (get_page s) (\<lambda>(dir, s).
     kbind (for_each (fork_table as dir) [identity_len..<PDIR_SIZE] (put_page dir (phys s as) s)) (\<lambda>s.
     Inr (dir, s)))"

definition use_addr_space :: "u32 \<Rightarrow> paging \<Rightarrow> paging" where
  "use_addr_space as s = s\<lparr>cr3 := as\<rparr>"

definition lock_page :: "u32 \<Rightarrow> u32 \<Rightarrow> paging \<Rightarrow> kerr + paging" where
  "lock_page as addr s =
     kbind (dir_ent s as (dir_idx addr)) (\<lambda>d.
     kbind (kassert (dpresent d)) (\<lambda>_.
     kbind (tab_ent s (dtable d) (tab_idx addr)) (\<lambda>e.
     kbind (kassert (ppresent e)) (\<lambda>_.
     set_pte (dtable d) (tab_idx addr) (\<lambda>e. e\<lparr>puser := False\<rparr>) s))))"

text \<open>The end of \<open>remap_page_user\<close> and \<open>remap_page_kernel\<close>.\<close>

definition remap_entry :: "u32 \<Rightarrow> u32 \<Rightarrow> u32 \<Rightarrow> paging \<Rightarrow> kerr + paging" where
  "remap_entry pd virt ph s =
     kbind (dir_ent s pd (dir_idx virt)) (\<lambda>d.
     kbind (kassert (dpresent d)) (\<lambda>_.
     kbind (tab_ent s (dtable d) (tab_idx virt)) (\<lambda>e.
     kbind (kassert (ppresent e)) (\<lambda>_.
     kbind (if ppresent e \<and> palloc e
            then kbind (drop_page (paddr e) s) (set_pte (dtable d) (tab_idx virt) (\<lambda>e. e\<lparr>palloc := False\<rparr>))
            else Inr s)
       (set_pte (dtable d) (tab_idx virt) (\<lambda>e. e\<lparr>paddr := drop_bit 12 ph\<rparr>))))))"

text \<open>What the processor does with an address: the page it leads to, if the entries are present.\<close>

definition walk :: "paging \<Rightarrow> u32 \<Rightarrow> u32 \<Rightarrow> page_tab_ent option" where
  "walk s as a =
     (case dir_ent s as (dir_idx a) of
        Inr d \<Rightarrow> if dpresent d
          then (case tab_ent s (dtable d) (tab_idx a) of Inr e \<Rightarrow> if ppresent e then Some e else None | Inl _ \<Rightarrow> None)
          else None
      | Inl _ \<Rightarrow> None)"

text \<open>\<open>remap_page_user\<close> reads from the address first, which faults when it is not mapped; \<open>None\<close> is the result -1.\<close>

definition remap_page_user :: "u32 \<Rightarrow> u32 \<Rightarrow> u32 \<Rightarrow> paging \<Rightarrow> kerr + paging option" where
  "remap_page_user as virt ph s =
     (if virt < PROC_REGION \<or> virt > 0xffffffff - 4096 then Inr None
      else
        kbind (if walk s (cr3 s) virt = None then page_fault_handler 0 virt s else Inr s) (\<lambda>s.
        kbind (remap_entry as virt ph s) (\<lambda>s. Inr (Some s))))"

definition remap_page_kernel :: "u32 \<Rightarrow> u32 \<Rightarrow> paging \<Rightarrow> kerr + paging" where
  "remap_page_kernel virt ph s = remap_entry (kpagedir s) virt ph s"

text \<open>
  \<open>virt_to_phys\<close>: the number of the page table is used as its address, without the shift by 12. \<open>low\<close> is what the code
  finds at that address.
\<close>

definition virt_to_phys :: "(u32 \<Rightarrow> page_tab_ent) \<Rightarrow> u32 \<Rightarrow> paging \<Rightarrow> kerr + u32" where
  "virt_to_phys low virt s =
     kbind (dir_ent s (cr3 s) (dir_idx virt)) (\<lambda>d.
     let pte = low (dtable d + 4 * of_nat (tab_idx virt))
     in Inr (if ppresent pte then push_bit 12 (paddr pte) OR (virt AND 0xfff) else 0))"

section \<open>Growing and shrinking\<close>

abbreviation used :: "paging \<Rightarrow> u32 set" where
  "used s \<equiv> allocated (pmem s)"

definition free_pages :: "paging \<Rightarrow> u32 set" where
  "free_pages s = region (pmem s) - used s"

text \<open>The page allocator works, on physical memory of at most 4 GiB.\<close>

definition pg_inv :: "paging \<Rightarrow> bool" where
  "pg_inv s \<longleftrightarrow> pm_inv (pmem s) \<and> (\<forall>p \<in> region (pmem s). p < 2 ^ 20)"

text \<open>
  \<open>s'\<close> comes from \<open>s\<close> by taking the pages \<open>ps\<close>; of the pages in use only those of \<open>X\<close> have changed.
\<close>

definition grows :: "u32 set \<Rightarrow> paging \<Rightarrow> paging \<Rightarrow> u32 list \<Rightarrow> bool" where
  "grows X s s' ps \<longleftrightarrow> pg_inv s' \<and> distinct ps \<and> set ps \<subseteq> free_pages s \<and> used s' = used s \<union> set ps \<and>
     region (pmem s') = region (pmem s) \<and> kpagedir s' = kpagedir s \<and> cr3 s' = cr3 s \<and>
     (\<forall>p \<in> used s - X. phys s' p = phys s p)"

lemma shift_page: "p < 2 ^ 20 \<Longrightarrow> drop_bit 12 (push_bit 12 p) = (p :: u32)"
proof -
  assume "p < 2 ^ 20"
  then have "unat p < 2 ^ 20" by (simp add: word_less_nat_alt)
  then have "take_bit 20 (unat p) = unat p" by (simp add: take_bit_nat_eq_self)
  moreover have "bit p n \<Longrightarrow> bit (unat p) n" for n by (simp add: bit_simps)
  ultimately have "bit p n \<Longrightarrow> n < 20" for n by (metis bit_take_bit_iff)
  then show ?thesis by (intro bit_word_eqI) (fastforce simp: bit_simps)
qed

lemma get_page_ok:
  assumes "pg_inv s" "free_pages s \<noteq> {}"
  shows "\<exists>p s'. get_page s = Inr (p, s') \<and> p \<in> free_pages s \<and> phys s' = phys s \<and> (\<forall>c. grows {} s (put_page p c s') [p])"
proof -
  have "allocated (pmem s) \<noteq> region (pmem s)" using assms(2) by (auto simp: free_pages_def)
  with pages.al_ok [of "pmem s"] assms(1) obtain p m where
    m: "alloc_page (pmem s) = Inr (p, m)" "p \<in> region (pmem s)" "p \<notin> used s" "allocated m = insert p (used s)" "region m = region (pmem s)" "pm_inv m"
    by (auto simp: pg_inv_def)
  have "p < 2 ^ 20" using assms(1) m(2) by (auto simp: pg_inv_def)
  then have "get_page s = Inr (p, s\<lparr>pmem := m\<rparr>)" using m(1) by (simp add: get_page_def alloc_page_ptr_def shift_page)
  moreover have "grows {} s (put_page p c (s\<lparr>pmem := m\<rparr>)) [p]" for c
    using m assms(1) by (auto simp: grows_def put_page_def pg_inv_def free_pages_def)
  ultimately show ?thesis using m by (auto simp: free_pages_def)
qed

lemma grows_refl: "pg_inv s \<Longrightarrow> grows X s s []"
  by (simp add: grows_def)

lemma grows_trans:
  assumes "grows X s s1 ps" "grows Y s1 s2 qs" "Y \<subseteq> X \<union> set ps"
  shows "grows X s s2 (ps @ qs)"
proof -
  have "phys s2 p = phys s p" if "p \<in> used s - X" for p
  proof -
    have "p \<notin> set ps" using that assms(1) by (auto simp: grows_def free_pages_def)
    with that assms(1,3) have "p \<in> used s1 - Y" by (auto simp: grows_def)
    with assms(2) have "phys s2 p = phys s1 p" by (simp add: grows_def)
    moreover have "phys s1 p = phys s p" using that assms(1) by (simp add: grows_def)
    ultimately show ?thesis by simp
  qed
  with assms show ?thesis unfolding grows_def free_pages_def by auto
qed

lemma grows_mono: "grows X s s' ps \<Longrightarrow> X \<subseteq> Y \<Longrightarrow> grows Y s s' ps"
  by (auto simp: grows_def)

lemma grows_put: "grows X s s' ps \<Longrightarrow> p \<in> X \<union> set ps \<Longrightarrow> grows X s (put_page p c s') ps"
  by (auto simp: grows_def put_page_def pg_inv_def free_pages_def)

lemma grows_keeps_new:
  assumes "grows X s s1 ps" "grows {d} s1 s2 qs" "d \<in> used s" "p \<in> set ps"
  shows "phys s2 p = phys s1 p"
proof -
  have "p \<in> used s1 - {d}" using assms(1,3,4) by (auto simp: grows_def free_pages_def)
  with assms(2) show ?thesis by (simp add: grows_def)
qed

lemma grows_free: "grows X s s' ps \<Longrightarrow> free_pages s' = free_pages s - set ps \<and> card (free_pages s') + length ps = card (free_pages s)"
proof -
  assume g: "grows X s s' ps"
  then have f: "free_pages s' = free_pages s - set ps" "set ps \<subseteq> free_pages s" "distinct ps" by (auto simp: grows_def free_pages_def)
  have "card (free_pages s - set ps) = card (free_pages s) - card (set ps)" using f(2) by (simp add: card_Diff_subset)
  moreover have "card (set ps) \<le> card (free_pages s)" using f(2) by (simp add: card_mono)
  ultimately show ?thesis using f distinct_card [of ps] by simp
qed

lemmas page_defs = dir_at_def tab_at_def dir_ent_def tab_ent_def set_pde_def set_pte_def put_page_def

section \<open>What an address space owns\<close>

definition owned_pages :: "page_tab_ent list \<Rightarrow> u32 list" where
  "owned_pages es = map paddr (filter (\<lambda>e. ppresent e \<and> palloc e) es)"

lemma owned_pages_simps [simp]:
  "owned_pages [] = []" "owned_pages (e # es) = (if ppresent e \<and> palloc e then paddr e # owned_pages es else owned_pages es)"
  "owned_pages (xs @ ys) = owned_pages xs @ owned_pages ys"
  by (simp_all add: owned_pages_def)

definition table_of :: "paging \<Rightarrow> page_dir_ent \<Rightarrow> page_tab_ent list" where
  "table_of s e = (case phys s (dtable e) of PTab es \<Rightarrow> es | _ \<Rightarrow> [])"

definition owned_ent :: "paging \<Rightarrow> page_dir_ent \<Rightarrow> u32 list" where
  "owned_ent s e = (if dpresent e \<and> dalloc e then dtable e # owned_pages (table_of s e) else [])"

definition dir_of :: "paging \<Rightarrow> u32 \<Rightarrow> page_dir_ent list" where
  "dir_of s as = (case phys s as of PDir es \<Rightarrow> es | _ \<Rightarrow> [])"

definition owned :: "paging \<Rightarrow> u32 \<Rightarrow> u32 list" where
  "owned s as = concat (map (owned_ent s) (drop identity_len (dir_of s as)))"

text \<open>The entry of a directory above \<open>PROC_REGION\<close>: a table of 1024 entries, each present or to be
  filled on demand, whose own pages hold 4096 bytes.\<close>

definition ent_ok :: "paging \<Rightarrow> page_dir_ent \<Rightarrow> bool" where
  "ent_ok s e \<longleftrightarrow> dalloc e \<and> (dpresent e \<longrightarrow>
     (\<exists>es. phys s (dtable e) = PTab es \<and> length es = PTAB_SIZE) \<and> (\<forall>x \<in> set (table_of s e). ppresent x \<or> palloc x) \<and>
     (\<forall>p \<in> set (owned_pages (table_of s e)). \<exists>bs. phys s p = PData bs \<and> length bs = PAGE_SIZE))"

definition as_ok :: "paging \<Rightarrow> u32 \<Rightarrow> bool" where
  "as_ok s as \<longleftrightarrow> (\<exists>es. phys s as = PDir es \<and> length es = PDIR_SIZE) \<and> as \<in> used s \<and> as \<notin> set (owned s as) \<and>
     distinct (owned s as) \<and> set (owned s as) \<subseteq> used s \<and> (\<forall>e \<in> set (drop identity_len (dir_of s as)). ent_ok s e)"

text \<open>A copied entry leads to the same bytes: in a page of its own, or in the same page when it is shared.\<close>

definition copied :: "paging \<Rightarrow> page_tab_ent \<Rightarrow> paging \<Rightarrow> page_tab_ent \<Rightarrow> bool" where
  "copied s e s' e' \<longleftrightarrow> e' = e\<lparr>paddr := paddr e'\<rparr> \<and>
     (if ppresent e \<and> palloc e then phys s' (paddr e') = phys s (paddr e) else paddr e' = paddr e)"

section \<open>Copying an address space\<close>

lemma fork_page_ok:
  assumes "pg_inv s" "phys s t = PTab es" "t \<in> used s" "j < length es" "ppresent (es ! j) \<and> palloc (es ! j) \<longrightarrow> free_pages s \<noteq> {}"
  shows "\<exists>s' e'. fork_page t j s = Inr s' \<and> phys s' t = PTab (es[j := e']) \<and> copied s (es ! j) s' e' \<and>
    grows {t} s s' (owned_pages [e'])"
proof (cases "ppresent (es ! j) \<and> palloc (es ! j)")
  case True
  with get_page_ok [OF assms(1)] assms(5) obtain p s1 where
    p: "get_page s = Inr (p, s1)" "p \<in> free_pages s" "phys s1 = phys s" "\<And>c. grows {} s (put_page p c s1) [p]" by blast
  let ?s2 = "put_page p (phys s (paddr (es ! j))) s1"
  let ?e = "(es ! j)\<lparr>paddr := p\<rparr>"
  have pt: "p \<noteq> t" using p(2) assms(3) by (auto simp: free_pages_def)
  have "fork_page t j s = Inr (put_page t (PTab (es[j := ?e])) ?s2)"
    using True assms(2,4) p(1,3) pt by (simp add: fork_page_def page_defs)
  moreover have "grows {t} s (put_page t (PTab (es[j := ?e])) ?s2) [p]"
    by (rule grows_put [OF grows_mono [OF p(4)]]) simp_all
  ultimately show ?thesis using True pt
    by (intro exI [of _ "put_page t (PTab (es[j := ?e])) ?s2"] exI [of _ ?e]) (simp add: copied_def put_page_def)
next
  case False
  with assms have "fork_page t j s = Inr s" "owned_pages [es ! j] = []" by (auto simp: fork_page_def page_defs)
  moreover have "copied s (es ! j) s (es ! j)" by (simp add: copied_def)
  ultimately show ?thesis using assms(2) grows_refl [OF assms(1), of "{t}"]
    by (intro exI [of _ s] exI [of _ "es ! j"]) simp
qed

text \<open>A copy stays a copy while both pages are left alone.\<close>

lemma copied_later:
  assumes "copied s e s1 e'" "ppresent e \<and> palloc e \<Longrightarrow> phys s2 (paddr e') = phys s1 (paddr e')"
  shows "copied s e s2 e'"
  using assms by (auto simp: copied_def)

lemma copied_earlier:
  assumes "copied s1 e s' e'" "ppresent e \<and> palloc e \<Longrightarrow> phys s1 (paddr e) = phys s (paddr e)"
  shows "copied s e s' e'"
  using assms by (auto simp: copied_def)

lemma copied_owned: "copied s e s' e' \<Longrightarrow> length (owned_pages [e']) = length (owned_pages [e])"
  by (auto simp: copied_def) (metis page_tab_ent.select_convs page_tab_ent.surjective page_tab_ent.update_convs)+

lemma in_owned_pages: "e \<in> set es \<Longrightarrow> ppresent e \<and> palloc e \<Longrightarrow> paddr e \<in> set (owned_pages es)"
  by (auto simp: owned_pages_def)

lemma fork_copies_stay:
  assumes "list_all2 (\<lambda>e e'. copied s e s1 e') xs ys" "grows X s s1 (owned_pages ys)" "grows {t} s1 s2 qs" "t \<in> used s"
  shows "list_all2 (\<lambda>e e'. copied s e s2 e') xs ys"
  using assms(1)
proof (rule list.rel_mono_strong)
  fix e e'
  assume e: "e \<in> set xs" "e' \<in> set ys" "copied s e s1 e'"
  show "copied s e s2 e'"
  proof (rule copied_later [OF e(3)])
    assume "ppresent e \<and> palloc e"
    with e(3) have "ppresent e' \<and> palloc e'" by (auto simp: copied_def) (metis page_tab_ent.select_convs page_tab_ent.surjective page_tab_ent.update_convs)+
    with e(2) have "paddr e' \<in> set (owned_pages ys)" by (rule in_owned_pages)
    then show "phys s2 (paddr e') = phys s1 (paddr e')" by (rule grows_keeps_new [OF assms(2-4)])
  qed
qed

lemma fork_pages_ok:
  assumes "pg_inv s" "phys s t = PTab es" "t \<in> used s" "t \<notin> set (owned_pages es)" "set (owned_pages es) \<subseteq> used s"
  shows "k \<le> length es \<Longrightarrow> length (owned_pages (take k es)) \<le> card (free_pages s) \<Longrightarrow>
    \<exists>s' es'. for_each (fork_page t) [0..<k] s = Inr s' \<and> phys s' t = PTab (es' @ drop k es) \<and>
      list_all2 (\<lambda>e e'. copied s e s' e') (take k es) es' \<and> grows {t} s s' (owned_pages es')"
proof (induction k)
  case 0
  with assms grows_refl show ?case by simp
next
  case (Suc k)
  have tk: "take (Suc k) es = take k es @ [es ! k]" using Suc.prems(1) by (simp add: take_Suc_conv_app_nth)
  with Suc obtain s1 es1 where s1: "for_each (fork_page t) [0..<k] s = Inr s1" "phys s1 t = PTab (es1 @ drop k es)"
    "list_all2 (\<lambda>e e'. copied s e s1 e') (take k es) es1" "grows {t} s s1 (owned_pages es1)" by auto
  have l1: "length es1 = k" using list_all2_lengthD [OF s1(3)] Suc.prems(1) by simp
  have "length (owned_pages es1) = length (owned_pages (take k es))"
    using s1(3) by (induction rule: list_all2_induct) (auto dest!: copied_owned split: if_splits)
  then have room: "ppresent (es ! k) \<and> palloc (es ! k) \<longrightarrow> free_pages s1 \<noteq> {}"
    using conjunct2 [OF grows_free [OF s1(4)]] Suc.prems(2) tk by (intro impI notI) simp
  have nth: "(es1 @ drop k es) ! k = es ! k" using l1 Suc.prems(1) by (simp add: nth_append)
  have "pg_inv s1" "t \<in> used s1" using s1(4) assms(3) by (auto simp: grows_def)
  from fork_page_ok [OF this(1) s1(2) this(2), of k] room nth l1 Suc.prems(1) obtain s2 e' where
    s2: "fork_page t k s1 = Inr s2" "phys s2 t = PTab ((es1 @ drop k es)[k := e'])" "copied s1 (es ! k) s2 e'" "grows {t} s1 s2 (owned_pages [e'])"
    by auto
  have "(es1 @ drop k es)[k := e'] = (es1 @ [e']) @ drop (Suc k) es"
    using l1 Suc.prems(1) by (simp add: list_update_append Cons_nth_drop_Suc [symmetric])
  moreover have "grows {t} s s2 (owned_pages (es1 @ [e']))" using grows_trans [OF s1(4) s2(4)] by simp
  moreover have "list_all2 (\<lambda>e e'. copied s e s2 e') (take k es) es1"
    using s1(3) by (rule fork_copies_stay [OF _ s1(4) s2(4) assms(3)])
  moreover have "copied s (es ! k) s2 e'"
  proof (rule copied_earlier [OF s2(3)])
    assume "ppresent (es ! k) \<and> palloc (es ! k)"
    then have "paddr (es ! k) \<in> set (owned_pages es)" using Suc.prems(1) by (intro in_owned_pages) simp_all
    with assms(4,5) have "paddr (es ! k) \<in> used s - {t}" by auto
    with s1(4) show "phys s1 (paddr (es ! k)) = phys s (paddr (es ! k))" by (simp add: grows_def)
  qed
  ultimately show ?case using s1(1) s2(1,2) tk by (auto simp: for_each_append list_all2_appendI)
qed

text \<open>The same for the entries of a directory.\<close>

definition dcopied :: "paging \<Rightarrow> page_dir_ent \<Rightarrow> paging \<Rightarrow> page_dir_ent \<Rightarrow> bool" where
  "dcopied s e s' e' \<longleftrightarrow> e\<lparr>dtable := dtable e'\<rparr> = e' \<and>
     (if dpresent e \<and> dalloc e
      then (\<exists>es'. phys s' (dtable e') = PTab es' \<and> list_all2 (\<lambda>x y. copied s x s' y) (table_of s e) es')
      else dtable e' = dtable e)"

lemma dcopied_flags: "dcopied s e s' e' \<Longrightarrow> dpresent e' = dpresent e \<and> dalloc e' = dalloc e"
  by (cases e, cases e') (simp add: dcopied_def)

lemma dcopied_tab:
  "dcopied s e s' e' \<Longrightarrow> dpresent e \<and> dalloc e \<Longrightarrow>
    \<exists>es'. phys s' (dtable e') = PTab es' \<and> list_all2 (\<lambda>x y. copied s x s' y) (table_of s e) es'"
  by (simp add: dcopied_def)

lemma owned_copied:
  "list_all2 (\<lambda>x y. copied s x s' y) xs ys \<Longrightarrow> length (owned_pages ys) = length (owned_pages xs)"
  by (induction rule: list_all2_induct) (auto dest!: copied_owned split: if_splits)

lemma dcopied_length: "dcopied s e s' e' \<Longrightarrow> length (owned_ent s' e') = length (owned_ent s e)"
proof (cases "dpresent e \<and> dalloc e")
  case True
  assume d: "dcopied s e s' e'"
  from dcopied_tab [OF d True] obtain es' where
    es': "phys s' (dtable e') = PTab es'" "list_all2 (\<lambda>x y. copied s x s' y) (table_of s e) es'" by blast
  have "table_of s' e' = es'" using es'(1) by (simp add: table_of_def)
  with owned_copied [OF es'(2)] True dcopied_flags [OF d] show ?thesis by (simp add: owned_ent_def)
next
  case False
  assume d: "dcopied s e s' e'"
  with False dcopied_flags [OF d] show ?thesis by (auto simp: owned_ent_def)
qed

lemma dcopies_length:
  "list_all2 (\<lambda>e e'. dcopied s e s' e') xs ys \<Longrightarrow>
    length (concat (map (owned_ent s') ys)) = length (concat (map (owned_ent s) xs))"
  by (induction rule: list_all2_induct) (simp_all add: dcopied_length)

lemma fork_table_ok:
  assumes "pg_inv s" "phys s as = PDir es" "phys s dir = PDir ds" "dir \<in> used s" "i < length es" "i < length ds" "ds ! i = es ! i"
    "ent_ok s (es ! i)" "set (owned_ent s (es ! i)) \<subseteq> used s - {dir}" "length (owned_ent s (es ! i)) \<le> card (free_pages s)"
  shows "\<exists>s' e'. fork_table as dir i s = Inr s' \<and> phys s' dir = PDir (ds[i := e']) \<and> dcopied s (es ! i) s' e' \<and>
    grows {dir} s s' (owned_ent s' e')"
proof (cases "dpresent (es ! i) \<and> dalloc (es ! i)")
  case True
  let ?e = "es ! i"
  from True assms(8) obtain tes where tes: "phys s (dtable ?e) = PTab tes" "length tes = PTAB_SIZE" by (auto simp: ent_ok_def)
  have own: "owned_ent s ?e = dtable ?e # owned_pages tes" using True tes(1) by (simp add: owned_ent_def table_of_def)
  have "free_pages s \<noteq> {}" using assms(10) own by auto
  with get_page_ok [OF assms(1)] obtain t s1 where
    t: "get_page s = Inr (t, s1)" "t \<in> free_pages s" "phys s1 = phys s" "\<And>c. grows {} s (put_page t c s1) [t]" by blast
  have tu: "t \<notin> used s" using t(2) by (simp add: free_pages_def)
  let ?s2 = "put_page t (PTab tes) s1" and ?d = "?e\<lparr>dtable := t\<rparr>"
  let ?s3 = "put_page dir (PDir (ds[i := ?d])) ?s2"
  have g3: "grows {dir} s ?s3 [t]" by (rule grows_put [OF grows_mono [OF t(4)]]) simp_all
  have td: "t \<noteq> dir" using tu assms(4) by blast
  have p3: "phys ?s3 p = phys s p" if "p \<in> used s - {dir}" for p using g3 that by (simp add: grows_def)
  have "\<exists>s' es'. for_each (fork_page t) [0..<PTAB_SIZE] ?s3 = Inr s' \<and> phys s' t = PTab (es' @ drop PTAB_SIZE tes) \<and>
      list_all2 (\<lambda>e e'. copied ?s3 e s' e') (take PTAB_SIZE tes) es' \<and> grows {t} ?s3 s' (owned_pages es')"
  proof (rule fork_pages_ok)
    show "pg_inv ?s3" "t \<in> used ?s3" using g3 by (auto simp: grows_def)
    show "phys ?s3 t = PTab tes" using td by (simp add: put_page_def)
    show "t \<notin> set (owned_pages tes)" "set (owned_pages tes) \<subseteq> used ?s3" using g3 assms(9) own tu by (auto simp: grows_def)
    show "length (owned_pages (take PTAB_SIZE tes)) \<le> card (free_pages ?s3)"
      using conjunct2 [OF grows_free [OF g3]] assms(10) own tes(2) by simp
  qed (use tes in simp)
  then obtain s4 es' where s4: "for_each (fork_page t) [0..<PTAB_SIZE] ?s3 = Inr s4" "phys s4 t = PTab es'"
    "list_all2 (\<lambda>e e'. copied ?s3 e s4 e') tes es'" "grows {t} ?s3 s4 (owned_pages es')" using tes(2) by auto
  have "grows {dir} s s4 ([t] @ owned_pages es')" by (rule grows_trans [OF g3 s4(4)]) simp
  moreover have "owned_ent s4 ?d = [t] @ owned_pages es'" using True s4(2) by (simp add: owned_ent_def table_of_def)
  moreover have "phys s4 dir = PDir (ds[i := ?d])"
    using s4(4) g3 assms(4) td by (auto simp: grows_def put_page_def)
  moreover have "fork_table as dir i s = Inr s4"
    using True assms(2,3,5,6,7) t(1,3) tes(1) s4(1) td by (simp add: fork_table_def page_defs)
  moreover have "list_all2 (\<lambda>e e'. copied s e s4 e') tes es'"
    using s4(3)
  proof (rule list.rel_mono_strong)
    fix e e' assume e: "e \<in> set tes" "copied ?s3 e s4 e'"
    show "copied s e s4 e'"
      by (rule copied_earlier [OF e(2)]) (use p3 in_owned_pages [OF e(1)] assms(9) own in auto)
  qed
  then have "dcopied s ?e s4 ?d" using True s4(2) tes(1) by (simp add: dcopied_def table_of_def)
  ultimately show ?thesis by (intro exI [of _ s4] exI [of _ ?d]) simp
next
  case False
  with assms have "fork_table as dir i s = Inr s" "owned_ent s (es ! i) = []" by (auto simp: fork_table_def page_defs owned_ent_def)
  moreover have "dcopied s (es ! i) s (es ! i)" using False by (auto simp: dcopied_def)
  moreover have "ds[i := es ! i] = ds" using assms(7) list_update_id [of ds i] by simp
  ultimately show ?thesis using assms(3) grows_refl [OF assms(1), of "{dir}"]
    by (intro exI [of _ s] exI [of _ "es ! i"]) simp
qed

lemma copied_flags: "copied s e s' e' \<Longrightarrow> ppresent e' = ppresent e \<and> palloc e' = palloc e"
  unfolding copied_def by (cases e, cases e') simp

lemma copies_later:
  assumes "list_all2 (\<lambda>e e'. copied s e s1 e') xs ys" "\<And>p. p \<in> set (owned_pages ys) \<Longrightarrow> phys s2 p = phys s1 p"
  shows "list_all2 (\<lambda>e e'. copied s e s2 e') xs ys"
  using assms(1)
proof (rule list.rel_mono_strong)
  fix e e' assume e: "e \<in> set xs" "e' \<in> set ys" "copied s e s1 e'"
  show "copied s e s2 e'"
    by (rule copied_later [OF e(3)]) (use assms(2) in_owned_pages [OF e(2)] copied_flags [OF e(3)] in simp)
qed

lemma dcopied_later:
  assumes "dcopied s e s1 e'" "\<And>p. p \<in> set (owned_ent s1 e') \<Longrightarrow> phys s2 p = phys s1 p"
  shows "dcopied s e s2 e' \<and> owned_ent s2 e' = owned_ent s1 e'"
proof (cases "dpresent e \<and> dalloc e")
  case True
  from dcopied_tab [OF assms(1) True] obtain es' where
    es': "phys s1 (dtable e') = PTab es'" "list_all2 (\<lambda>x y. copied s x s1 y) (table_of s e) es'" by blast
  have own: "owned_ent s1 e' = dtable e' # owned_pages es'"
    using True dcopied_flags [OF assms(1)] es'(1) by (simp add: owned_ent_def table_of_def)
  have p2: "phys s2 (dtable e') = PTab es'" using assms(2) own es'(1) by simp
  have "list_all2 (\<lambda>x y. copied s x s2 y) (table_of s e) es'" by (rule copies_later [OF es'(2)]) (simp add: assms(2) own)
  moreover have "owned_ent s2 e' = dtable e' # owned_pages es'"
    using True dcopied_flags [OF assms(1)] p2 by (simp add: owned_ent_def table_of_def)
  ultimately show ?thesis using assms(1) True p2 own by (simp add: dcopied_def)
next
  case False
  then have "dcopied s e s2 e'" using assms(1) by (auto simp: dcopied_def)
  moreover have "owned_ent s2 e' = []" "owned_ent s1 e' = []"
    using False dcopied_flags [OF assms(1)] by (auto simp: owned_ent_def)
  ultimately show ?thesis by simp
qed

lemma dcopied_earlier:
  assumes "dcopied s1 e s' e'" "\<And>p. p \<in> set (owned_ent s e) \<Longrightarrow> phys s1 p = phys s p"
  shows "dcopied s e s' e'"
proof (cases "dpresent e \<and> dalloc e")
  case True
  from dcopied_tab [OF assms(1) True] obtain es' where
    es': "phys s' (dtable e') = PTab es'" "list_all2 (\<lambda>x y. copied s1 x s' y) (table_of s1 e) es'" by blast
  have own: "owned_ent s e = dtable e # owned_pages (table_of s e)" using True by (simp add: owned_ent_def)
  have t1: "table_of s1 e = table_of s e" using assms(2) own by (simp add: table_of_def)
  have "list_all2 (\<lambda>x y. copied s x s' y) (table_of s e) es'"
    using es'(2) [unfolded t1]
  proof (rule list.rel_mono_strong)
    fix x y assume x: "x \<in> set (table_of s e)" "copied s1 x s' y"
    show "copied s x s' y" by (rule copied_earlier [OF x(2)]) (use assms(2) own in_owned_pages [OF x(1)] in simp)
  qed
  with es'(1) assms(1) True show ?thesis by (simp add: dcopied_def)
next
  case False
  with assms(1) show ?thesis by (auto simp: dcopied_def)
qed

lemma owned_ent_later:
  "(\<And>p. p \<in> set (owned_ent s e) \<Longrightarrow> phys s1 p = phys s p) \<Longrightarrow> owned_ent s1 e = owned_ent s e"
  by (auto simp: owned_ent_def table_of_def split: if_splits)

lemma ent_ok_later:
  "ent_ok s e \<Longrightarrow> (\<And>p. p \<in> set (owned_ent s e) \<Longrightarrow> phys s1 p = phys s p) \<Longrightarrow> ent_ok s1 e"
  by (auto simp: ent_ok_def owned_ent_def table_of_def split: if_splits)

lemma fork_tables_ok:
  assumes "pg_inv s" "phys s as = PDir es" "as \<in> used s" "phys s dir = PDir es" "dir \<in> used s" "as \<noteq> dir"
    "\<forall>e \<in> set (drop n es). ent_ok s e" "set (concat (map (owned_ent s) (drop n es))) \<subseteq> used s - {dir}"
  shows "n + k \<le> length es \<Longrightarrow> length (concat (map (owned_ent s) (take k (drop n es)))) \<le> card (free_pages s) \<Longrightarrow>
    \<exists>s' xs. for_each (fork_table as dir) [n..<n + k] s = Inr s' \<and> phys s' dir = PDir (take n es @ xs @ drop (n + k) es) \<and>
      list_all2 (\<lambda>e e'. dcopied s e s' e') (take k (drop n es)) xs \<and> grows {dir} s s' (concat (map (owned_ent s') xs))"
proof (induction k)
  case 0
  with assms grows_refl show ?case by simp
next
  case (Suc k)
  let ?e = "es ! (n + k)"
  have nk: "n + k < length es" using Suc.prems(1) by simp
  have tk: "take (Suc k) (drop n es) = take k (drop n es) @ [?e]" using nk by (simp add: take_Suc_conv_app_nth)
  have e_in: "?e \<in> set (drop n es)" using nk nth_mem [of k "drop n es"] by simp
  from Suc tk obtain s1 xs where s1: "for_each (fork_table as dir) [n..<n + k] s = Inr s1"
    "phys s1 dir = PDir (take n es @ xs @ drop (n + k) es)"
    "list_all2 (\<lambda>e e'. dcopied s e s1 e') (take k (drop n es)) xs" "grows {dir} s s1 (concat (map (owned_ent s1) xs))" by auto
  have lx: "length xs = k" using list_all2_lengthD [OF s1(3)] nk by simp
  have keep: "phys s1 p = phys s p" if "p \<in> used s - {dir}" for p using s1(4) that by (simp add: grows_def)
  have own: "set (owned_ent s ?e) \<subseteq> used s - {dir}" using assms(8) e_in by auto
  have oe: "owned_ent s1 ?e = owned_ent s ?e" by (rule owned_ent_later) (use keep own in blast)
  have lo: "length (concat (map (owned_ent s1) xs)) = length (concat (map (owned_ent s) (take k (drop n es))))"
    by (rule dcopies_length [OF s1(3)])
  have "\<exists>s' e'. fork_table as dir (n + k) s1 = Inr s' \<and> phys s' dir = PDir ((take n es @ xs @ drop (n + k) es)[n + k := e']) \<and>
      dcopied s1 ?e s' e' \<and> grows {dir} s1 s' (owned_ent s' e')"
  proof (rule fork_table_ok [OF _ _ s1(2)])
    show "pg_inv s1" "dir \<in> used s1" using s1(4) assms(5) by (auto simp: grows_def)
    show "phys s1 as = PDir es" using keep assms(2,3,6) by simp
    show "ent_ok s1 ?e" by (rule ent_ok_later [of s]) (use assms(7) e_in keep own in blast)+
    show "set (owned_ent s1 ?e) \<subseteq> used s1 - {dir}" using own oe s1(4) by (auto simp: grows_def)
    show "length (owned_ent s1 ?e) \<le> card (free_pages s1)"
      using conjunct2 [OF grows_free [OF s1(4)]] Suc.prems(2) tk lo oe by simp
  qed (use nk lx in \<open>simp_all add: nth_append\<close>)
  then obtain s2 e' where s2: "fork_table as dir (n + k) s1 = Inr s2"
    "phys s2 dir = PDir ((take n es @ xs @ drop (n + k) es)[n + k := e'])" "dcopied s1 ?e s2 e'" "grows {dir} s1 s2 (owned_ent s2 e')"
    by blast
  have "p \<in> set (concat (map (owned_ent s1) xs)) \<Longrightarrow> phys s2 p = phys s1 p" for p
    by (rule grows_keeps_new [OF s1(4) s2(4) assms(5)])
  then have xs2: "list_all2 (\<lambda>e e'. dcopied s e s2 e' \<and> owned_ent s2 e' = owned_ent s1 e') (take k (drop n es)) xs"
    using s1(3) by (elim list.rel_mono_strong, intro dcopied_later) auto
  then have same: "map (owned_ent s2) xs = map (owned_ent s1) xs" by (induction rule: list_all2_induct) simp_all
  have "grows {dir} s s2 (concat (map (owned_ent s2) (xs @ [e'])))"
    using grows_trans [OF s1(4) s2(4)] by (simp add: same del: map_eq_conv)
  moreover have "list_all2 (\<lambda>e e'. dcopied s e s2 e') (take (Suc k) (drop n es)) (xs @ [e'])"
    unfolding tk using xs2 dcopied_earlier [OF s2(3), of s] keep own
    by (intro list_all2_appendI) (auto elim: list.rel_mono_strong)
  moreover have "(take n es @ xs @ drop (n + k) es)[n + k := e'] = take n es @ (xs @ [e']) @ drop (n + Suc k) es"
    using nk lx by (simp add: list_update_append Cons_nth_drop_Suc [symmetric])
  ultimately show ?case using s1(1) s2(1,2) by (auto simp: for_each_append)
qed

lemma as_ok_later:
  assumes "as_ok s as" "\<And>p. p \<in> set (as # owned s as) \<Longrightarrow> phys s' p = phys s p" "used s \<subseteq> used s'"
  shows "as_ok s' as \<and> owned s' as = owned s as"
proof -
  have d: "dir_of s' as = dir_of s as" using assms(2) by (simp add: dir_of_def)
  have keep: "phys s' p = phys s p" if "e \<in> set (drop identity_len (dir_of s as))" "p \<in> set (owned_ent s e)" for e p
    using assms(2) that by (auto simp: owned_def)
  have "map (owned_ent s') (drop identity_len (dir_of s as)) = map (owned_ent s) (drop identity_len (dir_of s as))"
    by (rule map_cong [OF refl], rule owned_ent_later) (rule keep)
  then have o': "owned s' as = owned s as" by (simp add: owned_def d del: map_eq_conv)
  have "\<forall>e \<in> set (drop identity_len (dir_of s as)). ent_ok s' e"
    using assms(1) ent_ok_later [OF _ keep] by (auto simp: as_ok_def)
  with assms o' d show ?thesis by (auto simp: as_ok_def)
qed

lemma ent_ok_copied:
  assumes "ent_ok s e" "dcopied s e s' e'"
  shows "ent_ok s' e'"
proof (cases "dpresent e")
  case True
  have al: "dpresent e \<and> dalloc e" using assms(1) True by (simp add: ent_ok_def)
  from dcopied_tab [OF assms(2) al] obtain es' where
    es': "phys s' (dtable e') = PTab es'" "list_all2 (\<lambda>x y. copied s x s' y) (table_of s e) es'" by blast
  have len: "length es' = PTAB_SIZE"
    using assms(1) True list_all2_lengthD [OF es'(2)] by (auto simp: ent_ok_def table_of_def)
  have "\<exists>bs. phys s' p = PData bs \<and> length bs = PAGE_SIZE" if "p \<in> set (owned_pages es')" for p
  proof -
    from that obtain y where y: "y \<in> set es'" "p = paddr y" "ppresent y \<and> palloc y" by (auto simp: owned_pages_def)
    then obtain x where x: "x \<in> set (table_of s e)" "copied s x s' y"
      using es'(2) by (metis list_all2_conv_all_nth in_set_conv_nth)
    have al: "ppresent x \<and> palloc x" using y(3) copied_flags [OF x(2)] by simp
    then have "phys s' p = phys s (paddr x)" using x(2) y(2) unfolding copied_def by simp
    with in_owned_pages [OF x(1) al] assms(1) True show ?thesis by (simp add: ent_ok_def)
  qed
  moreover have "\<forall>y \<in> set es'. ppresent y \<or> palloc y"
  proof
    fix y assume "y \<in> set es'"
    then obtain x where "x \<in> set (table_of s e)" "copied s x s' y" using es'(2) by (metis list_all2_conv_all_nth in_set_conv_nth)
    with assms(1) True copied_flags [of s x s' y] show "ppresent y \<or> palloc y" by (auto simp: ent_ok_def)
  qed
  ultimately show ?thesis using len es'(1) al dcopied_flags [OF assms(2)] by (simp add: ent_ok_def table_of_def)
next
  case False
  with assms(1) dcopied_flags [OF assms(2)] show ?thesis by (simp add: ent_ok_def)
qed

lemma dir_idx_div: "dir_idx a = unat a div 4194304"
proof -
  have "dir_idx a = drop_bit 22 (unat a)" by (simp add: dir_idx_def unat_drop_bit_eq)
  then show ?thesis by (simp add: drop_bit_eq_div)
qed

lemma dir_idx_user: "PROC_REGION \<le> a \<longleftrightarrow> identity_len \<le> dir_idx a"
  unfolding dir_idx_div identity_len_def PROC_REGION_def word_le_nat_alt by simp linarith

lemma dir_idx_less: "dir_idx a < PDIR_SIZE"
  using unsigned_less [of a, where ?'a = nat] unfolding dir_idx_div PDIR_SIZE_def by simp

lemma tab_idx_less: "tab_idx a < PTAB_SIZE"
proof -
  have "drop_bit 12 a AND 0x3ff = take_bit 10 (drop_bit 12 a)" by (simp add: take_bit_eq_mask mask_eq_exp_minus_1)
  then have "tab_idx a = take_bit 10 (unat (drop_bit 12 a))" by (simp add: tab_idx_def unsigned_take_bit_eq)
  then show ?thesis using take_bit_nat_less_exp [of 10] by (simp add: PTAB_SIZE_def)
qed

lemma walk_copied:
  assumes "phys s as = PDir es" "phys s' dir = PDir (take identity_len es @ xs)" "length es = PDIR_SIZE"
    "list_all2 (\<lambda>e e'. dcopied s e s' e') (drop identity_len es) xs" "\<forall>e \<in> set (drop identity_len es). ent_ok s e" "PROC_REGION \<le> a"
  shows "rel_option (\<lambda>e e'. copied s e s' e') (walk s as a) (walk s' dir a)"
proof -
  let ?i = "dir_idx a"
  obtain j where j: "?i = identity_len + j" using assms(6) dir_idx_user le_Suc_ex by blast
  have lj: "j < length xs" "identity_len + j < length es" "length (take identity_len es) = identity_len"
    using list_all2_lengthD [OF assms(4)] dir_idx_less [of a] j assms(3) by (simp_all add: PDIR_SIZE_def identity_len_def)
  have ds: "dir_ent s as ?i = Inr (es ! ?i)" "dir_ent s' dir ?i = Inr (xs ! j)"
    using assms(1,2) j lj by (simp_all add: page_defs nth_append)
  have dc: "dcopied s (es ! ?i) s' (xs ! j)" using list_all2_nthD2 [OF assms(4) lj(1)] lj j by simp
  have ok: "ent_ok s (es ! ?i)" using assms(5) j lj nth_mem [of j "drop identity_len es"] by simp
  show ?thesis
  proof (cases "dpresent (es ! ?i)")
    case True
    with ok have al: "dpresent (es ! ?i) \<and> dalloc (es ! ?i)" by (simp add: ent_ok_def)
    from dcopied_tab [OF dc al] obtain es' where
      es': "phys s' (dtable (xs ! j)) = PTab es'" "list_all2 (\<lambda>x y. copied s x s' y) (table_of s (es ! ?i)) es'" by blast
    from ok True obtain ts where ts: "phys s (dtable (es ! ?i)) = PTab ts" "length ts = PTAB_SIZE" by (auto simp: ent_ok_def)
    have c: "copied s (ts ! tab_idx a) s' (es' ! tab_idx a)" "length es' = PTAB_SIZE"
      using es'(2) ts tab_idx_less [of a] list_all2_lengthD [OF es'(2)] by (auto simp: table_of_def list_all2_conv_all_nth)
    then show ?thesis using ds True dcopied_flags [OF dc] ts es'(1) tab_idx_less [of a] copied_flags [OF c(1)]
      by (simp add: walk_def page_defs)
  next
    case False
    with ds dcopied_flags [OF dc] show ?thesis by (simp add: walk_def)
  qed
qed

lemma fork_dir_ok:
  assumes "pg_inv s" "as_ok s as" "length (owned s as) < card (free_pages s)"
  shows "\<exists>dir s' xs. fork_proc_addr_space as s = Inr (dir, s') \<and> phys s' dir = PDir (take identity_len (dir_of s as) @ xs) \<and>
    list_all2 (\<lambda>e e'. dcopied s e s' e') (drop identity_len (dir_of s as)) xs \<and> grows {} s s' (dir # concat (map (owned_ent s') xs))"
proof -
  from assms(2) obtain es where es: "phys s as = PDir es" "length es = PDIR_SIZE" "as \<in> used s" by (auto simp: as_ok_def)
  have do: "dir_of s as = es" using es(1) by (simp add: dir_of_def)
  have fin: "free_pages s \<noteq> {}" using assms(3) by auto
  from get_page_ok [OF assms(1) fin] obtain dir s1 where
    d: "get_page s = Inr (dir, s1)" "dir \<in> free_pages s" "phys s1 = phys s" "\<And>c. grows {} s (put_page dir c s1) [dir]" by blast
  let ?s2 = "put_page dir (PDir es) s1"
  have du: "dir \<notin> used s" "as \<noteq> dir" using d(2) es(3) by (auto simp: free_pages_def)
  have g: "grows {} s ?s2 [dir]" by (rule d(4))
  have keep: "phys ?s2 p = phys s p" if "p \<in> used s" for p using g that by (simp add: grows_def)
  have o2: "map (owned_ent ?s2) (drop identity_len es) = map (owned_ent s) (drop identity_len es)"
    by (rule map_cong [OF refl], rule owned_ent_later, rule keep) (use assms(2) do in \<open>auto simp: as_ok_def owned_def\<close>)
  have "as_ok ?s2 as" using as_ok_later [OF assms(2), of ?s2] assms(2) keep g by (auto simp: as_ok_def grows_def)
  moreover have "dir_of ?s2 as = es" using du(2) d(3) es(1) by (simp add: dir_of_def put_page_def)
  ultimately have ok2: "\<forall>e \<in> set (drop identity_len es). ent_ok ?s2 e" by (simp add: as_ok_def)
  have k: "identity_len + 256 = PDIR_SIZE" "take 256 (drop identity_len es) = drop identity_len es"
    using es(2) by (simp_all add: identity_len_def PDIR_SIZE_def)
  have "\<exists>s' xs. for_each (fork_table as dir) [identity_len..<identity_len + 256] ?s2 = Inr s' \<and>
      phys s' dir = PDir (take identity_len es @ xs @ drop (identity_len + 256) es) \<and>
      list_all2 (\<lambda>e e'. dcopied ?s2 e s' e') (take 256 (drop identity_len es)) xs \<and> grows {dir} ?s2 s' (concat (map (owned_ent s') xs))"
  proof (rule fork_tables_ok)
    show "pg_inv ?s2" "as \<in> used ?s2" "dir \<in> used ?s2" using g es(3) by (auto simp: grows_def)
    show "phys ?s2 as = PDir es" "phys ?s2 dir = PDir es" using du(2) d(3) es(1) by (simp_all add: put_page_def)
    show "set (concat (map (owned_ent ?s2) (drop identity_len es))) \<subseteq> used ?s2 - {dir}"
      unfolding o2 using assms(2) do du g by (auto simp: as_ok_def owned_def grows_def)
    show "length (concat (map (owned_ent ?s2) (take 256 (drop identity_len es)))) \<le> card (free_pages ?s2)"
      unfolding k(2) o2 using assms(3) do conjunct2 [OF grows_free [OF g]] by (simp add: owned_def)
  qed (use du(2) ok2 k es(2) in auto)
  then obtain s' xs where s': "for_each (fork_table as dir) [identity_len..<PDIR_SIZE] ?s2 = Inr s'"
    "phys s' dir = PDir (take identity_len es @ xs)" "list_all2 (\<lambda>e e'. dcopied ?s2 e s' e') (drop identity_len es) xs"
    "grows {dir} ?s2 s' (concat (map (owned_ent s') xs))" unfolding k by (auto simp: es(2))
  have "grows {} s s' ([dir] @ concat (map (owned_ent s') xs))" by (rule grows_trans [OF g s'(4)]) simp
  moreover have "fork_proc_addr_space as s = Inr (dir, s')"
    using d(1,3) es(1) s'(1) by (simp add: fork_proc_addr_space_def)
  moreover have "list_all2 (\<lambda>e e'. dcopied s e s' e') (drop identity_len es) xs"
    using s'(3)
  proof (rule list.rel_mono_strong)
    fix e e' assume e: "e \<in> set (drop identity_len es)" "dcopied ?s2 e s' e'"
    show "dcopied s e s' e'"
      by (rule dcopied_earlier [OF e(2)], rule keep) (use assms(2) do e(1) in \<open>auto simp: as_ok_def owned_def\<close>)
  qed
  ultimately show ?thesis using s'(2) do by (intro exI [of _ dir] exI [of _ s'] exI [of _ xs]) simp
qed

lemma fork_ok:
  assumes "pg_inv s" "as_ok s as" "length (owned s as) < card (free_pages s)"
  shows "\<exists>dir s'. fork_proc_addr_space as s = Inr (dir, s') \<and> as_ok s' dir \<and> grows {} s s' (dir # owned s' dir) \<and>
    length (owned s' dir) = length (owned s as) \<and> take identity_len (dir_of s' dir) = take identity_len (dir_of s as) \<and>
    (\<forall>a \<ge> PROC_REGION. rel_option (\<lambda>e e'. copied s e s' e') (walk s as a) (walk s' dir a))"
proof -
  from fork_dir_ok [OF assms] obtain dir s' xs where f: "fork_proc_addr_space as s = Inr (dir, s')"
    "phys s' dir = PDir (take identity_len (dir_of s as) @ xs)"
    "list_all2 (\<lambda>e e'. dcopied s e s' e') (drop identity_len (dir_of s as)) xs" "grows {} s s' (dir # concat (map (owned_ent s') xs))"
    by blast
  from assms(2) obtain es where es: "phys s as = PDir es" "length es = PDIR_SIZE" "dir_of s as = es"
    by (auto simp: as_ok_def dir_of_def)
  have ok: "\<forall>e \<in> set (drop identity_len es). ent_ok s e" using assms(2) es(3) by (simp add: as_ok_def)
  have d': "dir_of s' dir = take identity_len es @ xs" using f(2) es(3) by (simp add: dir_of_def)
  have li: "length (take identity_len es) = identity_len" using es(2) by (simp add: identity_len_def PDIR_SIZE_def)
  have o': "owned s' dir = concat (map (owned_ent s') xs)" using li d' by (simp add: owned_def)
  have lo: "length (owned s' dir) = length (owned s as)"
    using dcopies_length [OF f(3)] o' by (simp add: owned_def)
  have lx: "length xs = length es - identity_len" using list_all2_lengthD [OF f(3)] es(3) by simp
  have "\<forall>e \<in> set xs. ent_ok s' e"
    using f(3) ok ent_ok_copied unfolding es(3) by (metis list_all2_conv_all_nth in_set_conv_nth)
  then have "as_ok s' dir" unfolding as_ok_def o' d' using f(2,4) lx es(2,3) li by (auto simp: grows_def)
  with f(1,4) o' lo d' li es walk_copied [OF es(1) _ es(2) _ ok] f(2,3) show ?thesis
    by (intro exI [of _ dir] exI [of _ s']) simp
qed

section \<open>Releasing an address space\<close>

text \<open>\<open>s'\<close> comes from \<open>s\<close> by giving back the pages \<open>ps\<close>; no page has changed.\<close>

definition shrinks :: "paging \<Rightarrow> paging \<Rightarrow> u32 list \<Rightarrow> bool" where
  "shrinks s s' ps \<longleftrightarrow> pg_inv s' \<and> used s' = used s - set ps \<and> region (pmem s') = region (pmem s) \<and>
     phys s' = phys s \<and> kpagedir s' = kpagedir s \<and> cr3 s' = cr3 s"

lemma shrinks_trans: "shrinks s s1 ps \<Longrightarrow> shrinks s1 s2 qs \<Longrightarrow> shrinks s s2 (ps @ qs)"
  by (auto simp: shrinks_def)

lemma drop_page_ok: "pg_inv s \<Longrightarrow> p \<in> used s \<Longrightarrow> \<exists>s'. drop_page p s = Inr s' \<and> shrinks s s' [p]"
  using pages.fr_ok [of "pmem s" p] by (auto simp: drop_page_def shrinks_def pg_inv_def)

lemma free_entries_ok:
  assumes "pg_inv s" "phys s t = PTab es"
  shows "k \<le> length es \<Longrightarrow> distinct (owned_pages (take k es)) \<Longrightarrow> set (owned_pages (take k es)) \<subseteq> used s \<Longrightarrow>
    \<exists>s'. for_each (free_entry t) [0..<k] s = Inr s' \<and> shrinks s s' (owned_pages (take k es))"
proof (induction k)
  case 0
  with assms show ?case by (simp add: shrinks_def)
next
  case (Suc k)
  have tk: "take (Suc k) es = take k es @ [es ! k]" using Suc.prems(1) by (simp add: take_Suc_conv_app_nth)
  with Suc obtain s1 where s1: "for_each (free_entry t) [0..<k] s = Inr s1" "shrinks s s1 (owned_pages (take k es))" by auto
  have ent: "tab_ent s1 t k = Inr (es ! k)" using s1(2) assms(2) Suc.prems(1) by (simp add: shrinks_def page_defs)
  have "\<exists>s2. free_entry t k s1 = Inr s2 \<and> shrinks s1 s2 (owned_pages [es ! k])"
  proof (cases "ppresent (es ! k) \<and> palloc (es ! k)")
    case True
    have "paddr (es ! k) \<in> used s1" using Suc.prems(2,3) s1(2) True unfolding tk by (auto simp: shrinks_def)
    with True ent drop_page_ok s1(2) show ?thesis by (simp add: free_entry_def shrinks_def [of s])
  next
    case False
    with ent s1(2) show ?thesis by (auto simp: free_entry_def shrinks_def)
  qed
  then obtain s2 where s2: "free_entry t k s1 = Inr s2" "shrinks s1 s2 (owned_pages [es ! k])" by blast
  have "shrinks s s2 (owned_pages (take (Suc k) es))"
    unfolding tk owned_pages_simps(3) by (rule shrinks_trans [OF s1(2) s2(2)])
  with s1(1) s2(1) show ?case by (simp add: for_each_append)
qed

lemma free_table_ok:
  assumes "pg_inv s" "dir_ent s as i = Inr e" "ent_ok s e" "distinct (owned_ent s e)" "set (owned_ent s e) \<subseteq> used s"
  shows "\<exists>s' ps. free_table as i s = Inr s' \<and> shrinks s s' ps \<and> set ps = set (owned_ent s e)"
proof (cases "dpresent e")
  case True
  with assms(3) obtain es where es: "phys s (dtable e) = PTab es" "length es = PTAB_SIZE" "dalloc e" by (auto simp: ent_ok_def)
  have own: "owned_ent s e = dtable e # owned_pages es" using True es by (simp add: owned_ent_def table_of_def)
  from free_entries_ok [OF assms(1) es(1), of PTAB_SIZE] es(2) assms(4,5) own obtain s1 where
    s1: "for_each (free_entry (dtable e)) [0..<PTAB_SIZE] s = Inr s1" "shrinks s s1 (owned_pages es)" by auto
  have "dtable e \<in> used s1" "pg_inv s1" using s1(2) assms(4,5) own by (auto simp: shrinks_def)
  from drop_page_ok [OF this(2,1)] obtain s2 where s2: "drop_page (dtable e) s1 = Inr s2" "shrinks s1 s2 [dtable e]" by blast
  have "free_table as i s = Inr s2" using True es(3) assms(2) s1(1) s2(1) by (simp add: free_table_def)
  with shrinks_trans [OF s1(2) s2(2)] own show ?thesis by (intro exI [of _ s2] exI [of _ "owned_pages es @ [dtable e]"]) auto
next
  case False
  with assms(1,2) have "free_table as i s = Inr s" "shrinks s s []" "owned_ent s e = []"
    by (auto simp: free_table_def shrinks_def owned_ent_def)
  then show ?thesis by auto
qed

lemma shrinks_ents: "shrinks s s' ps \<Longrightarrow> dir_ent s' as i = dir_ent s as i \<and> owned_ent s' e = owned_ent s e \<and> ent_ok s' e = ent_ok s e"
  by (simp add: shrinks_def page_defs owned_ent_def ent_ok_def table_of_def)

lemma free_tables_ok:
  assumes "pg_inv s" "phys s as = PDir es" "n + k \<le> length es" "\<forall>e \<in> set (drop n es). ent_ok s e"
    "distinct (concat (map (owned_ent s) (drop n es)))" "set (concat (map (owned_ent s) (drop n es))) \<subseteq> used s"
  shows "\<exists>s' ps. for_each (free_table as) [n..<n + k] s = Inr s' \<and> shrinks s s' ps \<and>
    set ps = set (concat (map (owned_ent s) (take k (drop n es))))"
  using assms
proof (induction k arbitrary: n s)
  case 0
  then show ?case by (auto simp: shrinks_def)
next
  case (Suc k)
  have nl: "n < length es" using Suc.prems(3) by simp
  have dn: "drop n es = es ! n # drop (Suc n) es" using nl by (simp add: Cons_nth_drop_Suc)
  have "dir_ent s as n = Inr (es ! n)" using Suc.prems(2) nl by (simp add: page_defs)
  from free_table_ok [OF Suc.prems(1) this] Suc.prems(4-6) obtain s1 ps where
    s1: "free_table as n s = Inr s1" "shrinks s s1 ps" "set ps = set (owned_ent s (es ! n))" unfolding dn by auto
  note sh = shrinks_ents [OF s1(2)]
  have own: "map (owned_ent s1) xs = map (owned_ent s) xs" for xs using sh by simp
  have "\<exists>s' qs. for_each (free_table as) [Suc n..<Suc n + k] s1 = Inr s' \<and> shrinks s1 s' qs \<and>
    set qs = set (concat (map (owned_ent s1) (take k (drop (Suc n) es))))"
  proof (rule Suc.IH)
    show "pg_inv s1" "phys s1 as = PDir es" using s1(2) Suc.prems(2) by (simp_all add: shrinks_def)
    show "\<forall>e \<in> set (drop (Suc n) es). ent_ok s1 e" using Suc.prems(4) sh unfolding dn by simp
    show "distinct (concat (map (owned_ent s1) (drop (Suc n) es)))" using Suc.prems(5) unfolding own dn by simp
    show "set (concat (map (owned_ent s1) (drop (Suc n) es))) \<subseteq> used s1"
      using Suc.prems(5,6) s1(2,3) unfolding own dn by (auto simp: shrinks_def)
  qed (use Suc.prems(3) in simp)
  then obtain s2 qs where s2: "for_each (free_table as) [Suc n..<Suc n + k] s1 = Inr s2" "shrinks s1 s2 qs"
    "set qs = set (concat (map (owned_ent s) (take k (drop (Suc n) es))))" unfolding own by blast
  have "[n..<n + Suc k] = n # [Suc n..<Suc n + k]" by (simp add: upt_rec)
  with s1(1) s2(1) have "for_each (free_table as) [n..<n + Suc k] s = Inr s2" by simp
  with shrinks_trans [OF s1(2) s2(2)] s1(3) s2(3) show ?case unfolding dn
    by (intro exI [of _ s2] exI [of _ "ps @ qs"]) simp
qed

lemma free_ok:
  assumes "pg_inv s" "as_ok s as" "as \<noteq> 0"
  shows "\<exists>s' ps. free_proc_addr_space as s = Inr s' \<and> shrinks s s' ps \<and> set ps = set (as # owned s as)"
proof -
  from assms(2) obtain es where es: "phys s as = PDir es" "length es = PDIR_SIZE" "dir_of s as = es" "as \<in> used s"
    by (auto simp: as_ok_def dir_of_def)
  have k: "identity_len + 256 = PDIR_SIZE" "take 256 (drop identity_len es) = drop identity_len es"
    using es(2) by (simp_all add: identity_len_def PDIR_SIZE_def)
  from free_tables_ok [OF assms(1) es(1), of identity_len 256] assms(2) es k obtain s1 ps where
    s1: "for_each (free_table as) [identity_len..<PDIR_SIZE] s = Inr s1" "shrinks s s1 ps" "set ps = set (owned s as)"
    by (auto simp: as_ok_def owned_def)
  have "as \<in> used s1" "pg_inv s1" using s1(2,3) assms(2) es(4) by (auto simp: shrinks_def as_ok_def)
  from drop_page_ok [OF this(2,1)] obtain s2 where s2: "drop_page as s1 = Inr s2" "shrinks s1 s2 [as]" by blast
  have "free_proc_addr_space as s = Inr s2" using s1(1) s2(1) assms(3) by (simp add: free_proc_addr_space_def)
  with shrinks_trans [OF s1(2) s2(2)] s1(3) show ?thesis by (intro exI [of _ s2] exI [of _ "ps @ [as]"]) auto
qed

section \<open>New address spaces and page faults\<close>

lemma create_ok:
  assumes "pg_inv s" "free_pages s \<noteq> {}" "phys s (kpagedir s) = PDir ks" "length ks = PDIR_SIZE"
  shows "\<exists>pd s'. create_proc_addr_space s = Inr (pd, s') \<and> as_ok s' pd \<and> owned s' pd = [] \<and> grows {} s s' [pd] \<and>
    take identity_len (dir_of s' pd) = take identity_len ks \<and> (\<forall>q. q \<noteq> pd \<longrightarrow> phys s' q = phys s q)"
proof -
  from get_page_ok [OF assms(1,2)] obtain pd s1 where
    g: "get_page s = Inr (pd, s1)" "phys s1 = phys s" "\<And>c. grows {} s (put_page pd c s1) [pd]" by blast
  have kd: "kpagedir s1 = kpagedir s" using g(3) [of "PDir []"] by (simp add: grows_def put_page_def)
  let ?f = "\<lambda>(i, e). if identity_len \<le> i then e\<lparr>dpresent := False, drw := True, duser := True, dalloc := True\<rparr> else e"
  let ?es = "map ?f (enumerate 0 ks)"
  let ?s' = "put_page pd (PDir ?es) s1"
  have nth: "?es ! i = ?f (i, ks ! i)" if "i < PDIR_SIZE" for i using that assms(4) by (simp add: nth_enumerate_eq)
  have new: "\<not> dpresent e \<and> dalloc e" if "e \<in> set (drop identity_len ?es)" for e
    using that assms(4) nth by (auto simp: in_set_conv_nth)
  have d: "dir_of ?s' pd = ?es" by (simp add: dir_of_def put_page_def)
  have "owned ?s' pd = []" using new unfolding owned_def d by (simp add: owned_ent_def)
  moreover from this have "as_ok ?s' pd"
    using new g(3) [of "PDir ?es"] assms(4) unfolding as_ok_def d by (simp add: ent_ok_def grows_def) (simp add: put_page_def)
  moreover have "take identity_len ?es = take identity_len ks"
    using assms(4) by (intro nth_equalityI) (simp_all add: nth_enumerate_eq)
  moreover have "create_proc_addr_space s = Inr (pd, ?s')"
    using g(1,2) assms(3) kd by (simp add: create_proc_addr_space_def dir_at_def)
  moreover have "\<forall>q. q \<noteq> pd \<longrightarrow> phys ?s' q = phys s q" using g(2) by (simp add: put_page_def)
  ultimately show ?thesis using g(3) [of "PDir ?es"] d by (intro exI [of _ pd] exI [of _ ?s']) simp
qed

lemma distinct_parts:
  "distinct (concat (map f xs)) \<Longrightarrow> i < length xs \<Longrightarrow> k < length xs \<Longrightarrow> i \<noteq> k \<Longrightarrow> set (f (xs ! i)) \<inter> set (f (xs ! k)) = {}"
proof (induction xs arbitrary: i k)
  case (Cons x xs)
  have "set (f x) \<inter> set (f (xs ! m)) = {}" if "m < length xs" for m
    using Cons.prems(1) nth_mem [OF that] by fastforce
  with Cons show ?case by (cases i; cases k) (simp_all add: Int_commute)
qed simp

lemma mset_concat_update:
  "i < length xs \<Longrightarrow> mset (concat (xs[i := y])) + mset (xs ! i) = mset (concat xs) + mset y"
  by (induction xs arbitrary: i) (auto split: nat.splits simp: nth_Cons')

lemma as_ok_update:
  assumes "as_ok s as" "phys s as = PDir es" "identity_len \<le> i" "i < PDIR_SIZE" "grows X s s' ps"
    "X \<subseteq> insert as (set (owned_ent s (es ! i)))" "phys s' as = PDir (es[i := e'])" "ent_ok s' e'"
    "mset (owned_ent s' e') = mset (owned_ent s (es ! i)) + mset ps"
  shows "as_ok s' as \<and> mset (owned s' as) = mset (owned s as) + mset ps"
proof -
  have len: "length es = PDIR_SIZE" using assms(1,2) by (auto simp: as_ok_def)
  have d: "dir_of s as = es" "dir_of s' as = es[i := e']" using assms(2,7) by (simp_all add: dir_of_def)
  let ?xs = "drop identity_len es" and ?k = "i - identity_len"
  have up: "drop identity_len (es[i := e']) = ?xs[?k := e']" using assms(3) by (simp add: drop_update_swap)
  have k: "?k < length ?xs" "?xs ! ?k = es ! i" using assms(3,4) len by simp_all
  have keep: "phys s' p = phys s p" if "m < length ?xs" "m \<noteq> ?k" "p \<in> set (owned_ent s (?xs ! m))" for m p
  proof -
    have "set (owned_ent s (?xs ! m)) \<inter> set (owned_ent s (es ! i)) = {}"
      using distinct_parts [of "owned_ent s" ?xs m ?k] assms(1) that k d by (simp add: as_ok_def owned_def)
    moreover have "p \<in> set (owned s as)" using that(3) nth_mem [OF that(1)] unfolding owned_def d by (auto simp del: nth_drop)
    then have "p \<in> used s" "p \<noteq> as" using assms(1) by (auto simp: as_ok_def)
    ultimately have "p \<in> used s - X" using that(3) assms(6) by auto
    with assms(5) show ?thesis by (simp add: grows_def)
  qed
  have "map (owned_ent s') (?xs[?k := e']) = (map (owned_ent s) ?xs)[?k := owned_ent s' e']"
  proof (rule nth_equalityI)
    fix m assume "m < length (map (owned_ent s') (?xs[?k := e']))"
    then have m: "m < length ?xs" by simp
    have "m \<noteq> ?k \<Longrightarrow> owned_ent s' (?xs ! m) = owned_ent s (?xs ! m)" by (rule owned_ent_later) (rule keep [OF m])
    with m show "map (owned_ent s') (?xs[?k := e']) ! m = (map (owned_ent s) ?xs)[?k := owned_ent s' e'] ! m"
      by (cases "m = ?k") simp_all
  qed simp
  then have "mset (owned s' as) + mset (owned_ent s (es ! i)) = mset (owned s as) + mset (owned_ent s' e')"
    unfolding owned_def d up using mset_concat_update [of ?k "map (owned_ent s) ?xs" "owned_ent s' e'"] k
    by (simp del: mset_concat)
  then have ms: "mset (owned s' as) = mset (owned s as) + mset ps" using assms(9) by simp
  have "\<forall>e \<in> set (?xs[?k := e']). ent_ok s' e"
  proof
    fix e assume "e \<in> set (?xs[?k := e'])"
    then obtain m where m: "m < length ?xs" "e = ?xs[?k := e'] ! m" by (auto simp: in_set_conv_nth)
    have "ent_ok s (?xs ! m)" using assms(1) d m(1) by (simp add: as_ok_def nth_mem del: nth_drop)
    then have "m \<noteq> ?k \<Longrightarrow> ent_ok s' (?xs ! m)" by (rule ent_ok_later) (rule keep [OF m(1)])
    with m assms(8) show "ent_ok s' e" by (cases "m = ?k") simp_all
  qed
  moreover have "distinct (owned s as @ ps)" "as \<notin> set (owned s as @ ps)" "set (owned s as @ ps) \<subseteq> used s'" "as \<in> used s'"
    using assms(1,5) by (auto simp: as_ok_def grows_def free_pages_def)
  moreover have "mset (owned s' as) = mset (owned s as @ ps)" using ms by simp
  then have "set (owned s' as) = set (owned s as @ ps)" "distinct (owned s' as) = distinct (owned s as @ ps)"
    by (rule mset_eq_setD, rule mset_eq_imp_distinct_iff)
  ultimately show ?thesis using ms assms(7) len d up by (simp add: as_ok_def)
qed

lemma as_ok_ent: "as_ok s as \<Longrightarrow> phys s as = PDir es \<Longrightarrow> identity_len \<le> i \<Longrightarrow> i < PDIR_SIZE \<Longrightarrow>
    length es = PDIR_SIZE \<and> ent_ok s (es ! i) \<and> set (owned_ent s (es ! i)) \<subseteq> used s - {as}"
proof -
  assume a: "as_ok s as" "phys s as = PDir es" "identity_len \<le> i" "i < PDIR_SIZE"
  have len: "length es = PDIR_SIZE" using a(1,2) by (auto simp: as_ok_def)
  have d: "dir_of s as = es" using a(2) by (simp add: dir_of_def)
  have "es ! i \<in> set (drop identity_len es)" using a(3,4) len nth_mem [of "i - identity_len" "drop identity_len es"] by simp
  with a(1) len d show ?thesis by (auto simp: as_ok_def owned_def)
qed

lemma fault_table_ok:
  assumes "pg_inv s" "as_ok s (cr3 s)" "phys s (cr3 s) = PDir es" "identity_len \<le> i" "i < PDIR_SIZE" "free_pages s \<noteq> {}"
  shows "\<exists>s' d ps. fault_table i s = Inr s' \<and> as_ok s' (cr3 s) \<and> phys s' (cr3 s) = PDir (es[i := d]) \<and> dpresent d \<and>
    (\<forall>j. j < PTAB_SIZE \<longrightarrow> (if dpresent (es ! i) then d = es ! i \<and> table_of s' d = table_of s d else \<not> ppresent (table_of s' d ! j))) \<and>
    grows {cr3 s} s s' ps \<and> length ps \<le> 1 \<and> mset (owned s' (cr3 s)) = mset (owned s (cr3 s)) + mset ps"
proof (cases "dpresent (es ! i)")
  case True
  have "length es = PDIR_SIZE" using as_ok_ent [OF assms(2-5)] by simp
  then have "fault_table i s = Inr s" using True assms(3,5) by (simp add: fault_table_def page_defs)
  with True assms(2,3) grows_refl [OF assms(1), of "{cr3 s}"] show ?thesis
    by (intro exI [of _ s] exI [of _ "es ! i"] exI [of _ "[]"]) simp
next
  case False
  note ent = as_ok_ent [OF assms(2-5)]
  have al: "dalloc (es ! i)" using ent by (simp add: ent_ok_def)
  from get_page_ok [OF assms(1,6)] obtain t s1 where
    t: "get_page s = Inr (t, s1)" "t \<in> free_pages s" "phys s1 = phys s" "\<And>c. grows {} s (put_page t c s1) [t]" by blast
  let ?e = "zero_pte\<lparr>palloc := True, prw := drw (es ! i), puser := duser (es ! i)\<rparr>"
  let ?d = "(es ! i)\<lparr>dpresent := True, dtable := t\<rparr>"
  let ?s2 = "put_page t (PTab (replicate PTAB_SIZE ?e)) s1"
  let ?s3 = "put_page (cr3 s) (PDir (es[i := ?d])) ?s2"
  have ne: "t \<noteq> cr3 s" using t(2) assms(2) by (auto simp: as_ok_def free_pages_def)
  have c1: "cr3 s1 = cr3 s" using t(4) [of "PTab []"] by (simp add: grows_def put_page_def)
  have g: "grows {cr3 s} s ?s3 [t]" by (rule grows_put [OF grows_mono [OF t(4)]]) simp_all
  have p3: "phys ?s3 t = PTab (replicate PTAB_SIZE ?e)" "phys ?s3 (cr3 s) = PDir (es[i := ?d])" using ne by (simp_all add: put_page_def)
  have tab: "table_of ?s3 ?d = replicate PTAB_SIZE ?e" using p3(1) by (simp add: table_of_def)
  have np: "\<not> ppresent ?e" "palloc ?e" by (simp_all add: zero_pte_def)
  have nil: "owned_pages (replicate PTAB_SIZE ?e) = []" using np by (simp add: owned_pages_def)
  have own: "owned_ent ?s3 ?d = [t]" "owned_ent s (es ! i) = []"
    using False al tab nil by (simp_all add: owned_ent_def)
  have "ent_ok ?s3 ?d" using al p3(1) nil np(2) unfolding ent_ok_def tab by simp
  with as_ok_update [OF assms(2-5) g _ p3(2)] own
  have "as_ok ?s3 (cr3 s) \<and> mset (owned ?s3 (cr3 s)) = mset (owned s (cr3 s)) + mset [t]" by simp
  moreover have "fault_table i s = Inr ?s3"
    using False al ent assms(3,5) t(1,3) c1 ne by (simp add: fault_table_def page_defs Let_def)
  ultimately show ?thesis using False g p3(2) tab np(1)
    by (intro exI [of _ ?s3] exI [of _ ?d] exI [of _ "[t]"]) simp
qed

lemma owned_pages_fill:
  assumes "j < length es" "\<not> ppresent (es ! j)" "ppresent e \<and> palloc e"
  shows "mset (owned_pages (es[j := e])) = mset (owned_pages es) + {#paddr e#}"
proof -
  have "mset (owned_pages (take j es @ e # drop (Suc j) es)) = mset (owned_pages (take j es @ es ! j # drop (Suc j) es)) + {#paddr e#}"
    using assms(2,3) by simp
  then show ?thesis using assms(1) by (simp add: upd_conv_take_nth_drop id_take_nth_drop [symmetric])
qed

lemma fault_page_ok:
  assumes "pg_inv s" "as_ok s as" "phys s as = PDir es" "identity_len \<le> i" "i < PDIR_SIZE" "free_pages s \<noteq> {}"
    "dpresent (es ! i)" "j < PTAB_SIZE" "\<not> ppresent (table_of s (es ! i) ! j)"
  shows "\<exists>p s' e. fault_page (dtable (es ! i)) j s = Inr s' \<and> as_ok s' as \<and> phys s' as = PDir es \<and>
    table_of s' (es ! i) = (table_of s (es ! i))[j := e] \<and> ppresent e \<and> paddr e = p \<and> phys s' p = PData (replicate PAGE_SIZE 0) \<and>
    grows {dtable (es ! i)} s s' [p] \<and> mset (owned s' as) = mset (owned s as) + mset [p]"
proof -
  note ent = as_ok_ent [OF assms(2-5)]
  let ?t = "dtable (es ! i)"
  have al: "dalloc (es ! i)" using ent by (simp add: ent_ok_def)
  obtain ts where ts: "phys s ?t = PTab ts" "length ts = PTAB_SIZE" "table_of s (es ! i) = ts"
    using ent assms(7) by (auto simp: ent_ok_def table_of_def)
  have own: "owned_ent s (es ! i) = ?t # owned_pages ts" using assms(7) al ts(3) by (simp add: owned_ent_def)
  have un: "\<not> ppresent (ts ! j) \<and> palloc (ts ! j)" using ent assms(7-9) ts by (auto simp: ent_ok_def)
  from get_page_ok [OF assms(1,6)] obtain p s1 where
    p: "get_page s = Inr (p, s1)" "p \<in> free_pages s" "phys s1 = phys s" "\<And>c. grows {} s (put_page p c s1) [p]" by blast
  let ?e = "(ts ! j)\<lparr>ppresent := True, pglobal := False, paddr := p\<rparr>"
  let ?s2 = "put_page p (PData (replicate PAGE_SIZE 0)) s1"
  let ?s3 = "put_page ?t (PTab (ts[j := ?e])) ?s2"
  have ne: "p \<noteq> ?t" "?t \<noteq> as" "p \<noteq> as" using p(2) own ent assms(2) by (auto simp: as_ok_def free_pages_def)
  have g: "grows {?t} s ?s3 [p]" by (rule grows_put [OF grows_mono [OF p(4)]]) simp_all
  have p3: "phys ?s3 as = PDir (es[i := es ! i])" "phys ?s3 ?t = PTab (ts[j := ?e])" "phys ?s3 p = PData (replicate PAGE_SIZE 0)"
    using ne p(3) assms(3) by (simp_all add: put_page_def)
  have tab: "table_of ?s3 (es ! i) = ts[j := ?e]" using p3(2) by (simp add: table_of_def)
  have ms: "mset (owned_pages (ts[j := ?e])) = mset (owned_pages ts) + {#p#}"
    using owned_pages_fill [of j ts ?e] un assms(8) ts(2) by simp
  have mse: "mset (owned_ent ?s3 (es ! i)) = mset (owned_ent s (es ! i)) + mset [p]"
    using ms assms(7) al tab ts(3) by (simp add: owned_ent_def)
  have "\<exists>bs. phys ?s3 q = PData bs \<and> length bs = PAGE_SIZE" if "q \<in> set (owned_pages (ts[j := ?e]))" for q
  proof (cases "q = p")
    case False
    have "q \<in># mset (owned_pages ts) + {#p#}" using that ms [symmetric] by (simp only: set_mset_mset)
    with False have "q \<in> set (owned_pages ts)" by simp
    then have q: "\<exists>bs. phys s q = PData bs \<and> length bs = PAGE_SIZE" "q \<in> used s"
      using ent assms(7) ts(3) own by (auto simp: ent_ok_def)
    then have "q \<in> used s - {?t}" using ts(1) by auto
    then have "phys ?s3 q = phys s q" using g by (simp add: grows_def)
    with q(1) show ?thesis by simp
  qed (simp add: p3)
  moreover have "\<forall>x \<in> set ts. ppresent x \<or> palloc x" using ent assms(7) ts(3) by (simp add: ent_ok_def)
  then have "\<forall>x \<in> set (ts[j := ?e]). ppresent x \<or> palloc x" using set_update_subset_insert [of ts j ?e] by auto
  ultimately have "ent_ok ?s3 (es ! i)" using al p3(2) ts(2) unfolding ent_ok_def tab by simp
  with as_ok_update [OF assms(2-5) g _ p3(1)] own mse
  have "as_ok ?s3 as \<and> mset (owned ?s3 as) = mset (owned s as) + mset [p]" by simp
  moreover have "fault_page ?t j s = Inr ?s3"
    using un assms(8) ts p(1,3) ne by (simp add: fault_page_def page_defs)
  ultimately show ?thesis using g p3 tab ts(3)
    by (intro exI [of _ p] exI [of _ ?s3] exI [of _ ?e]) simp
qed

lemma user_idx: "PROC_REGION \<le> a \<Longrightarrow> identity_len \<le> dir_idx a \<and> dir_idx a < PDIR_SIZE"
  by (simp add: dir_idx_user dir_idx_less)

lemma walk_eq:
  assumes "as_ok s as" "phys s as = PDir es" "PROC_REGION \<le> b"
  shows "walk s as b = (if dpresent (es ! dir_idx b) \<and> ppresent (table_of s (es ! dir_idx b) ! tab_idx b)
     then Some (table_of s (es ! dir_idx b) ! tab_idx b) else None)"
proof -
  note ent = as_ok_ent [OF assms(1,2) conjunct1 [OF user_idx [OF assms(3)]] conjunct2 [OF user_idx [OF assms(3)]]]
  with assms(2) dir_idx_less [of b] have d: "dir_ent s as (dir_idx b) = Inr (es ! dir_idx b)" by (simp add: page_defs)
  show ?thesis
  proof (cases "dpresent (es ! dir_idx b)")
    case True
    with ent obtain ts where "phys s (dtable (es ! dir_idx b)) = PTab ts" "length ts = PTAB_SIZE" by (auto simp: ent_ok_def)
    with d True tab_idx_less [of b] show ?thesis by (simp add: walk_def page_defs table_of_def)
  next
    case False
    with d show ?thesis by (simp add: walk_def)
  qed
qed

lemma tables_differ:
  assumes "as_ok s as" "phys s as = PDir es" "identity_len \<le> i" "i < PDIR_SIZE" "identity_len \<le> k" "k < PDIR_SIZE" "i \<noteq> k"
    "dpresent (es ! i)" "dpresent (es ! k)"
  shows "dtable (es ! i) \<noteq> dtable (es ! k)"
proof -
  have d: "dir_of s as = es" using assms(2) by (simp add: dir_of_def)
  note ei = as_ok_ent [OF assms(1-4)] and ek = as_ok_ent [OF assms(1,2,5,6)]
  have "set (owned_ent s (es ! i)) \<inter> set (owned_ent s (es ! k)) = {}"
    using distinct_parts [of "owned_ent s" "drop identity_len es" "i - identity_len" "k - identity_len"] assms ei d
    by (simp add: as_ok_def owned_def)
  with ei ek assms(8,9) show ?thesis by (auto simp: owned_ent_def ent_ok_def)
qed

lemma page_fault_ok:
  assumes "pg_inv s" "as_ok s (cr3 s)" "2 \<le> card (free_pages s)" "PROC_REGION \<le> a" "ec AND 9 = 0" "walk s (cr3 s) a = None"
    "phys s (cr3 s) = PDir es"
  shows "\<exists>s1 d ps p s2 e. page_fault_handler ec a s = Inr s2 \<and> as_ok s1 (cr3 s) \<and> as_ok s2 (cr3 s) \<and>
    phys s1 (cr3 s) = PDir (es[dir_idx a := d]) \<and> phys s2 (cr3 s) = PDir (es[dir_idx a := d]) \<and> dpresent d \<and>
    (\<forall>j < PTAB_SIZE. if dpresent (es ! dir_idx a) then d = es ! dir_idx a \<and> table_of s1 d = table_of s d else \<not> ppresent (table_of s1 d ! j)) \<and>
    grows {cr3 s} s s1 ps \<and> length ps \<le> 1 \<and> table_of s2 d = (table_of s1 d)[tab_idx a := e] \<and> ppresent e \<and> paddr e = p \<and>
    phys s2 p = PData (replicate PAGE_SIZE 0) \<and> grows {dtable d} s1 s2 [p] \<and> mset (owned s2 (cr3 s)) = mset (owned s (cr3 s)) + mset (ps @ [p])"
proof -
  let ?i = "dir_idx a" and ?j = "tab_idx a"
  note i = conjunct1 [OF user_idx [OF assms(4)]] conjunct2 [OF user_idx [OF assms(4)]]
  note ent = as_ok_ent [OF assms(2,7) i]
  have "free_pages s \<noteq> {}" using assms(3) by auto
  from fault_table_ok [OF assms(1,2,7) i this] obtain s1 d ps where s1: "fault_table ?i s = Inr s1" "as_ok s1 (cr3 s)"
    "phys s1 (cr3 s) = PDir (es[?i := d])" "dpresent d"
    "\<forall>j < PTAB_SIZE. if dpresent (es ! ?i) then d = es ! ?i \<and> table_of s1 d = table_of s d else \<not> ppresent (table_of s1 d ! j)"
    "grows {cr3 s} s s1 ps" "length ps \<le> 1" "mset (owned s1 (cr3 s)) = mset (owned s (cr3 s)) + mset ps" by blast
  have d: "es[?i := d] ! ?i = d" using ent i by simp
  have "\<not> ppresent (table_of s1 d ! ?j)"
    using s1(5) tab_idx_less [of a] walk_eq [OF assms(2,7,4)] assms(6) by (auto split: if_splits)
  moreover have "free_pages s1 \<noteq> {}" using conjunct2 [OF grows_free [OF s1(6)]] s1(7) assms(3) by auto
  moreover have inv1: "pg_inv s1" "cr3 s1 = cr3 s" using s1(6) by (simp_all add: grows_def)
  ultimately have "\<exists>p s2 e. fault_page (dtable d) ?j s1 = Inr s2 \<and> as_ok s2 (cr3 s) \<and> phys s2 (cr3 s) = PDir (es[?i := d]) \<and>
      table_of s2 d = (table_of s1 d)[?j := e] \<and> ppresent e \<and> paddr e = p \<and> phys s2 p = PData (replicate PAGE_SIZE 0) \<and>
      grows {dtable d} s1 s2 [p] \<and> mset (owned s2 (cr3 s)) = mset (owned s1 (cr3 s)) + mset [p]"
    using fault_page_ok [OF _ s1(2,3) i, of ?j] s1(4) tab_idx_less [of a] unfolding d by simp
  then obtain p s2 e where s2: "fault_page (dtable d) ?j s1 = Inr s2" "as_ok s2 (cr3 s)" "phys s2 (cr3 s) = PDir (es[?i := d])"
    "table_of s2 d = (table_of s1 d)[?j := e]" "ppresent e" "paddr e = p" "phys s2 p = PData (replicate PAGE_SIZE 0)"
    "grows {dtable d} s1 s2 [p]" "mset (owned s2 (cr3 s)) = mset (owned s1 (cr3 s)) + mset [p]" by blast
  have "dir_ent s (cr3 s) ?i = Inr (es ! ?i)" "dir_ent s1 (cr3 s) ?i = Inr d" "dalloc (es ! ?i)"
    using assms(7) s1(3) ent i(2) d by (simp_all add: page_defs ent_ok_def)
  then have "page_fault_handler ec a s = Inr s2"
    using assms(5) s1(1,4) s2(1) inv1(2) by (simp add: page_fault_handler_def)
  with s1 s2 show ?thesis by (intro exI [of _ s1] exI [of _ d] exI [of _ ps] exI [of _ p] exI [of _ s2] exI [of _ e]) simp
qed

section \<open>The kernel's own map\<close>

lemma fold_put_out: "p \<notin> f ` set xs \<Longrightarrow> phys (fold (\<lambda>i. put_page (f i) (g i)) xs s) p = phys s p"
  by (induction xs arbitrary: s) (auto simp: put_page_def)

lemma fold_put_in:
  "inj_on f (set xs) \<Longrightarrow> i \<in> set xs \<Longrightarrow> phys (fold (\<lambda>i. put_page (f i) (g i)) xs s) (f i) = g i"
proof (induction xs arbitrary: s)
  case (Cons x xs)
  show ?case
  proof (cases "i \<in> set xs")
    case True
    with Cons show ?thesis by simp
  next
    case False
    with Cons.prems have "i = x" "f x \<notin> f ` set xs" by auto
    moreover have "phys (put_page (f x) (g x) s) (f x) = g x" by (simp add: put_page_def)
    ultimately show ?thesis using fold_put_out [of "f x" f xs g "put_page (f x) (g x) s"] by simp
  qed
qed simp

lemma fold_put_pmem: "pmem (fold (\<lambda>i. put_page (f i) (g i)) xs s) = pmem s"
  by (induction xs arbitrary: s) (auto simp: put_page_def)

lemma inj_pages: "inj_on (\<lambda>i. (kt :: u32) + of_nat i) (set [0..<identity_len])"
proof (rule inj_onI)
  fix i k assume a: "i \<in> set [0..<identity_len]" "k \<in> set [0..<identity_len]" "kt + of_nat i = kt + of_nat k"
  then have "unat (of_nat i :: u32) = unat (of_nat k :: u32)" by simp
  with a(1,2) show "i = k" by (simp add: unsigned_of_nat take_bit_nat_eq_self identity_len_def)
qed

text \<open>The map that \<open>init_paging\<close> leaves.\<close>

definition kernel_map :: "u32 \<Rightarrow> u32 \<Rightarrow> paging \<Rightarrow> bool" where
  "kernel_map kd kt s \<longleftrightarrow> kpagedir s = kd \<and> cr3 s = kd \<and> phys s kd = PDir (identity_dir kt) \<and>
     (\<forall>i < identity_len. phys s (kt + of_nat i) =
        PTab (if i = 0 then (identity_tab 0)[0 := (identity_tab 0 ! 0)\<lparr>ppresent := False\<rparr>] else identity_tab i))"

lemma init_paging_ok:
  assumes "kd \<notin> (\<lambda>i. kt + of_nat i) ` {0..<identity_len}"
  shows "\<exists>s'. init_paging kd kt s = Inr s' \<and> kernel_map kd kt s' \<and> pmem s' = pmem s"
proof -
  let ?s1 = "fold (\<lambda>i. put_page (kt + of_nat i) (PTab (identity_tab i))) [0..<identity_len] s"
  let ?s2 = "put_page kd (PDir (identity_dir kt)) ?s1"
  have tabs: "phys ?s2 (kt + of_nat i) = PTab (identity_tab i)" if "i < identity_len" for i
    using fold_put_in [OF inj_pages, of i kt "\<lambda>i. PTab (identity_tab i)" s] that assms by (auto simp: put_page_def)
  have z: "0 < identity_len" "0 < PDIR_SIZE" "0 < PTAB_SIZE" by (simp_all add: identity_len_def PDIR_SIZE_def PTAB_SIZE_def)
  have t0: "phys ?s2 kt = PTab (identity_tab 0)" using tabs [OF z(1)] by simp
  have d0: "dir_ent ?s2 kd 0 = Inr (identity_dir kt ! 0)" "dtable (identity_dir kt ! 0) = kt"
    using z by (simp_all add: page_defs identity_dir_def)
  have len: "length (identity_tab 0) = PTAB_SIZE" by (simp add: identity_tab_def)
  let ?s3 = "put_page kt (PTab ((identity_tab 0)[0 := (identity_tab 0 ! 0)\<lparr>ppresent := False\<rparr>])) ?s2"
  have "init_paging kd kt s = Inr (?s3\<lparr>kpagedir := kd, cr3 := kd\<rparr>)"
    using d0 t0 len z by (simp add: init_paging_def set_pte_def tab_at_def)
  moreover have ne: "kd \<noteq> kt" using assms z(1) imageI [of 0 "{0..<identity_len}" "\<lambda>i. kt + of_nat i"] by auto
  have "kt + of_nat i = kt \<longleftrightarrow> i = 0" if "i < identity_len" for i
    using inj_pages [of kt] that z(1) by (auto dest: inj_onD [of _ _ i 0])
  then have "kernel_map kd kt (?s3\<lparr>kpagedir := kd, cr3 := kd\<rparr>)"
    using tabs ne z(1) unfolding kernel_map_def by (auto simp: put_page_def)
  moreover have "pmem (?s3\<lparr>kpagedir := kd, cr3 := kd\<rparr>) = pmem s" by (simp add: put_page_def fold_put_pmem)
  ultimately show ?thesis by blast
qed

lemma tab_idx_mod: "tab_idx a = unat a div 4096 mod 1024"
proof -
  have "drop_bit 12 a AND 0x3ff = take_bit 10 (drop_bit 12 a)" by (simp add: take_bit_eq_mask mask_eq_exp_minus_1)
  then have "tab_idx a = take_bit 10 (drop_bit 12 (unat a))" by (simp add: tab_idx_def unsigned_take_bit_eq unat_drop_bit_eq)
  then show ?thesis by (simp add: take_bit_eq_mod drop_bit_eq_div)
qed

lemma identity_addr:
  "drop_bit 12 (of_nat (dir_idx a) * (of_nat PAGE_SIZE * of_nat PTAB_SIZE) + of_nat (tab_idx a) * of_nat PAGE_SIZE) = drop_bit 12 a"
proof -
  let ?n = "dir_idx a * 4194304 + tab_idx a * 4096"
  have "unat a div 4194304 = unat a div 4096 div 1024" by (simp add: div_mult2_eq [symmetric])
  then have n: "?n = unat a div 4096 * 4096" unfolding dir_idx_div tab_idx_mod
    using div_mult_mod_eq [of "unat a div 4096" 1024] by linarith
  have "(of_nat (dir_idx a) * (of_nat PAGE_SIZE * of_nat PTAB_SIZE) + of_nat (tab_idx a) * of_nat PAGE_SIZE :: u32) = of_nat ?n"
    by (simp add: PAGE_SIZE_def PTAB_SIZE_def)
  moreover have "unat a < 2 ^ 32" using unsigned_less [of a, where ?'a = nat] by simp
  with div_times_less_eq_dividend [of "unat a" 4096] have "unat a div 4096 * 4096 < 2 ^ 32" by (rule le_less_trans)
  then have "take_bit 32 (unat a div 4096 * 4096) = unat a div 4096 * 4096" by (rule take_bit_nat_eq_self)
  then have "unat (of_nat ?n :: u32) = unat a div 4096 * 4096" unfolding n unsigned_of_nat by (simp del: of_nat_mult)
  ultimately have "unat (drop_bit 12 (of_nat (dir_idx a) * (of_nat PAGE_SIZE * of_nat PTAB_SIZE) +
      of_nat (tab_idx a) * of_nat PAGE_SIZE :: u32)) = unat (drop_bit 12 a)"
    by (simp only: unat_drop_bit_eq) (simp add: drop_bit_eq_div)
  then show ?thesis by (rule unsigned_word_eqI)
qed

lemma kernel_walk:
  assumes "kernel_map kd kt s" "a < PROC_REGION"
  shows "walk s kd a = (if a < 4096 then None
     else Some (zero_pte\<lparr>ppresent := True, prw := True, pglobal := True, paddr := drop_bit 12 a\<rparr>))"
proof -
  have i: "dir_idx a < identity_len" "dir_idx a < PDIR_SIZE" using dir_idx_user [of a] assms(2) dir_idx_less by (auto simp: not_le [symmetric])
  have d: "dir_ent s kd (dir_idx a) = Inr (zero_pde\<lparr>dpresent := True, drw := True, dtable := kt + of_nat (dir_idx a)\<rparr>)"
    using assms(1) i by (simp add: kernel_map_def page_defs identity_dir_def)
  have j: "tab_idx a < length (identity_tab i)" for i using tab_idx_less by (simp add: identity_tab_def)
  have e: "identity_tab (dir_idx a) ! tab_idx a = zero_pte\<lparr>ppresent := True, prw := True, pglobal := True, paddr := drop_bit 12 a\<rparr>"
    using identity_addr [of a] tab_idx_less [of a] by (simp add: identity_tab_def)
  have "unat a div 4194304 = unat a div 4096 div 1024" by (simp add: div_mult2_eq [symmetric])
  then have "dir_idx a = 0 \<and> tab_idx a = 0 \<longleftrightarrow> unat a div 4096 = 0" unfolding dir_idx_div tab_idx_mod
    using div_mult_mod_eq [of "unat a div 4096" 1024] by auto
  then have z: "a < 4096 \<longleftrightarrow> dir_idx a = 0 \<and> tab_idx a = 0" by (simp add: word_less_nat_alt div_eq_0_iff)
  let ?e = "zero_pte\<lparr>ppresent := True, prw := True, pglobal := True, paddr := drop_bit 12 a\<rparr>"
  have "phys s (kt + of_nat (dir_idx a)) = PTab (if dir_idx a = 0 then (identity_tab 0)[0 := (identity_tab 0 ! 0)\<lparr>ppresent := False\<rparr>]
      else identity_tab (dir_idx a))" using assms(1) i(1) by (simp add: kernel_map_def)
  then have "tab_ent s (kt + of_nat (dir_idx a)) (tab_idx a) = Inr (if a < 4096 then ?e\<lparr>ppresent := False\<rparr> else ?e)"
    using e j z by (auto simp: tab_ent_def tab_at_def nth_list_update)
  with d show ?thesis by (simp add: walk_def)
qed

section \<open>Properties\<close>

text \<open>The tables of the other entries are not touched by a fault.\<close>

lemma other_table:
  assumes "as_ok s1 as" "phys s1 as = PDir es" "grows {dtable (es ! i)} s1 s2 ps" "dpresent (es ! i)"
    "identity_len \<le> i" "i < PDIR_SIZE" "identity_len \<le> k" "k < PDIR_SIZE" "k \<noteq> i" "dpresent (es ! k)"
  shows "table_of s2 (es ! k) = table_of s1 (es ! k)"
proof -
  note ent = as_ok_ent [OF assms(1,2,7,8)]
  have "dtable (es ! k) \<in> used s1" using ent assms(10) by (auto simp: owned_ent_def ent_ok_def)
  moreover have "dtable (es ! k) \<noteq> dtable (es ! i)" using tables_differ [OF assms(1,2,7,8,5,6,9,10,4)] .
  ultimately have "phys s2 (dtable (es ! k)) = phys s1 (dtable (es ! k))" using assms(3) by (simp add: grows_def)
  then show ?thesis by (simp add: table_of_def)
qed

lemma dir_change_keeps_table:
  assumes "as_ok s as" "phys s as = PDir es" "grows {as} s s1 ps" "identity_len \<le> k" "k < PDIR_SIZE" "dpresent (es ! k)"
  shows "table_of s1 (es ! k) = table_of s (es ! k)"
proof -
  note ent = as_ok_ent [OF assms(1,2,4,5)]
  have "dtable (es ! k) \<in> used s - {as}" using ent assms(6) by (auto simp: owned_ent_def ent_ok_def)
  then have "phys s1 (dtable (es ! k)) = phys s (dtable (es ! k))" using assms(3) by (simp add: grows_def)
  then show ?thesis by (simp add: table_of_def)
qed

text \<open>A machine whose allocator has 64 free pages, booted, with one process.\<close>

definition demo_paging :: "kerr + paging" where
  "demo_paging = init_paging 0x400 0x800 \<lparr>pmem = demo_mem, phys = \<lambda>_. PData [], kpagedir = 0, cr3 = 0\<rparr>"

definition demo_space :: "kerr + (u32 \<times> paging)" where
  "demo_space = kbind demo_paging (\<lambda>s. kbind (create_proc_addr_space s) (\<lambda>(as, s). Inr (as, use_addr_space as s)))"

lemma demo_region: "region demo_mem = {0x100..<0x140}"
  by (auto simp: demo_mem_def region_def base_frame_def mem_init_def Let_def ksbrk_def word_le_nat_alt word_less_nat_alt CIEL_def)

lemma demo_room: "8 \<le> card (region demo_mem)"
proof -
  have "card {0x100, 0x101, 0x102, 0x103, 0x104, 0x105, 0x106, 0x107 :: u32} \<le> card (region demo_mem)"
    by (rule card_mono) (simp_all add: demo_region)
  then show ?thesis by simp
qed

lemma demo_placed: "(0x400 :: u32) \<notin> (\<lambda>i. 0x800 + of_nat i) ` {0..<identity_len}"
proof
  assume "(0x400 :: u32) \<in> (\<lambda>i. 0x800 + of_nat i) ` {0..<identity_len}"
  then obtain i :: nat where i: "i < 768" "(0x400 :: u32) = 0x800 + of_nat i" unfolding identity_len_def image_iff by fastforce
  have "unat (0x800 + of_nat i :: u32) = 0x800 + i" using i(1) by (simp add: unat_word_ariths unsigned_of_nat take_bit_nat_eq_self)
  with arg_cong [OF i(2), of unat] show False by simp
qed

lemma demo_tables: "region demo_mem \<inter> (\<lambda>i. 0x800 + of_nat i) ` {0..<identity_len} = {}"
proof -
  have "unat (0x800 + of_nat i :: u32) = 0x800 + i" if "i < identity_len" for i
    using that by (simp add: unat_word_ariths unsigned_of_nat take_bit_nat_eq_self identity_len_def)
  then show ?thesis unfolding demo_region by (auto simp: word_le_nat_alt word_less_nat_alt)
qed

lemma demo_paging: "\<exists>s. demo_paging = Inr s \<and> kernel_map 0x400 0x800 s \<and> pg_inv s \<and> free_pages s = region demo_mem"
proof -
  from init_paging_ok [OF demo_placed] obtain s where s: "demo_paging = Inr s" "kernel_map 0x400 0x800 s" "pmem s = demo_mem"
    unfolding demo_paging_def by fastforce
  have "p < 2 ^ 20" if "p \<in> region demo_mem" for p
    using that unfolding demo_region by (simp add: word_less_nat_alt)
  then show ?thesis using s demo_mem by (auto simp: pg_inv_def free_pages_def)
qed

lemma as_ok_cr3: "as_ok (use_addr_space pd s) as = as_ok s as" "owned (use_addr_space pd s) as = owned s as"
  "pg_inv (use_addr_space pd s) = pg_inv s" "free_pages (use_addr_space pd s) = free_pages s"
proof -
  have e: "phys (use_addr_space pd s) = phys s" "pmem (use_addr_space pd s) = pmem s" by (simp_all add: use_addr_space_def)
  have oe: "owned_ent (use_addr_space pd s) = owned_ent s" by (rule ext) (simp add: owned_ent_def table_of_def e)
  show o': "owned (use_addr_space pd s) as = owned s as" by (simp add: owned_def oe dir_of_def e)
  show "as_ok (use_addr_space pd s) as = as_ok s as"
    unfolding as_ok_def o' by (simp add: ent_ok_def table_of_def dir_of_def e)
  show "pg_inv (use_addr_space pd s) = pg_inv s" "free_pages (use_addr_space pd s) = free_pages s"
    by (simp_all add: pg_inv_def free_pages_def e)
qed

lemma demo_space: "\<exists>as s. demo_space = Inr (as, s) \<and> pg_inv s \<and> as_ok s as \<and> owned s as = [] \<and> cr3 s = as \<and> 7 \<le> card (free_pages s)"
proof -
  from demo_paging obtain s where s: "demo_paging = Inr s" "kernel_map 0x400 0x800 s" "pg_inv s" "free_pages s = region demo_mem"
    by blast
  have ne: "free_pages s \<noteq> {}" using demo_room s(4) by auto
  have k: "phys s (kpagedir s) = PDir (identity_dir 0x800)" "length (identity_dir 0x800) = PDIR_SIZE"
    using s(2) by (auto simp: kernel_map_def identity_dir_def)
  from create_ok [OF s(3) ne k] obtain as s' where
    c: "create_proc_addr_space s = Inr (as, s')" "as_ok s' as" "owned s' as = []" "grows {} s s' [as]" by blast
  have "7 \<le> card (free_pages s')" using conjunct2 [OF grows_free [OF c(4)]] demo_room s(4) by simp
  moreover have "pg_inv s'" using c(4) by (simp add: grows_def)
  moreover have "demo_space = Inr (as, use_addr_space as s')" unfolding demo_space_def s(1) by (simp add: c(1))
  ultimately show ?thesis using c(2,3)
    by (intro exI [of _ as] exI [of _ "use_addr_space as s'"]) (simp add: as_ok_cr3, simp add: use_addr_space_def)
qed

text \<open>The process touches its first page.\<close>

definition demo_run :: "kerr + (u32 \<times> paging)" where
  "demo_run = kbind demo_space (\<lambda>(as, s). kbind (page_fault_handler 4 0xC0001234 s) (\<lambda>s. Inr (as, s)))"

lemma fresh_unmapped:
  assumes "as_ok s as" "owned s as = []" "PROC_REGION \<le> a"
  shows "walk s as a = None"
proof -
  from assms(1) obtain es where es: "phys s as = PDir es" by (auto simp: as_ok_def)
  note i = conjunct1 [OF user_idx [OF assms(3)]] conjunct2 [OF user_idx [OF assms(3)]]
  note ent = as_ok_ent [OF assms(1) es i]
  have "es ! dir_idx a \<in> set (drop identity_len es)"
    using i ent nth_mem [of "dir_idx a - identity_len" "drop identity_len es"] by simp
  with assms(2) es have "owned_ent s (es ! dir_idx a) = []" by (simp add: owned_def dir_of_def)
  then have "\<not> dpresent (es ! dir_idx a)" using ent by (auto simp: owned_ent_def ent_ok_def split: if_splits)
  then show ?thesis using walk_eq [OF assms(1) es assms(3)] by simp
qed

lemma demo_addr: "PROC_REGION \<le> 0xC0001234" "(4 :: u32) AND 9 = 0"
  by (simp_all add: PROC_REGION_def)

lemma demo_run: "\<exists>as s. demo_run = Inr (as, s) \<and> pg_inv s \<and> as_ok s as \<and> length (owned s as) < card (free_pages s)"
proof -
  from demo_space obtain as s where d: "demo_space = Inr (as, s)" "pg_inv s" "as_ok s as" "owned s as = []" "cr3 s = as" "7 \<le> card (free_pages s)"
    by blast
  from d(3) obtain es where es: "phys s (cr3 s) = PDir es" by (auto simp: as_ok_def d(5))
  have ok: "as_ok s (cr3 s)" "owned s (cr3 s) = []" "2 \<le> card (free_pages s)" using d by simp_all
  from page_fault_ok [OF d(2) ok(1,3) demo_addr fresh_unmapped [OF ok(1,2) demo_addr(1)] es] obtain s1 and dd :: page_dir_ent and ps p s2 where
    f: "page_fault_handler 4 0xC0001234 s = Inr s2" "as_ok s2 as" "grows {as} s s1 ps" "length ps \<le> 1"
      "grows {dtable dd} s1 s2 [p]" "mset (owned s2 as) = mset (owned s as) + mset (ps @ [p])" unfolding d(5) by blast
  have "length (owned s2 as) = length (ps @ [p])" using f(6) d(4) by (intro mset_eq_length) simp
  moreover have "card (free_pages s2) + 1 + length ps = card (free_pages s)"
    using conjunct2 [OF grows_free [OF f(3)]] conjunct2 [OF grows_free [OF f(5)]] by simp
  moreover have "demo_run = Inr (as, s2)" unfolding demo_run_def d(1) by (simp add: f(1))
  moreover have "pg_inv s2" using f(5) by (simp add: grows_def)
  ultimately show ?thesis using f(2,4) d(6) by (intro exI [of _ as] exI [of _ s2]) simp
qed

text \<open>
  Claim C36. \<open>fork_proc_addr_space\<close> copies the memory of a process and shares none of it: with enough free pages it
  succeeds; the directory, tables and pages of the copy are all newly allocated, nothing that was in use changes, and
  above \<open>PROC_REGION\<close> both spaces map the same addresses with the same rights to pages with the same contents (to the same page
  where the page is not the process's own, like the framebuffer).
\<close>

theorem fork_isolates_memory:
  assumes "pg_inv s" "as_ok s as" "length (owned s as) < card (free_pages s)"
  shows "\<exists>dir s'. fork_proc_addr_space as s = Inr (dir, s') \<and> pg_inv s' \<and> as_ok s' as \<and> as_ok s' dir \<and>
    owned s' as = owned s as \<and> set (dir # owned s' dir) \<inter> used s = {} \<and> used s' = used s \<union> set (dir # owned s' dir) \<and>
    (\<forall>p \<in> used s. phys s' p = phys s p) \<and>
    (\<forall>a \<ge> PROC_REGION. rel_option (\<lambda>e e'. copied s e s' e') (walk s as a) (walk s' dir a))"
proof -
  from fork_ok [OF assms] obtain dir s' where f: "fork_proc_addr_space as s = Inr (dir, s')" "as_ok s' dir"
    "grows {} s s' (dir # owned s' dir)" "\<forall>a \<ge> PROC_REGION. rel_option (\<lambda>e e'. copied s e s' e') (walk s as a) (walk s' dir a)"
    by blast
  have keep: "\<forall>p \<in> used s. phys s' p = phys s p" using f(3) by (simp add: grows_def)
  have "as_ok s' as \<and> owned s' as = owned s as"
    by (rule as_ok_later [OF assms(2)]) (use keep assms(2) f(3) in \<open>auto simp: as_ok_def grows_def\<close>)
  with f keep show ?thesis by (intro exI [of _ dir] exI [of _ s']) (auto simp: grows_def free_pages_def)
qed

theorem fork_isolates_memory_witness:
  "\<exists>as s. demo_run = Inr (as, s) \<and> (\<exists>dir s'. fork_proc_addr_space as s = Inr (dir, s') \<and> pg_inv s' \<and> as_ok s' as \<and> as_ok s' dir \<and>
    owned s' as = owned s as \<and> set (dir # owned s' dir) \<inter> used s = {} \<and> used s' = used s \<union> set (dir # owned s' dir) \<and>
    (\<forall>p \<in> used s. phys s' p = phys s p) \<and>
    (\<forall>a \<ge> PROC_REGION. rel_option (\<lambda>e e'. copied s e s' e') (walk s as a) (walk s' dir a)))"
proof -
  from demo_run obtain as s where d: "demo_run = Inr (as, s)" "pg_inv s" "as_ok s as" "length (owned s as) < card (free_pages s)" by blast
  show ?thesis by (rule exI [of _ as], rule exI [of _ s], rule conjI [OF d(1) fork_isolates_memory [OF d(2-4)]])
qed

text \<open>
  Claim C37. A page fault on an unmapped address above \<open>PROC_REGION\<close>, with two pages free, maps a fresh page of zeros there and
  returns: every other address of the process is mapped as before, the contents of all data pages in use stay, and the pages
  that were taken (at most two) belong to the process.
\<close>

theorem page_fault_maps_zero_page:
  assumes "pg_inv s" "as_ok s (cr3 s)" "2 \<le> card (free_pages s)" "PROC_REGION \<le> a" "ec AND 9 = 0" "walk s (cr3 s) a = None"
  shows "\<exists>s' e ps. page_fault_handler ec a s = Inr s' \<and> pg_inv s' \<and> as_ok s' (cr3 s) \<and> walk s' (cr3 s) a = Some e \<and>
    phys s' (paddr e) = PData (replicate PAGE_SIZE 0) \<and> paddr e \<in> set ps \<and> length ps \<le> 2 \<and> set ps \<inter> used s = {} \<and>
    used s' = used s \<union> set ps \<and> mset (owned s' (cr3 s)) = mset (owned s (cr3 s)) + mset ps \<and>
    (\<forall>p \<in> used s. \<forall>bs. phys s p = PData bs \<longrightarrow> phys s' p = PData bs) \<and>
    (\<forall>b \<ge> PROC_REGION. (dir_idx b, tab_idx b) \<noteq> (dir_idx a, tab_idx a) \<longrightarrow> walk s' (cr3 s) b = walk s (cr3 s) b)"
proof -
  from assms(2) obtain es where es: "phys s (cr3 s) = PDir es" by (auto simp: as_ok_def)
  let ?i = "dir_idx a" and ?j = "tab_idx a"
  from page_fault_ok [OF assms es] obtain s1 d ps p s2 e where
    h: "page_fault_handler ec a s = Inr s2" and ok1: "as_ok s1 (cr3 s)" and ok2: "as_ok s2 (cr3 s)"
    and d1: "phys s1 (cr3 s) = PDir (es[?i := d])" and d2: "phys s2 (cr3 s) = PDir (es[?i := d])" and pd: "dpresent d"
    and t1: "\<forall>j < PTAB_SIZE. if dpresent (es ! ?i) then d = es ! ?i \<and> table_of s1 d = table_of s d else \<not> ppresent (table_of s1 d ! j)"
    and g1: "grows {cr3 s} s s1 ps" "length ps \<le> 1" and t2: "table_of s2 d = (table_of s1 d)[?j := e]" "ppresent e"
    and pe: "paddr e = p" "phys s2 p = PData (replicate PAGE_SIZE 0)" and g2: "grows {dtable d} s1 s2 [p]"
    and ms: "mset (owned s2 (cr3 s)) = mset (owned s (cr3 s)) + mset (ps @ [p])" by blast
  note i = conjunct1 [OF user_idx [OF assms(4)]] conjunct2 [OF user_idx [OF assms(4)]]
  have len: "length es = PDIR_SIZE" using as_ok_ent [OF assms(2) es i] by simp
  have di: "es[?i := d] ! ?i = d" using i len by simp
  obtain ts where ts: "phys s1 (dtable d) = PTab ts" "length ts = PTAB_SIZE" "table_of s1 d = ts"
    using as_ok_ent [OF ok1 d1 i] pd unfolding di by (auto simp: ent_ok_def table_of_def)
  have "walk s2 (cr3 s) a = Some e"
    using walk_eq [OF ok2 d2 assms(4)] pd t2 ts tab_idx_less [of a] unfolding di by simp
  moreover have "phys s2 q = PData bs" if q: "q \<in> used s" "phys s q = PData bs" for q bs
  proof -
    have "q \<in> used s - {cr3 s}" using q es by auto
    then have "phys s1 q = PData bs" "q \<in> used s1" using g1(1) q(2) by (simp_all add: grows_def)
    moreover from this have "q \<in> used s1 - {dtable d}" using ts(1) by auto
    ultimately show ?thesis using g2 by (simp add: grows_def)
  qed
  moreover have "walk s2 (cr3 s) b = walk s (cr3 s) b" if b: "PROC_REGION \<le> b" "(dir_idx b, tab_idx b) \<noteq> (?i, ?j)" for b
  proof (cases "dir_idx b = ?i")
    case True
    with b(2) have "table_of s2 d ! tab_idx b = table_of s1 d ! tab_idx b" by (simp add: t2(1))
    moreover have "if dpresent (es ! ?i) then d = es ! ?i \<and> table_of s1 d = table_of s d else \<not> ppresent (table_of s1 d ! tab_idx b)"
      using t1 tab_idx_less [of b] by blast
    ultimately show ?thesis
      using pd walk_eq [OF ok2 d2 b(1)] walk_eq [OF assms(2) es b(1)] unfolding True di by (simp split: if_splits)
  next
    case False
    note k = conjunct1 [OF user_idx [OF b(1)]] conjunct2 [OF user_idx [OF b(1)]]
    have ek: "es[?i := d] ! dir_idx b = es ! dir_idx b" using False by simp
    have "table_of s2 (es ! dir_idx b) = table_of s (es ! dir_idx b)" if "dpresent (es ! dir_idx b)"
      using other_table [OF ok1 d1 _ _ i k False, of s2 "[p]"] dir_change_keeps_table [OF assms(2) es g1(1) k that] g2 pd that
      unfolding di ek by simp
    then show ?thesis using walk_eq [OF ok2 d2 b(1)] walk_eq [OF assms(2) es b(1)] unfolding ek by auto
  qed
  moreover have "pg_inv s2" "set (ps @ [p]) \<inter> used s = {}" "used s2 = used s \<union> set (ps @ [p])"
    using g1(1) g2 by (auto simp: grows_def free_pages_def)
  ultimately show ?thesis using h ok2 pe ms g1(2)
    by (intro exI [of _ s2] exI [of _ e] exI [of _ "ps @ [p]"]) simp
qed

theorem page_fault_maps_zero_page_witness:
  "\<exists>s. demo_space = Inr (cr3 s, s) \<and> (\<exists>s' e ps. page_fault_handler 4 0xC0001234 s = Inr s' \<and> pg_inv s' \<and> as_ok s' (cr3 s) \<and>
    walk s' (cr3 s) 0xC0001234 = Some e \<and>
    phys s' (paddr e) = PData (replicate PAGE_SIZE 0) \<and> paddr e \<in> set ps \<and> length ps \<le> 2 \<and> set ps \<inter> used s = {} \<and>
    used s' = used s \<union> set ps \<and> mset (owned s' (cr3 s)) = mset (owned s (cr3 s)) + mset ps \<and>
    (\<forall>p \<in> used s. \<forall>bs. phys s p = PData bs \<longrightarrow> phys s' p = PData bs) \<and>
    (\<forall>b \<ge> PROC_REGION. (dir_idx b, tab_idx b) \<noteq> (dir_idx 0xC0001234, tab_idx 0xC0001234) \<longrightarrow> walk s' (cr3 s) b = walk s (cr3 s) b))"
proof -
  from demo_space obtain as s where d: "demo_space = Inr (as, s)" "pg_inv s" "as_ok s as" "owned s as = []" "cr3 s = as" "7 \<le> card (free_pages s)"
    by blast
  have ok: "as_ok s (cr3 s)" "owned s (cr3 s) = []" "2 \<le> card (free_pages s)" using d by simp_all
  note pf = page_fault_maps_zero_page [OF d(2) ok(1,3) demo_addr fresh_unmapped [OF ok(1,2) demo_addr(1)]]
  show ?thesis by (rule exI [of _ s], rule conjI [OF d(1) [folded d(5)] pf])
qed

text \<open>
  Claim C38. \<open>free_proc_addr_space\<close> of a copy made by \<open>fork_proc_addr_space\<close> succeeds, without a double free, and gives back exactly
  what the copy took: the pages in use are those from before the fork, with the same contents, and the parent is intact.
\<close>

theorem fork_then_free_restores:
  assumes "pg_inv s" "as_ok s as" "length (owned s as) < card (free_pages s)"
  shows "\<exists>dir s1 s2. fork_proc_addr_space as s = Inr (dir, s1) \<and> free_proc_addr_space dir s1 = Inr s2 \<and> pg_inv s2 \<and>
    used s2 = used s \<and> as_ok s2 as \<and> owned s2 as = owned s as \<and> (\<forall>p \<in> used s. phys s2 p = phys s p)"
proof -
  from fork_ok [OF assms] obtain dir s1 where f: "fork_proc_addr_space as s = Inr (dir, s1)" "as_ok s1 dir"
    "grows {} s s1 (dir # owned s1 dir)" by blast
  have "dir \<in> region (pmem s)" using f(3) by (auto simp: grows_def free_pages_def)
  then have "dir \<noteq> 0" using region_nonzero assms(1) by (auto simp: pg_inv_def)
  moreover have "pg_inv s1" using f(3) by (simp add: grows_def)
  ultimately obtain s2 ps where g: "free_proc_addr_space dir s1 = Inr s2" "shrinks s1 s2 ps" "set ps = set (dir # owned s1 dir)"
    using free_ok [OF _ f(2)] by blast
  have keep: "\<forall>p \<in> used s. phys s2 p = phys s p" "used s2 = used s" "pg_inv s2"
    using f(3) g(2,3) by (auto simp: grows_def shrinks_def free_pages_def)
  moreover have "as_ok s2 as \<and> owned s2 as = owned s as"
    by (rule as_ok_later [OF assms(2)]) (use keep assms(2) in \<open>auto simp: as_ok_def\<close>)
  ultimately show ?thesis using f(1) g(1) by (intro exI [of _ dir] exI [of _ s1] exI [of _ s2]) simp
qed

theorem fork_then_free_restores_witness:
  "\<exists>as s. demo_run = Inr (as, s) \<and> (\<exists>dir s1 s2. fork_proc_addr_space as s = Inr (dir, s1) \<and> free_proc_addr_space dir s1 = Inr s2 \<and> pg_inv s2 \<and>
    used s2 = used s \<and> as_ok s2 as \<and> owned s2 as = owned s as \<and> (\<forall>p \<in> used s. phys s2 p = phys s p))"
proof -
  from demo_run obtain as s where d: "demo_run = Inr (as, s)" "pg_inv s" "as_ok s as" "length (owned s as) < card (free_pages s)" by blast
  show ?thesis by (rule exI [of _ as], rule exI [of _ s], rule conjI [OF d(1) fork_then_free_restores [OF d(2-4)]])
qed

text \<open>
  Claim C39. \<open>init_paging\<close> maps every address below \<open>PROC_REGION\<close> to itself, for the kernel only, except for the first page, which
  faults; and \<open>create_proc_addr_space\<close> hands exactly this map to a new process, above which nothing is mapped.
\<close>

theorem new_process_sees_kernel_map:
  assumes "kd \<notin> (\<lambda>i. kt + of_nat i) ` {0..<identity_len}" "pm_inv (pmem s)" "\<forall>p \<in> region (pmem s). p < 2 ^ 20"
    "allocated (pmem s) \<noteq> region (pmem s)" "region (pmem s) \<inter> (\<lambda>i. kt + of_nat i) ` {0..<identity_len} = {}"
  shows "\<exists>s1 as s2. init_paging kd kt s = Inr s1 \<and> create_proc_addr_space s1 = Inr (as, s2) \<and> as_ok s2 as \<and>
    (\<forall>a. walk s2 as a = (if a < 4096 \<or> PROC_REGION \<le> a then None
       else Some (zero_pte\<lparr>ppresent := True, prw := True, pglobal := True, paddr := drop_bit 12 a\<rparr>)))"
proof -
  let ?tabs = "(\<lambda>i. kt + of_nat i) ` {0..<identity_len}"
  from init_paging_ok [OF assms(1)] obtain s1 where s1: "init_paging kd kt s = Inr s1" "kernel_map kd kt s1" "pmem s1 = pmem s" by blast
  have k: "phys s1 (kpagedir s1) = PDir (identity_dir kt)" "length (identity_dir kt) = PDIR_SIZE"
    using s1(2) by (auto simp: kernel_map_def identity_dir_def)
  have "pg_inv s1" "free_pages s1 \<noteq> {}"
    using assms(2-4) allocated_region [of "pmem s"] s1(3) by (auto simp: pg_inv_def free_pages_def)
  from create_ok [OF this k] obtain as s2 where c: "create_proc_addr_space s1 = Inr (as, s2)" "as_ok s2 as" "owned s2 as = []"
    "grows {} s1 s2 [as]" "take identity_len (dir_of s2 as) = take identity_len (identity_dir kt)"
    "\<And>q. q \<noteq> as \<Longrightarrow> phys s2 q = phys s1 q" by blast
  obtain es where es: "phys s2 as = PDir es" "length es = PDIR_SIZE" using c(2) by (auto simp: as_ok_def)
  have "as \<in> region (pmem s)" using c(4) s1(3) by (auto simp: grows_def free_pages_def)
  with assms(5) have ne: "kt + of_nat i \<noteq> as" if "i < identity_len" for i using that by auto
  have "walk s2 as a = walk s1 kd a" if a: "a < PROC_REGION" for a
  proof -
    have i: "dir_idx a < identity_len" "dir_idx a < PDIR_SIZE" using a dir_idx_user [of a] dir_idx_less by (auto simp: not_le [symmetric])
    have "es ! dir_idx a = identity_dir kt ! dir_idx a"
      using c(5) es(1) i(1) nth_take [of "dir_idx a" identity_len] by (metis dir_of_def page.simps(10))
    moreover have "dtable (identity_dir kt ! dir_idx a) = kt + of_nat (dir_idx a)" using i by (simp add: identity_dir_def)
    ultimately show ?thesis
      using es i k s1(2) c(6) [OF ne [OF i(1)]] by (simp add: walk_def page_defs kernel_map_def)
  qed
  then have "\<forall>a. walk s2 as a = (if a < 4096 \<or> PROC_REGION \<le> a then None
       else Some (zero_pte\<lparr>ppresent := True, prw := True, pglobal := True, paddr := drop_bit 12 a\<rparr>))"
    using kernel_walk [OF s1(2)] fresh_unmapped [OF c(2,3)] by (metis not_le)
  with s1(1) c(1,2) show ?thesis by blast
qed

theorem new_process_sees_kernel_map_witness:
  "\<exists>s1 as s2. demo_paging = Inr s1 \<and> create_proc_addr_space s1 = Inr (as, s2) \<and> as_ok s2 as \<and>
    (\<forall>a. walk s2 as a = (if a < 4096 \<or> PROC_REGION \<le> a then None
       else Some (zero_pte\<lparr>ppresent := True, prw := True, pglobal := True, paddr := drop_bit 12 a\<rparr>)))"
  unfolding demo_paging_def
  by (rule new_process_sees_kernel_map) (use demo_placed demo_mem demo_region demo_tables in \<open>auto simp: word_less_nat_alt\<close>)

end
