(* ===== verification/Kernel_Types.thy ===== *)
theory Kernel_Types
  imports Petix_Prelude
begin

text \<open>
  Types shared by the process, file and device code of the kernel: error numbers
  (\<open>include/errno.h\<close>), device numbers and directory entries (\<open>include/sys/types.h\<close>), inodes
  and files (\<open>kernel/fs.h\<close>). A table of file operations is a static object of the driver that
  defines it, so a pointer to one is the name of the driver.
\<close>

section \<open>Error numbers\<close>

datatype errno = EPERM | ENOENT | ESRCH | EINTR | EIO | ENXIO | ENOEXEC | EBADF | ECHILD | EAGAIN
  | EACCES | EFAULT | EEXIST | ENODEV | ENOTDIR | EISDIR | EINVAL | EMFILE | ENOTTY | ENOSYS | ENOTSUP

fun errno_num :: "errno \<Rightarrow> int" where
  "errno_num EPERM = 1"
| "errno_num ENOENT = 2"
| "errno_num ESRCH = 3"
| "errno_num EINTR = 4"
| "errno_num EIO = 5"
| "errno_num ENXIO = 6"
| "errno_num ENOEXEC = 8"
| "errno_num EBADF = 9"
| "errno_num ECHILD = 10"
| "errno_num EAGAIN = 11"
| "errno_num EACCES = 13"
| "errno_num EFAULT = 14"
| "errno_num EEXIST = 17"
| "errno_num ENODEV = 19"
| "errno_num ENOTDIR = 20"
| "errno_num EISDIR = 21"
| "errno_num EINVAL = 22"
| "errno_num EMFILE = 24"
| "errno_num ENOTTY = 25"
| "errno_num ENOSYS = 38"
| "errno_num ENOTSUP = 95"

abbreviation err :: "errno \<Rightarrow> int" where
  "err e \<equiv> - errno_num e"

lemma errno_pos: "0 < errno_num e"
  by (cases e) simp_all

lemma err_neg [simp]: "err e < 0"
  using errno_pos [of e] by simp

section \<open>Devices, inodes, files\<close>

unbundle bit_operations_syntax

definition MAJOR :: "u32 \<Rightarrow> u32" where "MAJOR dev = drop_bit 16 dev AND 0xffff"
definition MINOR :: "u32 \<Rightarrow> u32" where "MINOR dev = dev AND 0xffff"
definition MKDEV :: "u32 \<Rightarrow> u32 \<Rightarrow> u32" where "MKDEV ma mi = push_bit 16 ma OR mi"

datatype ftype = FT_DIR | FT_LINK | FT_SPECIAL | FT_REGULAR

record inode =
  iexec :: bool
  iftype :: ftype
  isize :: nat
  inode_id :: nat
  idev :: u32
  ifs :: "nat option"  \<comment> \<open>the mounted file system, an index into the mounts\<close>

definition FILE_NAME_LEN :: nat where "FILE_NAME_LEN = 256"

record petix_dirent =
  d_inode_id :: nat
  d_present :: bool
  d_type :: ftype
  d_name :: "byte list"

text \<open>The flags of \<open>open\<close>, \<open>include/fcntl.h\<close>.\<close>

definition O_DIRECTORY :: u32 where "O_DIRECTORY = 1"
definition O_CLOEXEC :: u32 where "O_CLOEXEC = 2"
definition O_CREAT :: u32 where "O_CREAT = 4"

text \<open>
  Terminal settings, \<open>include/termios.h\<close>, and the objects an \<open>ioctl\<close> request reads or fills in
  through its pointer argument, \<open>include/sys/ioctl.h\<close>.
\<close>

record termios =
  c_iflag :: u32
  c_oflag :: u32
  c_cflag :: u32
  c_lflag :: u32
  c_cc :: byte

definition ICANON :: u32 where "ICANON = 1"
definition ECHO :: u32 where "ECHO = 2"
definition ISIG :: u32 where "ISIG = 4"

datatype ioctl_req = TCGETS | TCSETS | TCSETSW | TCSETSF | TIOCGWINSZ | TIOCSWINSZ | FB_IOCTL_SIZE
  | FB_IOCTL_GET_RESOLUTION | Other_req

datatype ioctl_arg = No_arg | Termios_arg termios | Winsize_arg u16 u16 | Size_arg u32 | Resolution_arg u32 u32

datatype fops = Pipe_fops | Tarfs_fops | Tmpfs_fops | Devfs_fops | Device_fops nat

record kfile =
  foffset :: int
  fsize :: int
  finode :: inode
  fprivate :: u64
  ffops :: "fops option"
  refcnt :: int

definition null_inode :: inode where
  "null_inode = \<lparr>iexec = False, iftype = FT_DIR, isize = 0, inode_id = 0, idev = 0, ifs = None\<rparr>"

text \<open>A file structure of zero bytes, as \<open>memset\<close> leaves it.\<close>

definition null_file :: kfile where
  "null_file = \<lparr>foffset = 0, fsize = 0, finode = null_inode, fprivate = 0, ffops = None, refcnt = 0\<rparr>"

end
