(* ===== verification/Proc.thy ===== *)
theory Proc
  imports Kernel_Types
begin

unbundle bit_operations_syntax

text \<open>
  Processes and file descriptors, \<open>kernel/proc.c\<close>, with the global lock of \<open>kernel/sync.c\<close> they
  run under. A \<open>struct pcb *\<close> is an index into the process table, a \<open>struct file *\<close> the
  identity of a file object; identities are never reused, unlike the addresses \<open>kmalloc\<close>
  returns. Stacks and address spaces are left to the architecture.
\<close>

section \<open>State\<close>

datatype ready_state = RS_NOPROC | RS_CREATED | RS_READY | RS_RUNNING | RS_BLOCKED | RS_TERMINATED

definition MAX_FDS :: nat where "MAX_FDS = 16"
definition PTABLE_SIZE :: nat where "PTABLE_SIZE = 1024"

record fd_slot =
  sfile :: "nat option"
  cloexec :: bool

record pcb =
  pid :: u32
  ppid :: u32
  rs :: ready_state
  return_code :: byte
  wait_pid :: u32
  fds :: "fd_slot list"

record ksys =
  ptable :: "pcb list"
  pt_free :: nat
  curpid :: u32
  nested :: bool
  acq_depth :: int
  interrupts :: bool
  files :: "nat \<rightharpoonup> kfile"
  next_file :: nat

definition NOT_WAITING :: u32 where "NOT_WAITING = - 2"

section \<open>The global lock\<close>

definition acquire_global :: "ksys \<Rightarrow> ksys" where
  "acquire_global s = s\<lparr>interrupts := False, acq_depth := acq_depth s + 1\<rparr>"

definition release_global :: "ksys \<Rightarrow> kerr + ksys" where
  "release_global s =
     (let s1 = s\<lparr>interrupts := False, acq_depth := acq_depth s - 1\<rparr> in
      kbind (kassert (acq_depth s1 \<ge> 0)) (\<lambda>_.
      Inr (if acq_depth s1 = 0 then s1\<lparr>interrupts := True\<rparr> else s1)))"

definition is_global_held :: "ksys \<Rightarrow> bool" where
  "is_global_held s \<longleftrightarrow> acq_depth s \<noteq> 0"

section \<open>Process identifiers\<close>

text \<open>A pid is a generation above a 10-bit index into the table; the shift right is signed.\<close>

definition pid_gen :: "u32 \<Rightarrow> u32" where "pid_gen p = signed_drop_bit 10 p"
definition pid_off :: "u32 \<Rightarrow> nat" where "pid_off p = unat (p AND 1023)"
definition make_pid :: "u32 \<Rightarrow> nat \<Rightarrow> u32" where "make_pid gen off = push_bit 10 gen OR of_nat off"

definition get_pid :: "ksys \<Rightarrow> u32" where
  "get_pid s = curpid s"

definition get_pcb :: "ksys \<Rightarrow> u32 \<Rightarrow> nat option" where
  "get_pcb s p =
     (let pcb = ptable s ! pid_off p in
      if rs pcb = RS_NOPROC \<or> pid pcb \<noteq> p then None else Some (pid_off p))"

definition upd_pcb :: "nat \<Rightarrow> (pcb \<Rightarrow> pcb) \<Rightarrow> ksys \<Rightarrow> ksys" where
  "upd_pcb i f s = s\<lparr>ptable := (ptable s)[i := f (ptable s ! i)]\<rparr>"

section \<open>Allocating processes\<close>

text \<open>The search of \<open>alloc_proc\<close>, at most once around the table.\<close>

fun scan_free :: "nat \<Rightarrow> pcb list \<Rightarrow> nat \<Rightarrow> nat \<Rightarrow> nat option" where
  "scan_free 0 pt init_off i = None"
| "scan_free (Suc n) pt init_off i =
     (if rs (pt ! i) \<noteq> RS_NOPROC
      then let i' = (i + 1) mod PTABLE_SIZE in
           if i' = init_off then None else scan_free n pt init_off i'
      else Some i)"

definition alloc_proc :: "ksys \<Rightarrow> kerr + (nat option \<times> ksys)" where
  "alloc_proc s =
     (let s1 = acquire_global s in
      case scan_free PTABLE_SIZE (ptable s1) (pt_free s1) (pt_free s1) of
        None \<Rightarrow> Inr (None, s1)
      | Some i \<Rightarrow>
          let s2 = upd_pcb i (\<lambda>p. p\<lparr>rs := RS_CREATED, pid := make_pid (pid_gen (pid p) + 1) i, ppid := - 1\<rparr>)
                     (s1\<lparr>pt_free := i\<rparr>)
          in kbind (release_global s2) (\<lambda>s3. Inr (Some i, s3)))"

definition release_proc :: "nat \<Rightarrow> ksys \<Rightarrow> kerr + ksys" where
  "release_proc i s =
     release_global (upd_pcb i (\<lambda>p. p\<lparr>rs := RS_NOPROC, ppid := 0, wait_pid := NOT_WAITING\<rparr>) (acquire_global s))"

section \<open>File descriptors\<close>

text \<open>The lowest free descriptor gets a new file structure; \<open>- EMFILE\<close> when there is none.\<close>

fun first_free :: "fd_slot list \<Rightarrow> nat option" where
  "first_free [] = None"
| "first_free (d # ds) = (if sfile d = None then Some 0 else map_option Suc (first_free ds))"

definition alloc_fd :: "nat \<Rightarrow> ksys \<Rightarrow> int \<times> ksys" where
  "alloc_fd p s =
     (case first_free (fds (ptable s ! p)) of
        None \<Rightarrow> (err EMFILE, s)
      | Some i \<Rightarrow>
          (int i, upd_pcb p (\<lambda>pcb. pcb\<lparr>fds := (fds pcb)[i := \<lparr>sfile = Some (next_file s), cloexec = False\<rparr>]\<rparr>)
             (s\<lparr>files := (files s)(next_file s \<mapsto> null_file\<lparr>refcnt := 1\<rparr>), next_file := next_file s + 1\<rparr>)))"

text \<open>
  Releasing the last descriptor of a file calls the driver's \<open>close\<close>, if any, and frees the
  structure. \<open>close\<close> stands for that call: the driver, the file and the state \<open>'w\<close> of the drivers.
\<close>

definition release_fd :: "(fops \<Rightarrow> kfile \<Rightarrow> 'w \<Rightarrow> kerr + 'w) \<Rightarrow> nat \<Rightarrow> nat \<Rightarrow> ksys \<times> 'w \<Rightarrow> kerr + (ksys \<times> 'w)" where
  "release_fd close p i sw =
     (let (s, w) = sw in
      case sfile (fds (ptable s ! p) ! i) of
        None \<Rightarrow> Inl Kassert
      | Some f \<Rightarrow>
          kbind (deref (files s f)) (\<lambda>fl.
          kbind (kassert (refcnt fl \<noteq> 0)) (\<lambda>_.
          let fl' = fl\<lparr>refcnt := refcnt fl - 1\<rparr> in
          kbind (if refcnt fl' = 0
                 then kbind (case ffops fl' of None \<Rightarrow> Inr w | Some fo \<Rightarrow> close fo fl' w) (\<lambda>w'.
                      Inr ((files s)(f := None), w'))
                 else Inr ((files s)(f \<mapsto> fl'), w)) (\<lambda>(fs, w').
          Inr (upd_pcb p (\<lambda>pcb. pcb\<lparr>fds := (fds pcb)[i := \<lparr>sfile = None, cloexec = False\<rparr>]\<rparr>) (s\<lparr>files := fs\<rparr>), w')))))"

definition dup_fd :: "nat \<Rightarrow> nat \<Rightarrow> ksys \<Rightarrow> kerr + ksys" where
  "dup_fd p i s =
     (case sfile (fds (ptable s ! p) ! i) of
        None \<Rightarrow> Inl BadAccess
      | Some f \<Rightarrow>
        (case files s f of
           None \<Rightarrow> Inl BadAccess
         | Some fl \<Rightarrow> Inr (s\<lparr>files := (files s)(f \<mapsto> fl\<lparr>refcnt := refcnt fl + 1\<rparr>)\<rparr>)))"

section \<open>Waiting for children\<close>

text \<open>\<open>proc_get_terminated_child\<close>: \<open>0\<close> with \<open>wait_pid\<close> set, \<open>-1\<close>, or \<open>- ECHILD\<close>.\<close>

fun scan_child :: "pcb list \<Rightarrow> u32 \<Rightarrow> u32 \<Rightarrow> bool \<Rightarrow> u32 + bool" where
  "scan_child [] parent p child = Inr child"
| "scan_child (c # cs) parent p child =
     (if rs c = RS_NOPROC then scan_child cs parent p child
      else if ppid c = parent \<and> (p = - 1 \<or> p = pid c)
      then if rs c = RS_TERMINATED then Inl (pid c) else scan_child cs parent p True
      else scan_child cs parent p child)"

definition proc_get_terminated_child :: "nat \<Rightarrow> u32 \<Rightarrow> ksys \<Rightarrow> kerr + (int \<times> ksys)" where
  "proc_get_terminated_child i p s =
     (let s1 = acquire_global s in
      case scan_child (ptable s1) (pid (ptable s1 ! i)) p False of
        Inl c \<Rightarrow> kbind (release_global (upd_pcb i (\<lambda>q. q\<lparr>wait_pid := c\<rparr>) s1)) (\<lambda>s2. Inr (0, s2))
      | Inr child \<Rightarrow> kbind (release_global s1) (\<lambda>s2. Inr (if child then - 1 else err ECHILD, s2)))"

section \<open>The scheduler\<close>

text \<open>
  One turn of the search for a ready process from \<open>ioff\<close> on; the flag records whether a
  blocked process was seen.
\<close>

fun scan_ready :: "nat \<Rightarrow> pcb list \<Rightarrow> nat \<Rightarrow> nat \<Rightarrow> bool \<Rightarrow> nat option \<times> bool" where
  "scan_ready 0 pt ioff off blocked = (None, blocked)"
| "scan_ready (Suc n) pt ioff off blocked =
     (if rs (pt ! off) \<noteq> RS_READY
      then let blocked' = (blocked \<or> rs (pt ! off) = RS_BLOCKED);
               off' = (off + 1) mod PTABLE_SIZE
           in if off' = ioff then (None, blocked') else scan_ready n pt ioff off' blocked'
      else (Some off, blocked))"

text \<open>
  Without a ready process the scheduler halts until an interrupt: \<open>irqs\<close> are the effects of
  the interrupt handlers that will run. The result \<open>None\<close> is a machine halted for good.
\<close>

fun sched_loop :: "(ksys \<Rightarrow> ksys) list \<Rightarrow> nat \<Rightarrow> bool \<Rightarrow> ksys \<Rightarrow> kerr + (nat \<times> ksys) option" where
  "sched_loop irqs ioff blocked s =
     (case scan_ready PTABLE_SIZE (ptable s) ioff ioff blocked of
        (Some off, _) \<Rightarrow> Inr (Some (off, s))
      | (None, blocked') \<Rightarrow>
          if blocked'
          then kbind (release_global (s\<lparr>nested := True\<rparr>)) (\<lambda>s1.
               case irqs of
                 [] \<Rightarrow> Inr None
               | irq # irqs' \<Rightarrow>
                   if interrupts s1
                   then sched_loop irqs' ioff blocked' ((acquire_global (irq s1))\<lparr>nested := False\<rparr>)
                   else Inr None)
          else Inl Panic)"

definition sched :: "(ksys \<Rightarrow> ksys) list \<Rightarrow> ksys \<Rightarrow> kerr + ksys option" where
  "sched irqs s =
     (if nested s then Inr (Some s)
      else
        let s1 = acquire_global s;
            cur = pid_off (curpid s1);
            s2 = (if rs (ptable s1 ! cur) = RS_RUNNING then upd_pcb cur (\<lambda>p. p\<lparr>rs := RS_READY\<rparr>) s1 else s1)
        in kbind (sched_loop irqs ((cur + 1) mod PTABLE_SIZE) False s2) (\<lambda>r.
           case r of
             None \<Rightarrow> Inr None
           | Some (off, s3) \<Rightarrow>
               let s4 = upd_pcb off (\<lambda>p. p\<lparr>rs := RS_RUNNING\<rparr>) s3;
                   s5 = (if off \<noteq> cur then s4\<lparr>curpid := pid (ptable s4 ! off)\<rparr> else s4)
               in kbind (release_global s5) (\<lambda>s6. Inr (Some s6))))"

section \<open>Well-formed process tables\<close>

definition proc_ok :: "ksys \<Rightarrow> bool" where
  "proc_ok s \<longleftrightarrow> length (ptable s) = PTABLE_SIZE \<and> pt_free s < PTABLE_SIZE \<and> 0 \<le> acq_depth s \<and>
     (\<forall>i < PTABLE_SIZE. length (fds (ptable s ! i)) = MAX_FDS \<and>
        (rs (ptable s ! i) \<noteq> RS_NOPROC \<longrightarrow> pid_off (pid (ptable s ! i)) = i))"

lemma pid_off_mod: "pid_off p = unat p mod PTABLE_SIZE"
proof -
  have "p AND 1023 = take_bit 10 p" by (simp add: take_bit_eq_mask mask_eq_exp_minus_1)
  then have "pid_off p = take_bit 10 (unat p)" unfolding pid_off_def by (simp only: unsigned_take_bit_eq)
  then show ?thesis by (simp add: take_bit_eq_mod PTABLE_SIZE_def)
qed

lemma pid_off_less: "pid_off p < PTABLE_SIZE"
  by (simp add: pid_off_mod) (simp add: PTABLE_SIZE_def)

lemma pid_off_make: "i < PTABLE_SIZE \<Longrightarrow> pid_off (make_pid g i) = i"
proof -
  assume i: "i < PTABLE_SIZE"
  have "make_pid g i AND 1023 = take_bit 10 (make_pid g i)"
    by (simp add: take_bit_eq_mask mask_eq_exp_minus_1)
  also have "\<dots> = take_bit 10 (of_nat i)" by (simp add: make_pid_def take_bit_push_bit)
  finally have "pid_off (make_pid g i) = take_bit 10 (unat (of_nat i :: u32))"
    unfolding pid_off_def by (simp only: unsigned_take_bit_eq)
  with i show ?thesis by (simp add: PTABLE_SIZE_def unat_of_nat_u32 take_bit_nat_eq_self)
qed

lemma make_pid_fresh: "i < PTABLE_SIZE \<Longrightarrow> make_pid (pid_gen p + 1) i \<noteq> p"
proof
  assume i: "i < PTABLE_SIZE" and eq: "make_pid (pid_gen p + 1) i = p"
  have "\<not> bit (of_nat i :: u32) 10"
  proof -
    have "\<not> bit i 10" using i by (simp add: bit_iff_odd PTABLE_SIZE_def)
    then show ?thesis by (simp add: bit_of_nat_iff)
  qed
  then have "bit (make_pid (pid_gen p + 1) i) 10 \<longleftrightarrow> odd (pid_gen p + 1)"
    by (simp add: make_pid_def bit_or_iff bit_push_bit_iff bit_0)
  also have "\<dots> \<longleftrightarrow> \<not> bit (pid_gen p) 0" by (simp add: bit_0)
  also have "\<dots> \<longleftrightarrow> \<not> bit p 10" by (simp add: pid_gen_def bit_signed_drop_bit_iff)
  finally show False using eq by simp
qed

lemma upd_pcb_simps [simp]:
  "pt_free (upd_pcb i f s) = pt_free s" "curpid (upd_pcb i f s) = curpid s"
  "nested (upd_pcb i f s) = nested s" "acq_depth (upd_pcb i f s) = acq_depth s"
  "interrupts (upd_pcb i f s) = interrupts s" "files (upd_pcb i f s) = files s"
  "next_file (upd_pcb i f s) = next_file s"
  "ptable (upd_pcb i f s) = (ptable s)[i := f (ptable s ! i)]"
  by (simp_all add: upd_pcb_def)

lemma acquire_global_simps [simp]:
  "ptable (acquire_global s) = ptable s" "pt_free (acquire_global s) = pt_free s"
  "curpid (acquire_global s) = curpid s" "nested (acquire_global s) = nested s"
  "files (acquire_global s) = files s" "next_file (acquire_global s) = next_file s"
  "acq_depth (acquire_global s) = acq_depth s + 1" "\<not> interrupts (acquire_global s)"
  by (simp_all add: acquire_global_def)

text \<open>Releasing the lock after acquiring it restores the depth; the rest of the state stays.\<close>

lemma release_global_ok:
  "1 \<le> acq_depth s \<Longrightarrow> release_global s =
     Inr (s\<lparr>interrupts := (acq_depth s = 1), acq_depth := acq_depth s - 1\<rparr>)"
  by (simp add: release_global_def Let_def)

section \<open>Searching around the table\<close>

lemma next_mod: "((a::nat) + d) mod n + 1 = b \<Longrightarrow> b mod n = (a + Suc d) mod n"
  by (metis add.commute add_Suc_right mod_Suc_eq plus_1_eq_Suc)

lemma turn_end: "i < n \<Longrightarrow> d < n \<Longrightarrow> (i + Suc d) mod n = i \<longleftrightarrow> Suc d = (n::nat)"
  using mod_eq_dvd_iff_nat [of i "i + Suc d" n] by (auto simp: dvd_imp_le le_Suc_eq dest: dvd_imp_le)

lemma scan_free_found:
  assumes "init_off < PTABLE_SIZE" "d \<le> e" "e < PTABLE_SIZE"
    "rs (pt ! ((init_off + e) mod PTABLE_SIZE)) = RS_NOPROC"
  shows "\<exists>i < PTABLE_SIZE. scan_free (PTABLE_SIZE - d) pt init_off ((init_off + d) mod PTABLE_SIZE) = Some i \<and>
    rs (pt ! i) = RS_NOPROC"
  using assms(2)
proof (induction "e - d" arbitrary: d)
  case 0
  then have "d = e" by simp
  then obtain n where "PTABLE_SIZE - d = Suc n" using assms(3) by (metis Suc_diff_Suc)
  with \<open>d = e\<close> assms show ?case by (simp add: PTABLE_SIZE_def)
next
  case (Suc x)
  then have d: "d < e" "d < PTABLE_SIZE" "Suc d < PTABLE_SIZE" using assms(3) by linarith+
  then obtain n where n: "PTABLE_SIZE - d = Suc n" "PTABLE_SIZE - Suc d = n"
    by (metis Suc_diff_Suc)
  show ?case
  proof (cases "rs (pt ! ((init_off + d) mod PTABLE_SIZE)) = RS_NOPROC")
    case True
    with n show ?thesis by (simp add: PTABLE_SIZE_def)
  next
    case False
    have "(init_off + Suc d) mod PTABLE_SIZE \<noteq> init_off"
      using turn_end [OF assms(1) d(2)] d(3) by simp
    with False n have "scan_free (PTABLE_SIZE - d) pt init_off ((init_off + d) mod PTABLE_SIZE) =
        scan_free (PTABLE_SIZE - Suc d) pt init_off ((init_off + Suc d) mod PTABLE_SIZE)"
      using next_mod [of init_off d PTABLE_SIZE] by (simp add: Let_def)
    with Suc.hyps(1) [of "Suc d"] Suc.hyps(2) d show ?thesis by simp
  qed
qed

lemma scan_free_none:
  "\<forall>i < PTABLE_SIZE. rs (pt ! i) \<noteq> RS_NOPROC \<Longrightarrow> i < PTABLE_SIZE \<Longrightarrow> scan_free n pt init_off i = None"
proof (induction n arbitrary: i)
  case (Suc n)
  then have "(i + 1) mod PTABLE_SIZE < PTABLE_SIZE" by (simp add: PTABLE_SIZE_def)
  with Suc show ?case by (simp add: Let_def)
qed simp

lemma offset_of:
  assumes "i < n" "k < (n::nat)"
  shows "\<exists>e < n. k = (i + e) mod n"
proof (cases "i \<le> k")
  case True
  then show ?thesis using assms by (intro exI [of _ "k - i"]) auto
next
  case False
  then show ?thesis using assms by (intro exI [of _ "n - i + k"]) auto
qed

text \<open>The slot found is the first ready one at or after \<open>ioff\<close>, around the table.\<close>

lemma scan_ready_found:
  assumes "ioff < PTABLE_SIZE" "d \<le> e" "e < PTABLE_SIZE"
    "rs (pt ! ((ioff + e) mod PTABLE_SIZE)) = RS_READY"
    "\<forall>j. d \<le> j \<and> j < e \<longrightarrow> rs (pt ! ((ioff + j) mod PTABLE_SIZE)) \<noteq> RS_READY"
  shows "\<exists>b'. scan_ready (PTABLE_SIZE - d) pt ioff ((ioff + d) mod PTABLE_SIZE) b =
    (Some ((ioff + e) mod PTABLE_SIZE), b')"
  using assms(2,5)
proof (induction "e - d" arbitrary: d b)
  case 0
  then have "d = e" by simp
  then obtain n where "PTABLE_SIZE - d = Suc n" using assms(3) by (metis Suc_diff_Suc)
  with \<open>d = e\<close> assms show ?case by simp
next
  case (Suc x)
  then have d: "d < e" "d < PTABLE_SIZE" "Suc d < PTABLE_SIZE" using assms(3) by linarith+
  then obtain n where n: "PTABLE_SIZE - d = Suc n" "PTABLE_SIZE - Suc d = n"
    by (metis Suc_diff_Suc)
  have "(ioff + Suc d) mod PTABLE_SIZE \<noteq> ioff" using turn_end [OF assms(1) d(2)] d(3) by simp
  moreover have "rs (pt ! ((ioff + d) mod PTABLE_SIZE)) \<noteq> RS_READY" using Suc.prems(2) d(1) by simp
  ultimately obtain b1 where "scan_ready (PTABLE_SIZE - d) pt ioff ((ioff + d) mod PTABLE_SIZE) b =
      scan_ready (PTABLE_SIZE - Suc d) pt ioff ((ioff + Suc d) mod PTABLE_SIZE) b1"
    using n next_mod [of ioff d PTABLE_SIZE] by (simp add: Let_def)
  with Suc.hyps(1) [of "Suc d" b1] Suc.hyps(2) Suc.prems(2) d show ?case by simp
qed

section \<open>Allocating a process\<close>

lemma alloc_proc_ok:
  assumes ok: "proc_ok s" and free: "k < PTABLE_SIZE" "rs (ptable s ! k) = RS_NOPROC"
  shows "\<exists>i s'. alloc_proc s = Inr (Some i, s') \<and> i < PTABLE_SIZE \<and> rs (ptable s ! i) = RS_NOPROC \<and>
    ptable s' = (ptable s)[i := (ptable s ! i)\<lparr>rs := RS_CREATED,
      pid := make_pid (pid_gen (pid (ptable s ! i)) + 1) i, ppid := - 1\<rparr>] \<and>
    acq_depth s' = acq_depth s \<and> curpid s' = curpid s \<and> files s' = files s \<and> next_file s' = next_file s \<and>
    nested s' = nested s \<and> proc_ok s'"
proof -
  have pf: "pt_free s < PTABLE_SIZE" using ok by (simp add: proc_ok_def)
  from offset_of [OF pf free(1)] obtain e where "e < PTABLE_SIZE" "k = (pt_free s + e) mod PTABLE_SIZE" by blast
  with scan_free_found [OF pf, of 0 e "ptable s"] free(2) pf obtain i where
    i: "i < PTABLE_SIZE" "scan_free PTABLE_SIZE (ptable s) (pt_free s) (pt_free s) = Some i"
    "rs (ptable s ! i) = RS_NOPROC" by auto
  let ?p = "(ptable s ! i)\<lparr>rs := RS_CREATED, pid := make_pid (pid_gen (pid (ptable s ! i)) + 1) i, ppid := - 1\<rparr>"
  let ?s = "s\<lparr>interrupts := (acq_depth s = 0), pt_free := i, ptable := (ptable s)[i := ?p]\<rparr>"
  have "0 \<le> acq_depth s" using ok by (simp add: proc_ok_def)
  then have "alloc_proc s = Inr (Some i, ?s)"
    using i(2) by (simp add: alloc_proc_def Let_def release_global_ok upd_pcb_def acquire_global_def)
  moreover have "proc_ok ?s"
    using ok i pid_off_make [OF i(1)] by (auto simp: proc_ok_def nth_list_update)
  ultimately show ?thesis using i by auto
qed

section \<open>Scheduling\<close>

declare sched_loop.simps [simp del]

text \<open>The table the search of \<open>sched\<close> sees: a running process gives up the processor.\<close>

definition yielded :: "ksys \<Rightarrow> pcb list" where
  "yielded s = (let cur = pid_off (curpid s) in
     if rs (ptable s ! cur) = RS_RUNNING then (ptable s)[cur := (ptable s ! cur)\<lparr>rs := RS_READY\<rparr>]
     else ptable s)"

definition sched_ok :: "ksys \<Rightarrow> bool" where
  "sched_ok s \<longleftrightarrow> proc_ok s \<and> \<not> nested s \<and> pid (ptable s ! pid_off (curpid s)) = curpid s \<and>
     (\<forall>i < PTABLE_SIZE. rs (ptable s ! i) = RS_RUNNING \<longrightarrow> i = pid_off (curpid s))"

lemma yielded_simps:
  "length (yielded s) = length (ptable s)" "i < length (ptable s) \<Longrightarrow> pid (yielded s ! i) = pid (ptable s ! i)"
  "i < length (ptable s) \<Longrightarrow> fds (yielded s ! i) = fds (ptable s ! i)"
  "i < length (ptable s) \<Longrightarrow> rs (yielded s ! i) =
     (if i = pid_off (curpid s) \<and> rs (ptable s ! i) = RS_RUNNING then RS_READY else rs (ptable s ! i))"
  by (cases "i = pid_off (curpid s)"; auto simp: yielded_def Let_def)+

lemma first_ready:
  assumes "ioff < PTABLE_SIZE" "k < PTABLE_SIZE" "rs (pt ! k) = RS_READY"
  shows "\<exists>e d. e < PTABLE_SIZE \<and> k = (ioff + e) mod PTABLE_SIZE \<and> d \<le> e \<and>
    rs (pt ! ((ioff + d) mod PTABLE_SIZE)) = RS_READY \<and>
    (\<forall>j < d. rs (pt ! ((ioff + j) mod PTABLE_SIZE)) \<noteq> RS_READY)"
proof -
  let ?P = "\<lambda>d. rs (pt ! ((ioff + d) mod PTABLE_SIZE)) = RS_READY"
  from offset_of [OF assms(1,2)] obtain e where e: "e < PTABLE_SIZE" "k = (ioff + e) mod PTABLE_SIZE" by blast
  with assms(3) have "?P e" by simp
  with e LeastI [of ?P e] Least_le [of ?P e] not_less_Least [of _ ?P] show ?thesis by blast
qed

lemma sched_switches:
  assumes ok: "sched_ok s" and k: "k < PTABLE_SIZE" "rs (yielded s ! k) = RS_READY"
  shows "\<exists>e d s'. sched irqs s = Inr (Some s') \<and> sched_ok s' \<and> acq_depth s' = acq_depth s \<and>
    e < PTABLE_SIZE \<and> k = (pid_off (curpid s) + 1 + e) mod PTABLE_SIZE \<and> d \<le> e \<and>
    pid_off (curpid s') = (pid_off (curpid s) + 1 + d) mod PTABLE_SIZE \<and>
    rs (yielded s ! pid_off (curpid s')) = RS_READY \<and>
    (\<forall>j < d. rs (yielded s ! ((pid_off (curpid s) + 1 + j) mod PTABLE_SIZE)) \<noteq> RS_READY) \<and>
    ptable s' = (yielded s)[pid_off (curpid s') := (yielded s ! pid_off (curpid s'))\<lparr>rs := RS_RUNNING\<rparr>]"
proof -
  let ?cur = "pid_off (curpid s)"
  define ioff where "ioff = (?cur + 1) mod PTABLE_SIZE"
  have io: "ioff < PTABLE_SIZE" by (simp add: ioff_def PTABLE_SIZE_def)
  from first_ready [OF io k] obtain e d where d: "e < PTABLE_SIZE" "k = (ioff + e) mod PTABLE_SIZE" "d \<le> e"
    "rs (yielded s ! ((ioff + d) mod PTABLE_SIZE)) = RS_READY"
    "\<forall>j < d. rs (yielded s ! ((ioff + j) mod PTABLE_SIZE)) \<noteq> RS_READY" by blast
  define off where "off = (ioff + d) mod PTABLE_SIZE"
  have off: "off < PTABLE_SIZE" by (simp add: off_def PTABLE_SIZE_def)
  from d(1,3) have "d < PTABLE_SIZE" by simp
  with scan_ready_found [OF io, of 0 d "yielded s" False] d io
  have scan: "\<exists>b. scan_ready PTABLE_SIZE (yielded s) ioff ioff False = (Some off, b)"
    by (simp add: off_def)
  define s2 where "s2 = s\<lparr>interrupts := False, acq_depth := acq_depth s + 1, ptable := yielded s\<rparr>"
  have loop: "sched_loop irqs ioff False s2 = Inr (Some (off, s2))"
    using scan by (subst sched_loop.simps) (auto simp: s2_def)
  let ?s' = "s\<lparr>interrupts := (acq_depth s = 0), ptable := (yielded s)[off := (yielded s ! off)\<lparr>rs := RS_RUNNING\<rparr>],
    curpid := pid (yielded s ! off)\<rparr>"
  have P: "proc_ok s" "\<not> nested s" "length (ptable s) = PTABLE_SIZE" "0 \<le> acq_depth s"
    "pid (ptable s ! ?cur) = curpid s" using ok by (auto simp: sched_ok_def proc_ok_def)
  have poff: "pid_off (pid (yielded s ! off)) = off"
    using P off d(4) by (auto simp: yielded_simps proc_ok_def off_def split: if_splits)
  have mid: "(if rs (ptable (acquire_global s) ! pid_off (curpid (acquire_global s))) = RS_RUNNING
      then upd_pcb (pid_off (curpid (acquire_global s))) (\<lambda>p. p\<lparr>rs := RS_READY\<rparr>) (acquire_global s) else acquire_global s) = s2"
    by (simp add: s2_def yielded_def Let_def upd_pcb_def acquire_global_def)
  have "sched irqs s = Inr (Some ?s')"
  proof -
    have "sched irqs s = kbind (sched_loop irqs ioff False s2) (\<lambda>r. case r of None \<Rightarrow> Inr None
       | Some (off, s3) \<Rightarrow> kbind (release_global
           (if off \<noteq> ?cur
            then (upd_pcb off (\<lambda>p. p\<lparr>rs := RS_RUNNING\<rparr>) s3)\<lparr>curpid := pid (ptable (upd_pcb off (\<lambda>p. p\<lparr>rs := RS_RUNNING\<rparr>) s3) ! off)\<rparr>
            else upd_pcb off (\<lambda>p. p\<lparr>rs := RS_RUNNING\<rparr>) s3)) (\<lambda>s6. Inr (Some s6)))"
      using P(2) unfolding sched_def Let_def mid by (simp add: ioff_def)
    moreover have "pid (yielded s ! ?cur) = curpid s" using P pid_off_less by (simp add: yielded_simps)
    ultimately show ?thesis using P(3,4) loop off
      by (auto simp: s2_def upd_pcb_def release_global_ok yielded_simps)
  qed
  moreover have "sched_ok ?s'"
    using ok P off poff by (auto simp: sched_ok_def proc_ok_def nth_list_update yielded_simps split: if_splits)
  ultimately show ?thesis using d off poff
    by (intro exI [of _ e] exI [of _ d] exI [of _ ?s']) (simp add: off_def ioff_def mod_simps)
qed

section \<open>How long a ready process waits\<close>

text \<open>
  \<open>waits k n s\<close>: slot \<open>k\<close> has been passed over in \<open>n\<close> consecutive calls of the scheduler, ending
  in \<open>s\<close>. Between two calls the running process and interrupts may change every other process.
\<close>

inductive waits :: "nat \<Rightarrow> nat \<Rightarrow> ksys \<Rightarrow> bool" for k where
  start: "pid_off (curpid s) \<noteq> k \<Longrightarrow> waits k 0 s"
| turn: "waits k n s \<Longrightarrow> sched_ok u \<Longrightarrow> curpid u = curpid s \<Longrightarrow> rs (ptable u ! k) = RS_READY \<Longrightarrow>
     sched irqs u = Inr (Some t) \<Longrightarrow> pid_off (curpid t) \<noteq> k \<Longrightarrow> waits k (Suc n) t"

lemma waits_bound:
  assumes k: "k < PTABLE_SIZE"
  shows "waits k n s \<Longrightarrow> \<exists>e. k = (pid_off (curpid s) + 1 + e) mod PTABLE_SIZE \<and> n + e < PTABLE_SIZE"
proof (induction rule: waits.induct)
  case (start s)
  have "(pid_off (curpid s) + 1) mod PTABLE_SIZE < PTABLE_SIZE" by (simp add: PTABLE_SIZE_def)
  from offset_of [OF this k] show ?case by (auto simp: mod_simps)
next
  case (turn n s u irqs t)
  let ?c = "pid_off (curpid u) + 1"
  have "rs (yielded u ! k) = RS_READY"
    using turn.hyps(2,4) k by (simp add: yielded_simps sched_ok_def proc_ok_def)
  from sched_switches [OF turn.hyps(2) k this, of irqs] turn.hyps(5) obtain e d where
    e: "e < PTABLE_SIZE" "k = (?c + e) mod PTABLE_SIZE" "d \<le> e"
    "pid_off (curpid t) = (?c + d) mod PTABLE_SIZE" by auto
  from turn.IH turn.hyps(3) obtain e' where e': "k = (?c + e') mod PTABLE_SIZE" "n + e' < PTABLE_SIZE" by auto
  have "e = e'"
    using mod_offset_inj [of e e' PTABLE_SIZE ?c] mod_offset_inj [of e' e PTABLE_SIZE ?c] e(1,2) e'
    by (metis add_lessD1 add.commute linorder_neqE_nat)
  moreover have "d \<noteq> e" using turn.hyps(6) e(2,4) by auto
  ultimately have "d < e'" using e(3) by simp
  then have "?c + e' = ?c + d + 1 + (e' - d - 1)" by simp
  with e'(1) e(4) have "k = (pid_off (curpid t) + 1 + (e' - d - 1)) mod PTABLE_SIZE" by (metis add.assoc mod_add_left_eq)
  with \<open>d < e'\<close> e'(2) show ?case by (intro exI [of _ "e' - d - 1"]) auto
qed

section \<open>Properties\<close>

definition no_proc :: pcb where
  "no_proc = \<lparr>pid = 0, ppid = 0, rs = RS_NOPROC, return_code = 0, wait_pid = 0,
     fds = replicate MAX_FDS \<lparr>sfile = None, cloexec = False\<rparr>\<rparr>"

definition demo_sys :: ksys where
  "demo_sys = \<lparr>ptable = (replicate PTABLE_SIZE no_proc)
       [0 := no_proc\<lparr>pid := 1024, rs := RS_RUNNING\<rparr>, 1 := no_proc\<lparr>pid := 1025, rs := RS_READY\<rparr>,
        2 := no_proc\<lparr>pid := 1026, rs := RS_READY\<rparr>],
     pt_free = 2, curpid = 1024, nested = False, acq_depth = 0, interrupts = True,
     files = Map.empty, next_file = 1\<rparr>"

lemma demo_slots:
  "i < PTABLE_SIZE \<Longrightarrow> ptable demo_sys ! i =
     (if i = 0 then no_proc\<lparr>pid := 1024, rs := RS_RUNNING\<rparr>
      else if i = 1 then no_proc\<lparr>pid := 1025, rs := RS_READY\<rparr>
      else if i = 2 then no_proc\<lparr>pid := 1026, rs := RS_READY\<rparr> else no_proc)"
  by (simp add: demo_sys_def PTABLE_SIZE_def nth_list_update)

lemma demo_curpid [simp]: "pid_off 1024 = 0" "curpid demo_sys = 1024"
  by (simp_all add: demo_sys_def pid_off_mod PTABLE_SIZE_def)

lemma demo_ok: "sched_ok demo_sys"
proof -
  have "proc_ok demo_sys"
    by (auto simp: proc_ok_def demo_slots no_proc_def pid_off_mod)
      (auto simp: demo_sys_def PTABLE_SIZE_def)
  moreover have "\<not> nested demo_sys" "(0::nat) < PTABLE_SIZE" by (simp_all add: demo_sys_def PTABLE_SIZE_def)
  ultimately show ?thesis by (auto simp: sched_ok_def demo_slots no_proc_def split: if_splits)
qed

lemma demo_len: "length (ptable demo_sys) = PTABLE_SIZE"
  by (simp add: demo_sys_def)

lemma demo_ready:
  "i < PTABLE_SIZE \<Longrightarrow> rs (yielded demo_sys ! i) = RS_READY \<longleftrightarrow> i \<le> 2"
  by (auto simp: yielded_simps demo_len demo_slots no_proc_def)

text \<open>
  Claim C19. The scheduler is round robin: whenever some process is ready (or the current one is
  running), \<open>sched\<close> returns without waiting, leaves exactly the process it chose running, and
  chose the first ready one after the current process, around the table. The lock depth is
  restored.
\<close>

theorem sched_round_robin:
  assumes "sched_ok s" "k < PTABLE_SIZE" "rs (yielded s ! k) = RS_READY"
  shows "\<exists>d s'. sched irqs s = Inr (Some s') \<and> sched_ok s' \<and> acq_depth s' = acq_depth s \<and>
    pid_off (curpid s') = (pid_off (curpid s) + 1 + d) mod PTABLE_SIZE \<and>
    rs (yielded s ! pid_off (curpid s')) = RS_READY \<and>
    (\<forall>j < d. rs (yielded s ! ((pid_off (curpid s) + 1 + j) mod PTABLE_SIZE)) \<noteq> RS_READY) \<and>
    ptable s' = (yielded s)[pid_off (curpid s') := (yielded s ! pid_off (curpid s'))\<lparr>rs := RS_RUNNING\<rparr>]"
  using sched_switches [OF assms] by blast

theorem sched_round_robin_witness:
  "\<exists>d s'. sched [] demo_sys = Inr (Some s') \<and> pid_off (curpid s') = (1 + d) mod PTABLE_SIZE \<and>
     (\<forall>j < d. rs (yielded demo_sys ! ((1 + j) mod PTABLE_SIZE)) \<noteq> RS_READY)"
proof -
  have "(2::nat) < PTABLE_SIZE" by (simp add: PTABLE_SIZE_def)
  with sched_round_robin [OF demo_ok, of 2 "[]"] demo_ready [of 2] show ?thesis by auto
qed

text \<open>
  Claim C20. No process starves: a process that stays ready is passed over in fewer than
  \<open>PTABLE_SIZE\<close> consecutive calls of the scheduler, whatever the other processes and the
  interrupts do in between.
\<close>

theorem sched_no_starvation:
  assumes "k < PTABLE_SIZE" "waits k n s"
  shows "n < PTABLE_SIZE"
  using waits_bound [OF assms] by auto

theorem sched_no_starvation_witness:
  "\<exists>t. waits 2 1 t \<and> 1 < PTABLE_SIZE"
proof -
  have two: "(2::nat) < PTABLE_SIZE" "(1::nat) < PTABLE_SIZE" by (simp_all add: PTABLE_SIZE_def)
  from sched_switches [OF demo_ok two(1), of "[]"] demo_ready [OF two(1)] obtain d t where
    t: "sched [] demo_sys = Inr (Some t)" "pid_off (curpid t) = (1 + d) mod PTABLE_SIZE"
    "\<forall>j < d. rs (yielded demo_sys ! ((1 + j) mod PTABLE_SIZE)) \<noteq> RS_READY" by auto
  have "d = 0" using t(3) [rule_format, of 0] demo_ready [OF two(2)] two(2) by (cases d) auto
  with t(2) two have cur: "pid_off (curpid t) \<noteq> 2" by simp
  have w0: "waits 2 0 demo_sys" by (rule waits.start) simp
  have "rs (ptable demo_sys ! 2) = RS_READY" using two by (simp add: demo_slots)
  from waits.turn [OF w0 demo_ok refl this t(1) cur] have w: "waits 2 1 t" by simp
  with sched_no_starvation [OF two(1) w] show ?thesis by blast
qed

text \<open>
  Claim C21. A new process gets a free slot and a pid that was not in use there before: the pid
  leads to its slot, and the pid the slot's last process had leads nowhere.
\<close>

theorem alloc_proc_pid:
  assumes "proc_ok s" "k < PTABLE_SIZE" "rs (ptable s ! k) = RS_NOPROC"
  shows "\<exists>i s'. alloc_proc s = Inr (Some i, s') \<and> rs (ptable s ! i) = RS_NOPROC \<and> proc_ok s' \<and>
    acq_depth s' = acq_depth s \<and> get_pcb s' (pid (ptable s' ! i)) = Some i \<and>
    (pid_off (pid (ptable s ! i)) = i \<longrightarrow> get_pcb s' (pid (ptable s ! i)) = None)"
proof -
  from alloc_proc_ok [OF assms] obtain i s' where a: "alloc_proc s = Inr (Some i, s')" "i < PTABLE_SIZE"
    "rs (ptable s ! i) = RS_NOPROC" "acq_depth s' = acq_depth s" "proc_ok s'"
    "ptable s' = (ptable s)[i := (ptable s ! i)\<lparr>rs := RS_CREATED,
      pid := make_pid (pid_gen (pid (ptable s ! i)) + 1) i, ppid := - 1\<rparr>]" by blast
  have "i < length (ptable s)" using a(2) assms(1) by (simp add: proc_ok_def)
  with a pid_off_make [OF a(2)] make_pid_fresh [OF a(2)] show ?thesis
    by (intro exI [of _ i] exI [of _ s']) (simp add: get_pcb_def)
qed

theorem alloc_proc_pid_witness:
  "\<exists>i s'. alloc_proc demo_sys = Inr (Some i, s') \<and> get_pcb s' (pid (ptable s' ! i)) = Some i"
proof -
  have "(3::nat) < PTABLE_SIZE" by (simp add: PTABLE_SIZE_def)
  with alloc_proc_pid [of demo_sys 3] demo_ok show ?thesis
    by (auto simp: sched_ok_def demo_slots no_proc_def)
qed

text \<open>
  When the table is full \<open>alloc_proc\<close> returns \<open>NULL\<close> without giving the global lock
  back: the depth stays one too high and interrupts stay off.
\<close>

theorem alloc_proc_full_keeps_lock:
  assumes "proc_ok s" "\<forall>i < PTABLE_SIZE. rs (ptable s ! i) \<noteq> RS_NOPROC"
  shows "\<exists>s'. alloc_proc s = Inr (None, s') \<and> acq_depth s' = acq_depth s + 1 \<and> \<not> interrupts s' \<and>
    is_global_held s'"
  using assms scan_free_none [OF assms(2), of "pt_free s"]
  by (simp add: alloc_proc_def Let_def proc_ok_def is_global_held_def)

theorem alloc_proc_full_keeps_lock_witness:
  "\<exists>s'. alloc_proc (demo_sys\<lparr>ptable := map (\<lambda>i. no_proc\<lparr>pid := of_nat i, rs := RS_BLOCKED\<rparr>) [0..<PTABLE_SIZE]\<rparr>) =
     Inr (None, s') \<and> acq_depth s' = 1 \<and> \<not> interrupts s'"
proof -
  let ?s = "demo_sys\<lparr>ptable := map (\<lambda>i. no_proc\<lparr>pid := of_nat i, rs := RS_BLOCKED\<rparr>) [0..<PTABLE_SIZE]\<rparr>"
  have "proc_ok ?s"
    using demo_ok by (auto simp: proc_ok_def sched_ok_def no_proc_def pid_off_mod PTABLE_SIZE_def unat_of_nat_u32)
  with alloc_proc_full_keeps_lock [of ?s] show ?thesis by (auto simp: demo_sys_def)
qed

end
