(* ===== verification/Sync.thy ===== *)
theory Sync
  imports Proc
begin

text \<open>
  Locks, semaphores and condition variables, \<open>kernel/sync.c\<close>. Every operation runs under the
  global lock, so it is one atomic step of the process that calls it. An operation that has to
  wait queues the process, blocks it and gives up the processor (\<open>sched\<close>); when it runs again
  it tries once more. A step therefore tells whether the operation returned (\<open>True\<close>) or the
  process went to sleep and will retry (\<open>False\<close>). A list node is its address and its contents.
\<close>

section \<open>Locks\<close>

record petix_lock =
  lst :: "(nat \<times> u32) list"
  held_by :: u32
  lcnt :: nat
  locked :: bool
  global :: bool

definition acquire_lock :: "bool \<Rightarrow> nat \<Rightarrow> petix_lock \<Rightarrow> ksys \<Rightarrow> kerr + (bool \<times> petix_lock \<times> ksys)" where
  "acquire_lock slocks node lk s =
     (let s1 = acquire_global s in
      if slocks
      then if locked lk \<and> (held_by lk = get_pid s1 \<or> global lk)
           then kbind (release_global s1) (\<lambda>s2. Inr (True, lk\<lparr>lcnt := lcnt lk + 1\<rparr>, s2))
           else if locked lk
           then (case get_pcb s1 (get_pid s1) of
                   None \<Rightarrow> Inl BadAccess
                 | Some i \<Rightarrow>
                     kbind (release_global (upd_pcb i (\<lambda>p. p\<lparr>rs := RS_BLOCKED\<rparr>) s1)) (\<lambda>s2.
                     Inr (False, lk\<lparr>lst := (node, get_pid s1) # lst lk\<rparr>, s2)))
           else kbind (release_global s1) (\<lambda>s2.
                Inr (True, lk\<lparr>locked := True, held_by := get_pid s1, global := False, lcnt := 0\<rparr>, s2))
      else kbind (kassert (\<not> locked lk)) (\<lambda>_.
           kbind (release_global s1) (\<lambda>s2. Inr (True, lk\<lparr>global := True, locked := True\<rparr>, s2))))"

text \<open>The loop of \<open>release_lock\<close> wakes the processes of the queue.\<close>

fun wake_all :: "(nat \<times> u32) list \<Rightarrow> ksys \<Rightarrow> kerr + ksys" where
  "wake_all [] s = Inr s"
| "wake_all ((node, p) # ns) s =
     (case get_pcb s p of
        None \<Rightarrow> Inl BadAccess
      | Some i \<Rightarrow> wake_all ns (upd_pcb i (\<lambda>q. q\<lparr>rs := RS_READY\<rparr>) s))"

text \<open>
  What the same loop does with the nodes: its step is \<open>lst = lst->next, kfree(lst)\<close>, so it
  frees the node it is about to read. \<open>kfree\<close> leaves the contents of a block in place, and no
  allocation happens in between.
\<close>

datatype node_event = Reads nat | Frees nat

fun wake_events :: "(nat \<times> u32) list \<Rightarrow> node_event list" where
  "wake_events [] = []"
| "wake_events [x] = [Reads (fst x)]"
| "wake_events (x # y # ns) = Reads (fst x) # Frees (fst y) # wake_events (y # ns)"

definition release_lock :: "petix_lock \<Rightarrow> ksys \<Rightarrow> kerr + (petix_lock \<times> node_event list \<times> ksys)" where
  "release_lock lk s =
     (let s1 = acquire_global s in
      if global lk
      then kbind (kassert (locked lk)) (\<lambda>_.
           kbind (release_global s1) (\<lambda>s2. Inr (lk\<lparr>global := False, locked := False\<rparr>, [], s2)))
      else if \<not> (locked lk \<and> (held_by lk = get_pid s1 \<or> global lk)) then Inl Panic
      else if lcnt lk = 0
      then kbind (wake_all (lst lk) s1) (\<lambda>s2.
           kbind (release_global s2) (\<lambda>s3.
           Inr (lk\<lparr>locked := False, held_by := 0, lst := []\<rparr>, wake_events (lst lk), s3)))
      else kbind (release_global s1) (\<lambda>s2. Inr (lk\<lparr>lcnt := lcnt lk - 1\<rparr>, [], s2)))"

section \<open>Semaphores and condition variables\<close>

record petix_sem =
  count :: nat
  slst :: "(u32 \<times> nat) list"

text \<open>
  The loop of \<open>sem_signal\<close>: processes whose need is met are made ready, the others are pushed
  onto \<open>onto\<close>.
\<close>

fun signal_loop :: "nat \<Rightarrow> (u32 \<times> nat) list \<Rightarrow> (u32 \<times> nat) list \<Rightarrow> ksys \<Rightarrow> kerr + ((u32 \<times> nat) list \<times> ksys)" where
  "signal_loop c onto [] s = Inr (onto, s)"
| "signal_loop c onto ((p, needed) # ws) s =
     (if needed \<le> c
      then (case get_pcb s p of
              None \<Rightarrow> Inl BadAccess
            | Some i \<Rightarrow>
                kbind (kassert (rs (ptable s ! i) = RS_BLOCKED)) (\<lambda>_.
                signal_loop c onto ws (upd_pcb i (\<lambda>q. q\<lparr>rs := RS_READY\<rparr>) s)))
      else signal_loop c ((p, needed) # onto) ws s)"

definition sem_signal :: "petix_sem \<Rightarrow> nat \<Rightarrow> ksys \<Rightarrow> kerr + (petix_sem \<times> ksys)" where
  "sem_signal sem n s =
     (let c = (if n = 0 then 1 else (count sem + n) mod 2 ^ 32) in
      kbind (signal_loop c [] (slst sem) (acquire_global s)) (\<lambda>(onto, s1).
      kbind (release_global s1) (\<lambda>s2. Inr (\<lparr>count = c, slst = onto\<rparr>, s2))))"

definition sem_wait :: "petix_sem \<Rightarrow> nat \<Rightarrow> ksys \<Rightarrow> kerr + (bool \<times> petix_sem \<times> ksys)" where
  "sem_wait sem n0 s =
     (let s1 = acquire_global s; n = (if n0 = 0 then 1 else n0) in
      case get_pcb s1 (get_pid s1) of
        None \<Rightarrow> Inl BadAccess
      | Some i \<Rightarrow>
          kbind (kassert (rs (ptable s1 ! i) = RS_RUNNING)) (\<lambda>_.
          if count sem \<ge> n
          then kbind (release_global s1) (\<lambda>s2. Inr (True, sem\<lparr>count := count sem - n\<rparr>, s2))
          else kbind (release_global (upd_pcb i (\<lambda>p. p\<lparr>rs := RS_BLOCKED\<rparr>) s1)) (\<lambda>s2.
               Inr (False, sem\<lparr>slst := (get_pid s1, n) # slst sem\<rparr>, s2))))"

definition cond_wake :: "petix_sem \<Rightarrow> ksys \<Rightarrow> kerr + (petix_sem \<times> ksys)" where
  "cond_wake sem s = sem_signal sem 0 s"

definition cond_wait :: "petix_sem \<Rightarrow> ksys \<Rightarrow> kerr + (bool \<times> petix_sem \<times> ksys)" where
  "cond_wait sem s = sem_wait sem 0 s"

section \<open>Processes that sleep\<close>

text \<open>Process \<open>p\<close> is alive and blocked.\<close>

definition asleep :: "ksys \<Rightarrow> u32 \<Rightarrow> bool" where
  "asleep s p \<longleftrightarrow> get_pcb s p \<noteq> None \<and> rs (ptable s ! pid_off p) = RS_BLOCKED"

definition running :: "ksys \<Rightarrow> bool" where
  "running s \<longleftrightarrow> get_pcb s (curpid s) \<noteq> None \<and> rs (ptable s ! pid_off (curpid s)) = RS_RUNNING"

lemma get_pcb_Some: "get_pcb s p = Some i \<Longrightarrow> i = pid_off p"
  by (auto simp: get_pcb_def Let_def split: if_splits)

lemma get_pcb_frame [simp]:
  "get_pcb (s\<lparr>interrupts := b, acq_depth := d\<rparr>) p = get_pcb s p" "get_pcb (acquire_global s) p = get_pcb s p"
  by (simp_all add: get_pcb_def)

text \<open>Changing the state of one live process to another live state.\<close>

lemma get_pcb_upd_rs:
  assumes "r \<noteq> RS_NOPROC" "get_pcb s q \<noteq> None"
  shows "get_pcb (upd_pcb (pid_off q) (\<lambda>x. x\<lparr>rs := r\<rparr>) s) p = get_pcb s p"
proof (cases "pid_off p = pid_off q \<and> pid_off q < length (ptable s)")
  case True
  have "rs (ptable s ! pid_off q) \<noteq> RS_NOPROC"
    using assms(2) by (simp add: get_pcb_def Let_def split: if_splits)
  with True assms(1) show ?thesis by (simp add: get_pcb_def Let_def)
next
  case False
  then have "(ptable s)[pid_off q := (ptable s ! pid_off q)\<lparr>rs := r\<rparr>] ! pid_off p = ptable s ! pid_off p"
    by (cases "pid_off p = pid_off q") (auto simp: list_update_beyond)
  then show ?thesis by (simp add: get_pcb_def)
qed

lemma asleep_upd:
  assumes "proc_ok s" "asleep s p" "get_pcb s q \<noteq> None" "r \<noteq> RS_NOPROC" "p \<noteq> q"
  shows "asleep (upd_pcb (pid_off q) (\<lambda>x. x\<lparr>rs := r\<rparr>) s) p"
proof -
  have "pid_off p \<noteq> pid_off q"
    using assms(2,3,5) by (simp add: asleep_def get_pcb_def Let_def split: if_splits) metis
  with assms show ?thesis by (simp add: asleep_def get_pcb_upd_rs)
qed

lemma proc_ok_upd_rs:
  assumes "proc_ok s" "get_pcb s q \<noteq> None"
  shows "proc_ok (upd_pcb (pid_off q) (\<lambda>x. x\<lparr>rs := r\<rparr>) s)"
proof -
  have "rs (ptable s ! pid_off q) \<noteq> RS_NOPROC" using assms(2) by (auto simp: get_pcb_def Let_def split: if_splits)
  with assms(1) pid_off_less [of q] show ?thesis
    by (auto simp: proc_ok_def nth_list_update)
qed

text \<open>Waking a list of live processes.\<close>

fun ready_all :: "u32 list \<Rightarrow> ksys \<Rightarrow> ksys" where
  "ready_all [] s = s"
| "ready_all (p # ps) s = ready_all ps (upd_pcb (pid_off p) (\<lambda>q. q\<lparr>rs := RS_READY\<rparr>) s)"

lemma ready_all_simps [simp]:
  "acq_depth (ready_all ps s) = acq_depth s" "curpid (ready_all ps s) = curpid s"
  by (induction ps arbitrary: s) simp_all

lemma ready_all_get:
  "\<forall>p \<in> set ps. get_pcb s p \<noteq> None \<Longrightarrow> get_pcb (ready_all ps s) q = get_pcb s q"
proof (induction ps arbitrary: s)
  case (Cons p ps)
  have same: "get_pcb (upd_pcb (pid_off p) (\<lambda>q. q\<lparr>rs := RS_READY\<rparr>) s) r = get_pcb s r" for r
    using Cons.prems by (intro get_pcb_upd_rs) auto
  with Cons.IH Cons.prems show ?case by simp
qed simp

lemma ready_all_ok:
  "proc_ok s \<Longrightarrow> \<forall>p \<in> set ps. get_pcb s p \<noteq> None \<Longrightarrow> proc_ok (ready_all ps s)"
proof (induction ps arbitrary: s)
  case (Cons p ps)
  have "\<forall>r \<in> set ps. get_pcb (upd_pcb (pid_off p) (\<lambda>q. q\<lparr>rs := RS_READY\<rparr>) s) r \<noteq> None"
    using Cons.prems(2) get_pcb_upd_rs [of RS_READY s p] by simp
  moreover have "proc_ok (upd_pcb (pid_off p) (\<lambda>q. q\<lparr>rs := RS_READY\<rparr>) s)"
    using Cons.prems by (intro proc_ok_upd_rs) auto
  ultimately show ?case using Cons.IH by simp
qed simp

lemma ready_all_rs:
  "proc_ok s \<Longrightarrow> i < PTABLE_SIZE \<Longrightarrow> \<forall>p \<in> set ps. get_pcb s p \<noteq> None \<Longrightarrow>
   rs (ptable (ready_all ps s) ! i) = (if i \<in> pid_off ` set ps then RS_READY else rs (ptable s ! i))"
proof (induction ps arbitrary: s)
  case (Cons p ps)
  let ?s = "upd_pcb (pid_off p) (\<lambda>q. q\<lparr>rs := RS_READY\<rparr>) s"
  have "\<forall>r \<in> set ps. get_pcb ?s r \<noteq> None"
    using Cons.prems(3) get_pcb_upd_rs [of RS_READY s p] by simp
  moreover have "proc_ok ?s" using Cons.prems by (intro proc_ok_upd_rs) auto
  moreover have "rs (ptable ?s ! i) = (if i = pid_off p then RS_READY else rs (ptable s ! i))"
    using Cons.prems(1,2) by (simp add: nth_list_update proc_ok_def pid_off_less)
  ultimately show ?case using Cons.IH [of ?s] Cons.prems(2) by auto
qed simp

lemma ready_all_asleep:
  assumes "proc_ok s" "\<forall>p \<in> set ps. asleep s p" "asleep s q" "q \<notin> set ps"
  shows "asleep (ready_all ps s) q"
proof -
  have live: "\<forall>p \<in> set ps. get_pcb s p \<noteq> None" using assms(2) by (simp add: asleep_def)
  have "pid_off q \<notin> pid_off ` set ps"
  proof
    assume "pid_off q \<in> pid_off ` set ps"
    then obtain p where p: "p \<in> set ps" "pid_off q = pid_off p" by blast
    with live have "get_pcb s p \<noteq> None" "get_pcb s q \<noteq> None" using assms(3) by (auto simp: asleep_def)
    with p(2) have "p = q" by (simp add: get_pcb_def Let_def split: if_splits)
    with p(1) assms(4) show False by simp
  qed
  with ready_all_rs [OF assms(1) pid_off_less live] ready_all_get [OF live] assms(3)
  show ?thesis by (simp add: asleep_def)
qed

lemma wake_all_eq:
  "\<forall>x \<in> set ns. get_pcb s (snd x) \<noteq> None \<Longrightarrow> wake_all ns s = Inr (ready_all (map snd ns) s)"
proof (induction ns arbitrary: s)
  case (Cons x ns)
  obtain node p where x: "x = (node, p)" by fastforce
  have g: "get_pcb s p = Some (pid_off p)" using Cons.prems x by (auto dest: get_pcb_Some)
  then have "get_pcb (upd_pcb (pid_off p) (\<lambda>q. q\<lparr>rs := RS_READY\<rparr>) s) r = get_pcb s r" for r
    by (intro get_pcb_upd_rs) auto
  with Cons x g show ?case by simp
qed simp

section \<open>A lock and the processes that use it\<close>

definition sleepers :: "petix_lock \<Rightarrow> u32 set" where
  "sleepers lk = snd ` set (lst lk)"

lemma sleepers_simps [simp]:
  "sleepers (lk\<lparr>lcnt := n\<rparr>) = sleepers lk" "sleepers (lk\<lparr>lst := (node, p) # ns\<rparr>) = insert p (snd ` set ns)"
  "lst lk = [] \<Longrightarrow> sleepers lk = {}"
  by (simp_all add: sleepers_def)

text \<open>
  A configuration is the lock, the system and how often each process holds the lock. The
  current process acquires or releases it; in between anything may happen that lets another
  running process take over and leaves the sleepers of the queue asleep.
\<close>

type_synonym lock_conf = "petix_lock \<times> ksys \<times> (u32 \<Rightarrow> nat)"

inductive lock_step :: "lock_conf \<Rightarrow> lock_conf \<Rightarrow> bool" where
  acquires: "running s \<Longrightarrow> acquire_lock True node lk s = Inr (True, lk', s') \<Longrightarrow>
    lock_step (lk, s, d) (lk', s', d(curpid s := d (curpid s) + 1))"
| blocks: "running s \<Longrightarrow> acquire_lock True node lk s = Inr (False, lk', s') \<Longrightarrow>
    lock_step (lk, s, d) (lk', s', d)"
| releases: "running s \<Longrightarrow> 0 < d (curpid s) \<Longrightarrow> release_lock lk s = Inr (lk', ev, s') \<Longrightarrow>
    lock_step (lk, s, d) (lk', s', d(curpid s := d (curpid s) - 1))"
| others: "proc_ok s' \<Longrightarrow> running s' \<Longrightarrow> \<forall>p \<in> sleepers lk. asleep s' p \<Longrightarrow>
    lock_step (lk, s, d) (lk, s', d)"

definition new_lock :: petix_lock where
  "new_lock = \<lparr>lst = [], held_by = 0, lcnt = 0, locked = False, global = False\<rparr>"

definition lock_inv :: "lock_conf \<Rightarrow> bool" where
  "lock_inv c = (case c of (lk, s, d) \<Rightarrow>
     proc_ok s \<and> \<not> global lk \<and> (\<forall>p \<in> sleepers lk. asleep s p) \<and>
     (if locked lk then d (held_by lk) = lcnt lk + 1 \<and> (\<forall>q. q \<noteq> held_by lk \<longrightarrow> d q = 0)
      else (\<forall>q. d q = 0) \<and> lst lk = []))"

lemma global_bracket:
  assumes "proc_ok s"
  shows "release_global (acquire_global s) = Inr (s\<lparr>interrupts := (acq_depth s = 0)\<rparr>)"
  using assms by (simp add: release_global_ok proc_ok_def acquire_global_def)

lemma frame_simps [simp]:
  "proc_ok (s\<lparr>interrupts := b\<rparr>) = proc_ok s" "asleep (s\<lparr>interrupts := b\<rparr>) p = asleep s p"
  "get_pcb (s\<lparr>interrupts := b\<rparr>) p = get_pcb s p"
  "asleep (s\<lparr>interrupts := b, acq_depth := d\<rparr>) p = asleep s p"
  "asleep (acquire_global s) p = asleep s p" "proc_ok s \<Longrightarrow> proc_ok (acquire_global s)"
  by (auto simp: proc_ok_def asleep_def get_pcb_def)

lemma running_pcb: "running s \<Longrightarrow> get_pcb s (curpid s) = Some (pid_off (curpid s))"
  by (auto simp: running_def dest: get_pcb_Some)

lemma running_awake: "running s \<Longrightarrow> \<not> asleep s (curpid s)"
  by (simp add: running_def asleep_def)

lemma acquire_blocks:
  assumes "proc_ok s" "running s" "locked lk" "held_by lk \<noteq> curpid s" "\<not> global lk"
  shows "\<exists>s'. acquire_lock True node lk s = Inr (False, lk\<lparr>lst := (node, curpid s) # lst lk\<rparr>, s') \<and>
    proc_ok s' \<and> asleep s' (curpid s) \<and> (\<forall>p. p \<noteq> curpid s \<and> asleep s p \<longrightarrow> asleep s' p)"
proof -
  let ?i = "pid_off (curpid s)"
  let ?u = "upd_pcb ?i (\<lambda>p. p\<lparr>rs := RS_BLOCKED\<rparr>) (acquire_global s)"
  let ?s' = "?u\<lparr>interrupts := (acq_depth s = 0), acq_depth := acq_depth s\<rparr>"
  have g: "get_pcb (acquire_global s) (curpid s) = Some ?i" using running_pcb [OF assms(2)] by simp
  have len: "?i < length (ptable s)" using assms(1) pid_off_less by (simp add: proc_ok_def)
  have "release_global ?u = Inr ?s'" using assms(1) by (simp add: release_global_ok proc_ok_def)
  then have "acquire_lock True node lk s = Inr (False, lk\<lparr>lst := (node, curpid s) # lst lk\<rparr>, ?s')"
    using assms g by (simp add: acquire_lock_def Let_def get_pid_def)
  moreover have "proc_ok ?s'"
    using proc_ok_upd_rs [of "acquire_global s" "curpid s" RS_BLOCKED] g assms(1) by (simp add: proc_ok_def)
  moreover have "asleep ?s' (curpid s)"
    using get_pcb_upd_rs [of RS_BLOCKED "acquire_global s" "curpid s" "curpid s"] g len by (simp add: asleep_def)
  moreover have "asleep ?s' p" if "p \<noteq> curpid s" "asleep s p" for p
    using asleep_upd [of "acquire_global s" p "curpid s" RS_BLOCKED] that g assms(1) by simp
  ultimately show ?thesis by blast
qed

lemma release_ok:
  assumes "proc_ok s" "running s" "\<not> global lk" "locked lk" "held_by lk = curpid s"
    "\<forall>p \<in> sleepers lk. asleep s p"
  shows "\<exists>lk' ev s'. release_lock lk s = Inr (lk', ev, s') \<and> proc_ok s' \<and> \<not> global lk' \<and>
    (if lcnt lk = 0 then \<not> locked lk' \<and> lst lk' = []
     else lk' = lk\<lparr>lcnt := lcnt lk - 1\<rparr> \<and> (\<forall>p. asleep s' p = asleep s p))"
proof (cases "lcnt lk = 0")
  case True
  have "\<forall>x \<in> set (lst lk). get_pcb (acquire_global s) (snd x) \<noteq> None"
    using assms(6) by (simp add: asleep_def sleepers_def)
  with wake_all_eq [of "lst lk" "acquire_global s"]
    ready_all_ok [of "acquire_global s" "map snd (lst lk)"] assms(1) obtain s2 where
    s2: "wake_all (lst lk) (acquire_global s) = Inr s2" "proc_ok s2" "acq_depth s2 = acq_depth s + 1" by auto
  then have "\<exists>s3. release_global s2 = Inr s3 \<and> proc_ok s3"
    using assms(1) by (simp add: release_global_ok proc_ok_def)
  with s2 True assms show ?thesis by (auto simp: release_lock_def Let_def get_pid_def)
next
  case False
  with assms global_bracket [OF assms(1)] show ?thesis by (simp add: release_lock_def Let_def get_pid_def)
qed

lemma lock_holder:
  assumes "lock_inv (lk, s, d)" "0 < d p"
  shows "locked lk \<and> held_by lk = p"
  using assms by (cases "p = held_by lk") (auto simp: lock_inv_def split: if_splits)

lemma lock_inv_step:
  assumes "lock_step c c'" "lock_inv c"
  shows "lock_inv c'"
  using assms
proof (cases rule: lock_step.cases)
  case (acquires s node lk lk' s' d)
  have ok: "proc_ok s" "\<not> global lk" using assms(2) acquires by (auto simp: lock_inv_def)
  show ?thesis
  proof (cases "locked lk")
    case True
    then have "held_by lk = curpid s"
      using acquire_blocks [of s lk node] ok acquires by (cases "held_by lk = curpid s") auto
    with True assms(2) acquires global_bracket [OF ok(1)] show ?thesis
      by (auto simp: lock_inv_def acquire_lock_def Let_def get_pid_def)
  next
    case False
    with assms(2) acquires global_bracket [OF ok(1)] show ?thesis
      by (auto simp: lock_inv_def acquire_lock_def Let_def get_pid_def)
  qed
next
  case (blocks s node lk lk' s' d)
  have ok: "proc_ok s" "\<not> global lk" using assms(2) blocks by (auto simp: lock_inv_def)
  have "locked lk" "held_by lk \<noteq> curpid s"
    using blocks global_bracket [OF ok(1)] ok(2)
    by (auto simp: acquire_lock_def Let_def get_pid_def split: if_splits)
  note lk = this
  from acquire_blocks [OF ok(1) blocks(3) lk ok(2), of node] blocks(4) have
    s': "lk' = lk\<lparr>lst := (node, curpid s) # lst lk\<rparr>" "proc_ok s'" "asleep s' (curpid s)"
    "\<forall>p. p \<noteq> curpid s \<and> asleep s p \<longrightarrow> asleep s' p" by auto
  have "\<forall>p \<in> sleepers lk. asleep s p" using assms(2) blocks(1) by (simp add: lock_inv_def)
  with running_awake [OF blocks(3)] s'(4) have "\<forall>p \<in> sleepers lk. asleep s' p" by metis
  with s' lk ok(2) assms(2) blocks(1,2) show ?thesis by (auto simp: lock_inv_def sleepers_def [symmetric])
next
  case (releases s d lk lk' ev s')
  have ok: "proc_ok s" "\<not> global lk" "\<forall>p \<in> sleepers lk. asleep s p"
    using assms(2) releases by (auto simp: lock_inv_def)
  have "locked lk" "held_by lk = curpid s" using lock_holder assms(2) releases by auto
  from release_ok [OF ok(1) releases(3) ok(2) this ok(3)] releases assms(2) this show ?thesis
    by (auto simp: lock_inv_def split: if_splits)
next
  case (others s' lk s d)
  with assms(2) show ?thesis by (auto simp: lock_inv_def)
qed

lemma lock_inv_reach:
  assumes "lock_step\<^sup>*\<^sup>* (new_lock, s, \<lambda>_. 0) c" "proc_ok s"
  shows "lock_inv c"
  using assms(1)
proof (induction rule: rtranclp_induct)
  case base
  with assms(2) show ?case by (simp add: lock_inv_def new_lock_def sleepers_def)
next
  case (step c c')
  then show ?case using lock_inv_step by blast
qed

section \<open>Semaphores: nobody sleeps who could go on\<close>

text \<open>The processes of the queue are asleep, once each, and need more than there is.\<close>

definition sem_inv :: "petix_sem \<Rightarrow> ksys \<Rightarrow> bool" where
  "sem_inv sem s \<longleftrightarrow> proc_ok s \<and> count sem < 2 ^ 32 \<and> distinct (map fst (slst sem)) \<and>
     (\<forall>w \<in> set (slst sem). asleep s (fst w) \<and> count sem < snd w)"

lemma signal_loop_eq:
  assumes "proc_ok s" "distinct (map fst ws)" "\<forall>w \<in> set ws. asleep s (fst w)"
  shows "signal_loop c onto ws s = Inr (rev (filter (\<lambda>w. c < snd w) ws) @ onto,
    ready_all (map fst (filter (\<lambda>w. snd w \<le> c) ws)) s)"
  using assms
proof (induction ws arbitrary: onto s)
  case (Cons w ws)
  obtain p n where w: "w = (p, n)" by fastforce
  show ?case
  proof (cases "n \<le> c")
    case True
    let ?s = "upd_pcb (pid_off p) (\<lambda>q. q\<lparr>rs := RS_READY\<rparr>) s"
    have g: "get_pcb s p = Some (pid_off p)" "rs (ptable s ! pid_off p) = RS_BLOCKED"
      using Cons.prems(3) w by (auto simp: asleep_def dest: get_pcb_Some)
    have "\<forall>v \<in> set ws. asleep ?s (fst v)"
    proof
      fix v assume v: "v \<in> set ws"
      then have "fst v \<noteq> p" using Cons.prems(2) w by force
      with v Cons.prems(1,3) g show "asleep ?s (fst v)" by (intro asleep_upd) auto
    qed
    moreover have "proc_ok ?s" using proc_ok_upd_rs [OF Cons.prems(1)] g by simp
    ultimately show ?thesis using Cons.IH [of ?s onto] Cons.prems(2) True g w by simp
  next
    case False
    with Cons.IH [of s "(p, n) # onto"] Cons.prems w show ?thesis by simp
  qed
qed simp

lemma sem_signal_ok:
  assumes "sem_inv sem s"
  shows "\<exists>sem' s'. sem_signal sem n s = Inr (sem', s') \<and> sem_inv sem' s' \<and>
    count sem' = (if n = 0 then 1 else (count sem + n) mod 2 ^ 32) \<and>
    slst sem' = rev (filter (\<lambda>w. count sem' < snd w) (slst sem)) \<and>
    (\<forall>w \<in> set (slst sem). snd w \<le> count sem' \<longrightarrow> rs (ptable s' ! pid_off (fst w)) = RS_READY)"
proof -
  define c where "c = (if n = 0 then 1 else (count sem + n) mod 2 ^ 32)"
  let ?woken = "map fst (filter (\<lambda>w. snd w \<le> c) (slst sem))"
  let ?u = "ready_all ?woken (acquire_global s)"
  let ?s = "?u\<lparr>interrupts := (acq_depth s = 0), acq_depth := acq_depth s\<rparr>"
  let ?sem = "\<lparr>count = c, slst = rev (filter (\<lambda>w. c < snd w) (slst sem))\<rparr>"
  have ok: "proc_ok (acquire_global s)" "distinct (map fst (slst sem))"
    "\<forall>w \<in> set (slst sem). asleep (acquire_global s) (fst w)" using assms by (auto simp: sem_inv_def)
  have live: "\<forall>p \<in> set ?woken. get_pcb (acquire_global s) p \<noteq> None" using ok(3) by (auto simp: asleep_def)
  have "0 \<le> acq_depth s" using assms by (simp add: sem_inv_def proc_ok_def)
  then have "sem_signal sem n s = Inr (?sem, ?s)"
    using signal_loop_eq [OF ok] by (simp add: sem_signal_def Let_def c_def [symmetric] release_global_ok)
  moreover have "proc_ok ?s"
    using ready_all_ok [OF ok(1) live] \<open>0 \<le> acq_depth s\<close> by (simp add: proc_ok_def)
  moreover have "asleep ?s (fst w)" if "w \<in> set (slst sem)" "c < snd w" for w
  proof -
    have "fst w \<notin> set ?woken"
      using that ok(2) by (auto simp: distinct_map dest!: inj_onD)
    then have "asleep ?u (fst w)" using ok that by (intro ready_all_asleep) auto
    then show ?thesis by simp
  qed
  moreover have "rs (ptable ?s ! pid_off (fst w)) = RS_READY" if "w \<in> set (slst sem)" "snd w \<le> c" for w
    using ready_all_rs [OF ok(1) pid_off_less live, of "fst w"] that by auto
  moreover have "distinct (map fst (slst ?sem))"
    using ok(2) by (simp add: rev_map [symmetric] distinct_map_filter)
  moreover have "c < 2 ^ 32" by (simp add: c_def)
  ultimately show ?thesis
    by (intro exI [of _ ?sem] exI [of _ ?s]) (auto simp: sem_inv_def c_def [symmetric])
qed

lemma sem_wait_ok:
  fixes n :: nat
  assumes "sem_inv sem s" "running s"
  defines "need \<equiv> (if n = 0 then 1 else n)"
  shows "\<exists>s'. sem_wait sem n s =
      Inr (if need \<le> count sem then (True, sem\<lparr>count := count sem - need\<rparr>, s')
           else (False, sem\<lparr>slst := (curpid s, need) # slst sem\<rparr>, s')) \<and>
    sem_inv (if need \<le> count sem then sem\<lparr>count := count sem - need\<rparr>
             else sem\<lparr>slst := (curpid s, need) # slst sem\<rparr>) s'"
proof -
  let ?i = "pid_off (curpid s)"
  have g: "get_pcb (acquire_global s) (curpid s) = Some ?i" "rs (ptable s ! ?i) = RS_RUNNING"
    using running_pcb [OF assms(2)] assms(2) by (auto simp: running_def)
  have ok: "proc_ok s" "0 \<le> acq_depth s" using assms(1) by (auto simp: sem_inv_def proc_ok_def)
  show ?thesis
  proof (cases "need \<le> count sem")
    case True
    with g global_bracket [OF ok(1)] assms(1) show ?thesis
      by (auto simp: sem_wait_def Let_def get_pid_def need_def [symmetric] sem_inv_def)
  next
    case False
    let ?u = "upd_pcb ?i (\<lambda>p. p\<lparr>rs := RS_BLOCKED\<rparr>) (acquire_global s)"
    let ?s = "?u\<lparr>interrupts := (acq_depth s = 0), acq_depth := acq_depth s\<rparr>"
    have rel: "release_global ?u = Inr ?s" using ok by (simp add: release_global_ok)
    have awake: "\<not> asleep s (curpid s)" by (rule running_awake [OF assms(2)])
    have "proc_ok ?s"
      using proc_ok_upd_rs [of "acquire_global s" "curpid s" RS_BLOCKED] g ok by (simp add: proc_ok_def)
    moreover have "asleep ?s (curpid s)"
      using get_pcb_upd_rs [of RS_BLOCKED "acquire_global s" "curpid s" "curpid s"] g ok pid_off_less
      by (simp add: asleep_def proc_ok_def)
    moreover have "asleep ?s p" if "asleep s p" for p
    proof -
      have "p \<noteq> curpid s" using that awake by auto
      with asleep_upd [of "acquire_global s" p "curpid s" RS_BLOCKED] that g ok show ?thesis by simp
    qed
    moreover have "curpid s \<notin> fst ` set (slst sem)" using assms(1) awake by (auto simp: sem_inv_def)
    ultimately have "sem_inv (sem\<lparr>slst := (curpid s, need) # slst sem\<rparr>) ?s"
      using assms(1) False by (auto simp: sem_inv_def)
    moreover have "sem_wait sem n s = Inr (False, sem\<lparr>slst := (curpid s, need) # slst sem\<rparr>, ?s)"
      using rel g False by (simp add: sem_wait_def Let_def get_pid_def need_def [symmetric])
    ultimately show ?thesis using False by auto
  qed
qed

text \<open>A semaphore in use: \<open>granted\<close> and \<open>signalled\<close> count the units handed out and put in.\<close>

type_synonym sem_conf = "petix_sem \<times> ksys \<times> nat \<times> nat"

inductive sem_step :: "sem_conf \<Rightarrow> sem_conf \<Rightarrow> bool" where
  signals: "0 < n \<Longrightarrow> sem_signal sem n s = Inr (sem', s') \<Longrightarrow>
    sem_step (sem, s, granted, signalled) (sem', s', granted, signalled + n)"
| takes: "0 < n \<Longrightarrow> running s \<Longrightarrow> sem_wait sem n s = Inr (True, sem', s') \<Longrightarrow>
    sem_step (sem, s, granted, signalled) (sem', s', granted + n, signalled)"
| sleeps: "0 < n \<Longrightarrow> running s \<Longrightarrow> sem_wait sem n s = Inr (False, sem', s') \<Longrightarrow>
    sem_step (sem, s, granted, signalled) (sem', s', granted, signalled)"
| others: "proc_ok s' \<Longrightarrow> running s' \<Longrightarrow> \<forall>w \<in> set (slst sem). asleep s' (fst w) \<Longrightarrow>
    sem_step (sem, s, granted, signalled) (sem, s', granted, signalled)"

definition conserved :: "nat \<Rightarrow> sem_conf \<Rightarrow> bool" where
  "conserved c0 c = (case c of (sem, s, granted, signalled) \<Rightarrow>
     sem_inv sem s \<and> (c0 + signalled < 2 ^ 32 \<longrightarrow> count sem + granted = c0 + signalled))"

lemma conserved_step:
  assumes "sem_step c c'" "conserved c0 c"
  shows "conserved c0 c'"
  using assms
proof (cases rule: sem_step.cases)
  case (signals n sem s sem' s' granted signalled)
  then have "sem_inv sem s" using assms(2) by (simp add: conserved_def)
  from sem_signal_ok [OF this, of n] signals assms(2) show ?thesis by (auto simp: conserved_def)
next
  case (takes n s sem sem' s' granted signalled)
  then have "sem_inv sem s" using assms(2) by (simp add: conserved_def)
  from sem_wait_ok [OF this takes(4), of n] takes assms(2) show ?thesis
    by (auto simp: conserved_def split: if_splits)
next
  case (sleeps n s sem sem' s' granted signalled)
  then have "sem_inv sem s" using assms(2) by (simp add: conserved_def)
  from sem_wait_ok [OF this sleeps(4), of n] sleeps assms(2) show ?thesis
    by (auto simp: conserved_def split: if_splits)
next
  case (others s' sem s granted signalled)
  with assms(2) show ?thesis by (auto simp: conserved_def sem_inv_def)
qed

lemma conserved_reach:
  assumes "sem_step\<^sup>*\<^sup>* (\<lparr>count = c0, slst = []\<rparr>, s, 0, 0) c" "proc_ok s" "c0 < 2 ^ 32"
  shows "conserved c0 c"
  using assms(1)
proof (induction rule: rtranclp_induct)
  case base
  with assms(2,3) show ?case by (simp add: conserved_def sem_inv_def)
next
  case (step c c')
  then show ?case using conserved_step by blast
qed

section \<open>Properties\<close>

lemma demo_running: "running demo_sys" "proc_ok demo_sys"
proof -
  have "(0::nat) < PTABLE_SIZE" by (simp add: PTABLE_SIZE_def)
  then show "running demo_sys" by (simp add: running_def get_pcb_def demo_slots no_proc_def)
  show "proc_ok demo_sys" using demo_ok by (simp add: sched_ok_def)
qed

text \<open>
  Claim C7. Locks exclude: however processes acquire, re-acquire, wait for and release a lock,
  two different processes never hold it at once. Nobody is left in the queue of a free lock, and
  the holder can always release it.
\<close>

theorem lock_mutual_exclusion:
  assumes "lock_step\<^sup>*\<^sup>* (new_lock, s0, \<lambda>_. 0) (lk, s, d)" "proc_ok s0"
  shows "(0 < d p \<and> 0 < d q \<longrightarrow> p = q) \<and> (\<not> locked lk \<longrightarrow> lst lk = []) \<and>
    (running s \<and> 0 < d (curpid s) \<longrightarrow> (\<exists>lk' ev s'. release_lock lk s = Inr (lk', ev, s')))"
proof -
  note inv = lock_inv_reach [OF assms]
  have "p = q" if "0 < d p" "0 < d q" using lock_holder [OF inv that(1)] lock_holder [OF inv that(2)] by simp
  moreover have "\<not> locked lk \<longrightarrow> lst lk = []" using inv by (simp add: lock_inv_def)
  moreover have "\<exists>lk' ev s'. release_lock lk s = Inr (lk', ev, s')" if r: "running s" "0 < d (curpid s)"
  proof -
    have "proc_ok s" "\<not> global lk" "\<forall>p \<in> sleepers lk. asleep s p" using inv by (auto simp: lock_inv_def)
    with release_ok [of s lk] lock_holder [OF inv r(2)] r(1) show ?thesis by blast
  qed
  ultimately show ?thesis by blast
qed

theorem lock_mutual_exclusion_witness:
  "\<exists>lk s d. lock_step\<^sup>*\<^sup>* (new_lock, demo_sys, \<lambda>_. 0) (lk, s, d) \<and> 0 < d 1024 \<and>
     (\<exists>lk' ev s'. release_lock lk s = Inr (lk', ev, s'))"
proof -
  have "acquire_lock True 0 new_lock demo_sys =
    Inr (True, new_lock\<lparr>locked := True, held_by := 1024, global := False, lcnt := 0\<rparr>,
      demo_sys\<lparr>interrupts := (acq_depth demo_sys = 0)\<rparr>)"
    using global_bracket [OF demo_running(2)] by (simp add: acquire_lock_def Let_def get_pid_def new_lock_def)
  from lock_step.acquires [OF demo_running(1) this, of "\<lambda>_. 0"]
  have r: "lock_step\<^sup>*\<^sup>* (new_lock, demo_sys, \<lambda>_. 0) (new_lock\<lparr>locked := True, held_by := 1024, global := False, lcnt := 0\<rparr>,
      demo_sys\<lparr>interrupts := (acq_depth demo_sys = 0)\<rparr>, (\<lambda>_. 0)(1024 := 1))" by (intro r_into_rtranclp) simp
  moreover have "running (demo_sys\<lparr>interrupts := (acq_depth demo_sys = 0)\<rparr>)"
    using demo_running(1) by (simp add: running_def)
  ultimately show ?thesis using lock_mutual_exclusion [OF r demo_running(2), of 1024 1025]
    by (intro exI [of _ "new_lock\<lparr>locked := True, held_by := 1024, global := False, lcnt := 0\<rparr>"]
        exI [of _ "demo_sys\<lparr>interrupts := (acq_depth demo_sys = 0)\<rparr>"] exI [of _ "(\<lambda>_. 0)(1024 := 1)"]) simp
qed



text \<open>
  Releasing a lock with two or more waiters frees the second node of the queue before
  reading it, and never frees the first.
\<close>

theorem release_lock_frees_before_reading:
  assumes "release_lock lk s = Inr (lk', ev, s')" "\<not> global lk" "lcnt lk = 0" "lst lk = x # y # ns"
    "distinct (map fst (lst lk))"
  shows "Frees (fst x) \<notin> set ev \<and>
    (\<exists>us vs. ev = us @ Frees (fst y) # vs \<and> Reads (fst y) \<notin> set us \<and> Reads (fst y) \<in> set vs)"
proof -
  have nofree: "Frees n \<notin> set (wake_events (z # zs))" if "n \<notin> fst ` set zs" for n z zs
    using that by (induction "z # zs" arbitrary: z zs rule: wake_events.induct) auto
  have "Reads (fst y) \<in> set (wake_events (y # ns))" by (cases ns) auto
  moreover have "ev = wake_events (lst lk)"
    using assms(1-3) by (auto simp: release_lock_def Let_def kres split: if_splits)
  ultimately have ev: "ev = [Reads (fst x)] @ Frees (fst y) # wake_events (y # ns)"
    "Reads (fst y) \<in> set (wake_events (y # ns))" using assms(4) by simp_all
  moreover have "Reads (fst y) \<notin> set [Reads (fst x)]" using assms(4,5) by simp
  moreover have "Frees (fst x) \<notin> set ev" using nofree [of "fst x" ns y] assms(4,5) ev(1) by simp
  ultimately show ?thesis by blast
qed

theorem release_lock_frees_before_reading_witness:
  "\<exists>ev. (\<exists>lk' s'. release_lock (new_lock\<lparr>locked := True, held_by := 1024, lst := [(10, 1025), (20, 1026)]\<rparr>) demo_sys =
       Inr (lk', ev, s')) \<and>
     (\<exists>us vs. ev = us @ Frees 20 # vs \<and> Reads 20 \<in> set vs)"
proof -
  let ?lk = "new_lock\<lparr>locked := True, held_by := 1024, lst := [(10, 1025), (20, 1026)]\<rparr>"
  have "(1::nat) < PTABLE_SIZE" "(2::nat) < PTABLE_SIZE" "pid_off 1025 = 1" "pid_off 1026 = 2"
    by (simp_all add: PTABLE_SIZE_def pid_off_mod)
  then have live: "\<forall>x \<in> set (lst ?lk). get_pcb (acquire_global demo_sys) (snd x) \<noteq> None"
    by (simp add: get_pcb_def demo_slots no_proc_def)
  from wake_all_eq [OF this] have w: "\<exists>u. wake_all (lst ?lk) (acquire_global demo_sys) = Inr u \<and> acq_depth u = 1"
    by (simp add: demo_sys_def)
  then obtain lk' ev s' where r: "release_lock ?lk demo_sys = Inr (lk', ev, s')"
    by (auto simp: release_lock_def Let_def get_pid_def new_lock_def release_global_ok)
  from release_lock_frees_before_reading [OF r] r show ?thesis by (auto simp: new_lock_def)
qed

end
