(* ===== verification/Pipe.thy ===== *)
theory Pipe
  imports Sync
begin

unbundle bit_operations_syntax

text \<open>
  Pipes, \<open>kernel/pipe.c\<close>: a ring buffer of 4096 bytes that holds at most 4095. \<open>pread\<close> and
  \<open>pwrite\<close> go round a loop: under the pipe's lock they move as many bytes as they can, wake the
  other side, and wait on a condition variable for the rest. One turn of the loop under the lock
  is one function here; it tells which condition variable it wakes and how the loop goes on.
\<close>

section \<open>The source\<close>

definition PIPE_SIZE :: nat where "PIPE_SIZE = 4096"
definition READ_END :: u64 where "READ_END = 0x100000000"
definition WRITE_END :: u64 where "WRITE_END = 0x200000000"

record pipe =
  powrite :: bool
  poread :: bool
  plo :: nat
  phi :: nat
  pbuf :: "byte list"

text \<open>What a turn of the loop ends with: return to the caller, or wait and go round again.\<close>

datatype turn_end = Return | Again

text \<open>The inner loops.\<close>

fun drain :: "nat \<Rightarrow> pipe \<Rightarrow> byte list \<times> nat \<times> pipe" where
  "drain 0 p = ([], 0, p)"
| "drain (Suc n) p =
     (if phi p \<noteq> plo p
      then case drain n (p\<lparr>plo := (plo p + 1) mod PIPE_SIZE\<rparr>) of
             (bs, left, p') \<Rightarrow> (pbuf p ! plo p # bs, left, p')
      else ([], Suc n, p))"

fun fill :: "byte list \<Rightarrow> pipe \<Rightarrow> byte list \<times> pipe" where
  "fill [] p = ([], p)"
| "fill (b # bs) p =
     (if (phi p + 1) mod PIPE_SIZE \<noteq> plo p
      then fill bs (p\<lparr>pbuf := (pbuf p)[phi p := b], phi := (phi p + 1) mod PIPE_SIZE\<rparr>)
      else (b # bs, p))"

text \<open>The tests on the file before the loop: a value to return at once, or \<open>None\<close>.\<close>

definition pread_check :: "u64 \<Rightarrow> int option" where
  "pread_check pd = (if pd = 0 then Some 0 else if pd AND READ_END = 0 then Some (err EPERM) else None)"

definition pwrite_check :: "u64 \<Rightarrow> int option" where
  "pwrite_check pd = (if pd = 0 then Some 0 else if pd AND WRITE_END = 0 then Some (err EPERM) else None)"

text \<open>
  A turn of \<open>pread\<close> with \<open>n\<close> bytes to go: the bytes read, the bytes still to go, whether the
  writers are woken, and how the loop goes on.
\<close>

definition pread_turn :: "nat \<Rightarrow> pipe \<Rightarrow> byte list \<times> nat \<times> bool \<times> turn_end \<times> pipe" where
  "pread_turn n p =
     (case drain n p of (bs, left, p1) \<Rightarrow>
        (bs, left, (phi p1 + 1) mod PIPE_SIZE \<noteq> plo p1,
         (if \<not> powrite p1 \<and> phi p1 = plo p1 then Return else if left > 0 then Again else Return), p1))"

text \<open>A turn of \<open>pwrite\<close>, after the unlocked test of \<open>oread\<close>.\<close>

definition pwrite_turn :: "byte list \<Rightarrow> pipe \<Rightarrow> byte list \<times> bool \<times> turn_end \<times> pipe" where
  "pwrite_turn bs p =
     (case fill bs p of (rest, p1) \<Rightarrow>
        (rest, phi p1 \<noteq> plo p1, (if rest \<noteq> [] then Again else Return), p1))"

text \<open>
  \<open>pclose\<close> closes one end and wakes both sides; the last one to close frees the pipe. The result
  tells whether the pipe is freed and the file's new \<open>private_data\<close>.
\<close>

definition pclose :: "u64 \<Rightarrow> pipe \<Rightarrow> bool \<times> u64 \<times> pipe" where
  "pclose pd p =
     (if pd = 0 then (False, pd, p)
      else
        let p1 = (if pd AND READ_END \<noteq> 0 then p\<lparr>poread := False\<rparr>
                  else if pd AND WRITE_END \<noteq> 0 then p\<lparr>powrite := False\<rparr> else p)
        in if \<not> poread p1 \<and> \<not> powrite p1 then (True, 0, p1) else (False, pd, p1))"

text \<open>\<open>open_pipe\<close>: \<open>addr\<close> is the address \<open>kmalloc\<close> returns for the zeroed structure.\<close>

definition open_pipe :: "u32 \<Rightarrow> kfile \<Rightarrow> kfile \<Rightarrow> pipe \<times> kfile \<times> kfile" where
  "open_pipe addr rfile wfile =
     (\<lparr>powrite = True, poread = True, plo = 0, phi = 0, pbuf = replicate PIPE_SIZE 0\<rparr>,
      rfile\<lparr>ffops := Some Pipe_fops, fprivate := READ_END OR ucast addr\<rparr>,
      wfile\<lparr>ffops := Some Pipe_fops, fprivate := WRITE_END OR ucast addr\<rparr>)"

section \<open>The bytes in the ring\<close>

definition ring_len :: "pipe \<Rightarrow> nat" where
  "ring_len p = (if plo p \<le> phi p then phi p - plo p else phi p + PIPE_SIZE - plo p)"

definition ring_bytes :: "pipe \<Rightarrow> byte list" where
  "ring_bytes p = map (\<lambda>i. pbuf p ! ((plo p + i) mod PIPE_SIZE)) [0..<ring_len p]"

definition pipe_ok :: "pipe \<Rightarrow> bool" where
  "pipe_ok p \<longleftrightarrow> length (pbuf p) = PIPE_SIZE \<and> plo p < PIPE_SIZE \<and> phi p < PIPE_SIZE"

definition ring_full :: "pipe \<Rightarrow> bool" where
  "ring_full p \<longleftrightarrow> (phi p + 1) mod PIPE_SIZE = plo p"

lemma length_ring_bytes [simp]: "length (ring_bytes p) = ring_len p"
  by (simp add: ring_bytes_def)

lemma ring_bytes_empty: "pipe_ok p \<Longrightarrow> ring_bytes p = [] \<longleftrightarrow> phi p = plo p"
  by (auto simp: ring_bytes_def ring_len_def pipe_ok_def split: if_splits)

lemma Suc_mod_ring: "i < PIPE_SIZE \<Longrightarrow> Suc i mod PIPE_SIZE = (if Suc i = PIPE_SIZE then 0 else Suc i)"
  by auto

lemma ring_full_len: "pipe_ok p \<Longrightarrow> ring_full p \<longleftrightarrow> ring_len p = PIPE_SIZE - 1"
  by (auto simp: ring_full_def ring_len_def pipe_ok_def Suc_mod_ring split: if_splits)

lemma ring_len_less: "pipe_ok p \<Longrightarrow> ring_len p < PIPE_SIZE"
  by (auto simp: ring_len_def pipe_ok_def)

lemma ring_bytes_pop:
  assumes "pipe_ok p" "phi p \<noteq> plo p"
  shows "ring_bytes p = pbuf p ! plo p # ring_bytes (p\<lparr>plo := (plo p + 1) mod PIPE_SIZE\<rparr>)"
    "pipe_ok (p\<lparr>plo := (plo p + 1) mod PIPE_SIZE\<rparr>)"
proof -
  let ?q = "p\<lparr>plo := (plo p + 1) mod PIPE_SIZE\<rparr>"
  have len: "ring_len p = Suc (ring_len ?q)"
    using assms by (auto simp: ring_len_def pipe_ok_def Suc_mod_ring)
  have "((plo p + 1) mod PIPE_SIZE + i) mod PIPE_SIZE = (plo p + Suc i) mod PIPE_SIZE" for i
    by (simp add: mod_simps)
  then show "ring_bytes p = pbuf p ! plo p # ring_bytes ?q"
    using assms(1) by (simp add: ring_bytes_def len [simplified] map_upt_Suc pipe_ok_def del: upt_Suc)
  show "pipe_ok ?q" using assms(1) by (auto simp: pipe_ok_def)
qed

lemma ring_bytes_push:
  assumes "pipe_ok p" "\<not> ring_full p"
  shows "ring_bytes (p\<lparr>pbuf := (pbuf p)[phi p := b], phi := (phi p + 1) mod PIPE_SIZE\<rparr>) = ring_bytes p @ [b]"
    "pipe_ok (p\<lparr>pbuf := (pbuf p)[phi p := b], phi := (phi p + 1) mod PIPE_SIZE\<rparr>)"
proof -
  let ?q = "p\<lparr>pbuf := (pbuf p)[phi p := b], phi := (phi p + 1) mod PIPE_SIZE\<rparr>"
  have len: "ring_len ?q = Suc (ring_len p)"
    using assms by (auto simp: ring_len_def pipe_ok_def ring_full_def Suc_mod_ring split: if_splits)
  have last: "(plo p + ring_len p) mod PIPE_SIZE = phi p"
    using assms(1) by (auto simp: ring_len_def pipe_ok_def)
  have "(pbuf p)[phi p := b] ! ((plo p + i) mod PIPE_SIZE) = pbuf p ! ((plo p + i) mod PIPE_SIZE)"
    if "i < ring_len p" for i
    using mod_offset_inj [OF that ring_len_less [OF assms(1)], of "plo p"] last by simp
  then show "ring_bytes ?q = ring_bytes p @ [b]"
    using assms(1) last by (simp add: ring_bytes_def len [simplified] pipe_ok_def)
  show "pipe_ok ?q" using assms(1) by (auto simp: pipe_ok_def)
qed

lemma drain_ok:
  assumes "pipe_ok p" "drain n p = (bs, left, p')"
  shows "pipe_ok p' \<and> ring_bytes p = bs @ ring_bytes p' \<and> n = length bs + left \<and>
    (0 < left \<longrightarrow> ring_bytes p' = []) \<and> powrite p' = powrite p \<and> poread p' = poread p"
  using assms
proof (induction n arbitrary: p bs)
  case (Suc n)
  show ?case
  proof (cases "phi p = plo p")
    case True
    with Suc.prems show ?thesis by (auto simp: ring_bytes_empty)
  next
    case False
    let ?q = "p\<lparr>plo := (plo p + 1) mod PIPE_SIZE\<rparr>"
    obtain cs where d: "drain n ?q = (cs, left, p')" "bs = pbuf p ! plo p # cs"
      using Suc.prems(2) False by (auto split: prod.splits)
    with Suc.IH [OF ring_bytes_pop(2) [OF Suc.prems(1) False] d(1)] ring_bytes_pop(1) [OF Suc.prems(1) False]
    show ?thesis by simp
  qed
qed simp

lemma fill_ok:
  assumes "pipe_ok p" "fill bs p = (rest, p')"
  shows "pipe_ok p' \<and> (\<exists>moved. bs = moved @ rest \<and> ring_bytes p' = ring_bytes p @ moved) \<and>
    (rest \<noteq> [] \<longrightarrow> ring_full p') \<and> powrite p' = powrite p \<and> poread p' = poread p"
  using assms
proof (induction bs arbitrary: p)
  case (Cons b bs)
  show ?case
  proof (cases "ring_full p")
    case True
    with Cons.prems show ?thesis by (auto simp: ring_full_def)
  next
    case False
    let ?q = "p\<lparr>pbuf := (pbuf p)[phi p := b], phi := (phi p + 1) mod PIPE_SIZE\<rparr>"
    from Cons.prems(2) False have f: "fill bs ?q = (rest, p')" by (simp add: ring_full_def)
    from Cons.IH [OF ring_bytes_push(2) [OF Cons.prems(1) False] f] ring_bytes_push(1) [OF Cons.prems(1) False]
    show ?thesis by auto
  qed
qed simp

section \<open>A reader and a writer\<close>

text \<open>
  A reader process and a writer process on one pipe. Each is between two turns (\<open>Turn\<close>), after the
  writer's test of \<open>oread\<close> (\<open>Locked\<close>), at its condition variable (\<open>Wait\<close>) or back in user
  space (\<open>Idle\<close>). The condition variables are binary semaphores: waking sets the token, waiting
  takes it, and a process that waits without a token sleeps.
\<close>

datatype reader = RIdle | RTurn nat | RWait nat
datatype writer = WIdle | WTurn "byte list" | WLocked "byte list" | WWait "byte list"

record pipe_conf =
  cp :: pipe
  cr :: reader
  cw :: writer
  rtok :: bool
  wtok :: bool
  got :: "byte list"   \<comment> \<open>all bytes read so far\<close>
  sent :: "byte list"  \<comment> \<open>all bytes put into the pipe so far\<close>

inductive pipe_step :: "pipe_conf \<Rightarrow> pipe_conf \<Rightarrow> bool" where
  starts_read: "cr c = RIdle \<Longrightarrow> poread (cp c) \<Longrightarrow> 0 < n \<Longrightarrow> pipe_step c (c\<lparr>cr := RTurn n\<rparr>)"
| read_turn: "cr c = RTurn n \<Longrightarrow> pread_turn n (cp c) = (bs, left, wake, e, p) \<Longrightarrow>
    pipe_step c (c\<lparr>cp := p, cr := (case e of Return \<Rightarrow> RIdle | Again \<Rightarrow> RWait left),
                   wtok := (wake \<or> wtok c), got := got c @ bs\<rparr>)"
| read_wake: "cr c = RWait n \<Longrightarrow> rtok c \<Longrightarrow> pipe_step c (c\<lparr>cr := RTurn n, rtok := False\<rparr>)"
| starts_write: "cw c = WIdle \<Longrightarrow> powrite (cp c) \<Longrightarrow> bs \<noteq> [] \<Longrightarrow> pipe_step c (c\<lparr>cw := WTurn bs\<rparr>)"
| write_test: "cw c = WTurn bs \<Longrightarrow>
    pipe_step c (c\<lparr>cw := (if poread (cp c) then WLocked bs else WIdle)\<rparr>)"
| write_turn: "cw c = WLocked bs \<Longrightarrow> pwrite_turn bs (cp c) = (rest, wake, e, p) \<Longrightarrow>
    pipe_step c (c\<lparr>cp := p, cw := (case e of Return \<Rightarrow> WIdle | Again \<Rightarrow> WWait rest),
                   rtok := (wake \<or> rtok c), sent := sent c @ take (length bs - length rest) bs\<rparr>)"
| write_wake: "cw c = WWait bs \<Longrightarrow> wtok c \<Longrightarrow> pipe_step c (c\<lparr>cw := WTurn bs, wtok := False\<rparr>)"
| close_read: "cr c = RIdle \<Longrightarrow> pclose READ_END (cp c) = (b, pd, p) \<Longrightarrow>
    pipe_step c (c\<lparr>cp := p, rtok := True, wtok := True\<rparr>)"
| close_write: "cw c = WIdle \<Longrightarrow> pclose WRITE_END (cp c) = (b, pd, p) \<Longrightarrow>
    pipe_step c (c\<lparr>cp := p, rtok := True, wtok := True\<rparr>)"

definition new_pipe :: pipe_conf where
  "new_pipe = \<lparr>cp = fst (open_pipe 0 null_file null_file), cr = RIdle, cw = WIdle, rtok = False, wtok = False,
     got = [], sent = []\<rparr>"

definition pipe_inv :: "pipe_conf \<Rightarrow> bool" where
  "pipe_inv c \<longleftrightarrow> pipe_ok (cp c) \<and> sent c = got c @ ring_bytes (cp c) \<and>
     (\<forall>n. cr c = RTurn n \<or> cr c = RWait n \<longrightarrow> 0 < n) \<and>
     (\<forall>n. cr c = RWait n \<and> \<not> rtok c \<longrightarrow> ring_bytes (cp c) = [] \<and> powrite (cp c)) \<and>
     (\<forall>bs. cw c = WTurn bs \<or> cw c = WLocked bs \<or> cw c = WWait bs \<longrightarrow> bs \<noteq> []) \<and>
     (\<forall>bs. cw c = WWait bs \<and> \<not> wtok c \<longrightarrow> ring_full (cp c) \<and> poread (cp c)) \<and>
     (\<forall>bs. cw c = WLocked bs \<and> \<not> wtok c \<longrightarrow> poread (cp c)) \<and>
     (\<not> powrite (cp c) \<longrightarrow> cw c = WIdle)"

lemma pclose_simps:
  "pclose READ_END p = (\<not> powrite p, (if powrite p then READ_END else 0), p\<lparr>poread := False\<rparr>)"
  "pclose WRITE_END p = (\<not> poread p, (if poread p then WRITE_END else 0), p\<lparr>powrite := False\<rparr>)"
  by (simp_all add: pclose_def READ_END_def WRITE_END_def Let_def)

lemma ring_frame [simp]:
  "ring_bytes (p\<lparr>poread := b\<rparr>) = ring_bytes p" "ring_bytes (p\<lparr>powrite := b\<rparr>) = ring_bytes p"
  "pipe_ok (p\<lparr>poread := b\<rparr>) = pipe_ok p" "pipe_ok (p\<lparr>powrite := b\<rparr>) = pipe_ok p"
  "ring_full (p\<lparr>poread := b\<rparr>) = ring_full p" "ring_full (p\<lparr>powrite := b\<rparr>) = ring_full p"
  by (simp_all add: ring_bytes_def ring_len_def pipe_ok_def ring_full_def)

lemma pread_turn_ok:
  assumes "pipe_ok p" "0 < n" "pread_turn n p = (bs, left, wake, e, p')"
  shows "pipe_ok p'" "ring_bytes p = bs @ ring_bytes p'" "powrite p' = powrite p" "poread p' = poread p"
    "wake \<longleftrightarrow> \<not> ring_full p'" "\<not> ring_full p'"
    "e = Again \<longleftrightarrow> 0 < left \<and> powrite p'" "0 < left \<Longrightarrow> ring_bytes p' = []"
proof -
  obtain bs1 left1 p1 where d: "drain n p = (bs1, left1, p1)" by (metis surj_pair)
  with assms(3) have eq: "bs = bs1" "left = left1" "p' = p1" "wake \<longleftrightarrow> \<not> ring_full p1"
    "e = (if \<not> powrite p1 \<and> phi p1 = plo p1 then Return else if left1 > 0 then Again else Return)"
    by (auto simp: pread_turn_def ring_full_def)
  note r = drain_ok [OF assms(1) d]
  show "pipe_ok p'" "ring_bytes p = bs @ ring_bytes p'" "powrite p' = powrite p" "poread p' = poread p"
    "wake \<longleftrightarrow> \<not> ring_full p'" "0 < left \<Longrightarrow> ring_bytes p' = []" using r eq by auto
  show "e = Again \<longleftrightarrow> 0 < left \<and> powrite p'" using r eq ring_bytes_empty [of p1] by auto
  show "\<not> ring_full p'"
  proof (cases "bs1 = []")
    case True
    with r assms(2) have "ring_len p1 = 0" by (metis add_0 length_ring_bytes list.size(3))
    with r eq ring_full_len [of p1] show ?thesis by (auto simp: PIPE_SIZE_def)
  next
    case False
    with r have "ring_len p1 < ring_len p" by (metis length_append length_ring_bytes length_greater_0_conv less_add_same_cancel2)
    with r eq ring_full_len [of p1] ring_len_less [OF assms(1)] show ?thesis by auto
  qed
qed

lemma pwrite_turn_ok:
  assumes "pipe_ok p" "bs \<noteq> []" "pwrite_turn bs p = (rest, wake, e, p')"
  shows "pipe_ok p'" "ring_bytes p' = ring_bytes p @ take (length bs - length rest) bs"
    "powrite p' = powrite p" "poread p' = poread p" "wake" "e = Again \<longleftrightarrow> rest \<noteq> []" "rest \<noteq> [] \<Longrightarrow> ring_full p'"
proof -
  obtain rest1 p1 where d: "fill bs p = (rest1, p1)" by fastforce
  with assms(3) have eq: "rest = rest1" "p' = p1" "wake \<longleftrightarrow> phi p1 \<noteq> plo p1"
    "e = (if rest1 \<noteq> [] then Again else Return)" by (auto simp: pwrite_turn_def)
  note r = fill_ok [OF assms(1) d]
  then obtain moved where m: "bs = moved @ rest1" "ring_bytes p1 = ring_bytes p @ moved" by blast
  with r eq show "pipe_ok p'" "ring_bytes p' = ring_bytes p @ take (length bs - length rest) bs"
    "powrite p' = powrite p" "poread p' = poread p" "e = Again \<longleftrightarrow> rest \<noteq> []" "rest \<noteq> [] \<Longrightarrow> ring_full p'" by auto
  have "ring_bytes p1 \<noteq> []"
  proof (cases "rest1 = []")
    case True
    with m assms(2) show ?thesis by simp
  next
    case False
    with r ring_full_len [of p1] have "length (ring_bytes p1) = PIPE_SIZE - 1" by simp
    moreover have "PIPE_SIZE - 1 \<noteq> 0" by (simp add: PIPE_SIZE_def)
    ultimately show ?thesis by (metis list.size(3))
  qed
  with r eq ring_bytes_empty [of p1] show "wake" by simp
qed

lemma pipe_inv_step:
  assumes "pipe_step c c'" "pipe_inv c"
  shows "pipe_inv c'"
  using assms
proof (cases rule: pipe_step.cases)
  case (read_turn n bs left wake e p)
  have n: "0 < n" "pipe_ok (cp c)" using assms(2) read_turn by (auto simp: pipe_inv_def)
  note r = pread_turn_ok [OF n(2,1) read_turn(3)]
  show ?thesis using assms(2) read_turn(1,2) r by (cases e) (auto simp: pipe_inv_def)
next
  case (write_turn bs rest wake e p)
  have n: "bs \<noteq> []" "pipe_ok (cp c)" using assms(2) write_turn by (auto simp: pipe_inv_def)
  note r = pwrite_turn_ok [OF n(2,1) write_turn(3)]
  show ?thesis using assms(2) write_turn(1,2) r by (cases e) (auto simp: pipe_inv_def)
qed (auto simp: pipe_inv_def pclose_simps split: if_splits)

lemma pipe_inv_reach: "pipe_step\<^sup>*\<^sup>* new_pipe c \<Longrightarrow> pipe_inv c"
proof (induction rule: rtranclp_induct)
  case base
  show ?case
    by (simp add: pipe_inv_def new_pipe_def open_pipe_def pipe_ok_def ring_bytes_def ring_len_def)
      (simp add: PIPE_SIZE_def)
next
  case (step c c')
  then show ?case using pipe_inv_step by blast
qed

section \<open>Properties\<close>

text \<open>
  Claim C6. A pipe is a queue: whatever turns the reader and the writer take, the bytes read so
  far followed by the bytes in the ring are exactly the bytes written so far, and the ring never
  holds more than 4095 bytes.
\<close>

theorem pipe_fifo:
  assumes "pipe_step\<^sup>*\<^sup>* new_pipe c"
  shows "sent c = got c @ ring_bytes (cp c) \<and> length (ring_bytes (cp c)) < PIPE_SIZE"
  using pipe_inv_reach [OF assms] ring_len_less by (simp add: pipe_inv_def)

lemma demo_pipe_run:
  "\<exists>c. pipe_step\<^sup>*\<^sup>* new_pipe c \<and> cw c = WLocked [7, 8] \<and> cr c = RTurn 3 \<and> cp c = cp new_pipe \<and>
     sent c = [] \<and> got c = [] \<and> rtok c = False \<and> wtok c = False"
proof -
  let ?c1 = "new_pipe\<lparr>cr := RTurn 3\<rparr>" and ?c2 = "new_pipe\<lparr>cr := RTurn 3, cw := WTurn [7, 8]\<rparr>"
  let ?c3 = "new_pipe\<lparr>cr := RTurn 3, cw := WLocked [7, 8]\<rparr>"
  have o: "poread (cp new_pipe)" "powrite (cp new_pipe)" by (simp_all add: new_pipe_def open_pipe_def)
  have "pipe_step new_pipe ?c1"
    using pipe_step.starts_read [of new_pipe 3] o by (simp add: new_pipe_def)
  moreover have "pipe_step ?c1 ?c2"
    using pipe_step.starts_write [of ?c1 "[7, 8]"] o by (simp add: new_pipe_def)
  moreover have "pipe_step ?c2 ?c3"
    using pipe_step.write_test [of ?c2 "[7, 8]"] o by (simp add: new_pipe_def)
  ultimately have "pipe_step\<^sup>*\<^sup>* new_pipe ?c3" by (meson converse_rtranclp_into_rtranclp rtranclp.rtrancl_refl)
  then show ?thesis by (intro exI [of _ ?c3]) (simp add: new_pipe_def)
qed

theorem pipe_fifo_witness:
  "\<exists>c. pipe_step\<^sup>*\<^sup>* new_pipe c \<and> cw c = WLocked [7, 8] \<and> sent c = got c @ ring_bytes (cp c)"
  using demo_pipe_run pipe_fifo by blast

text \<open>
  Claim C23. No wake-up is lost and the two sides never wait for each other: a reader sleeps only
  while the pipe is empty and open for writing, a writer only while it is full and open for
  reading, so never both.
\<close>

theorem pipe_no_deadlock:
  assumes "pipe_step\<^sup>*\<^sup>* new_pipe c"
  shows "(cr c = RWait n \<and> \<not> rtok c \<longrightarrow> ring_bytes (cp c) = [] \<and> powrite (cp c)) \<and>
    (cw c = WWait bs \<and> \<not> wtok c \<longrightarrow> ring_full (cp c) \<and> poread (cp c)) \<and>
    \<not> (cr c = RWait n \<and> \<not> rtok c \<and> cw c = WWait bs \<and> \<not> wtok c)"
proof -
  note inv = pipe_inv_reach [OF assms]
  have "\<not> ring_full (cp c)" if "ring_bytes (cp c) = []"
    using that inv ring_full_len [of "cp c"] length_ring_bytes [of "cp c"]
    by (auto simp: pipe_inv_def PIPE_SIZE_def)
  with inv show ?thesis by (auto simp: pipe_inv_def)
qed

theorem pipe_no_deadlock_witness:
  "\<exists>c. pipe_step\<^sup>*\<^sup>* new_pipe c \<and> cr c = RWait 3 \<and> \<not> rtok c \<and> ring_bytes (cp c) = [] \<and> powrite (cp c)"
proof -
  from demo_pipe_run obtain c where c: "pipe_step\<^sup>*\<^sup>* new_pipe c" "cr c = RTurn 3" "cp c = cp new_pipe" "\<not> rtok c"
    by blast
  have t: "pread_turn 3 (cp c) = ([], 3, True, Again, cp c)"
    by (simp add: c(3) new_pipe_def open_pipe_def pread_turn_def numeral_3_eq_3 PIPE_SIZE_def)
  from pipe_step.read_turn [OF c(2) t] c(1)
  have r: "pipe_step\<^sup>*\<^sup>* new_pipe (c\<lparr>cp := cp c, cr := RWait 3, wtok := True, got := got c @ []\<rparr>)"
    by (simp add: rtranclp.rtrancl_into_rtrancl)
  from pipe_no_deadlock [OF r, of 3 "[]"] r c(4) show ?thesis by fastforce
qed

lemma end_bits: "bit READ_END n \<longleftrightarrow> n = 32" "bit WRITE_END n \<longleftrightarrow> n = 33" "bit (0xffffffff :: u64) n \<longleftrightarrow> n < 32"
proof -
  have e: "READ_END = 2 ^ 32" "WRITE_END = 2 ^ 33" "(0xffffffff :: u64) = mask 32"
    by (simp_all add: READ_END_def WRITE_END_def mask_eq_exp_minus_1)
  show "bit READ_END n \<longleftrightarrow> n = 32" unfolding e(1) bit_exp_iff by auto
  show "bit WRITE_END n \<longleftrightarrow> n = 33" unfolding e(2) bit_exp_iff by auto
  show "bit (0xffffffff :: u64) n \<longleftrightarrow> n < 32" unfolding e(3) bit_mask_iff by auto
qed

lemma end_masks:
  fixes a :: u32
  shows "(READ_END OR ucast a) AND READ_END = READ_END" "(READ_END OR ucast a) AND WRITE_END = 0"
    "(WRITE_END OR ucast a) AND WRITE_END = WRITE_END" "(WRITE_END OR ucast a) AND READ_END = 0"
    "(READ_END OR ucast a) AND 0xffffffff = ucast a" "(WRITE_END OR ucast a) AND 0xffffffff = ucast a"
  by (rule bit_word_eqI; unfold bit_and_iff bit_or_iff end_bits; auto simp: bit_simps end_bits dest: bit_imp_le_length)+

lemma end_nz: "READ_END \<noteq> 0" "WRITE_END \<noteq> 0"
  by (simp_all add: READ_END_def WRITE_END_def)

lemma end_or_nz: "READ_END OR ucast (a :: u32) \<noteq> 0" "WRITE_END OR ucast (a :: u32) \<noteq> 0"
  using end_masks [of a] end_nz by auto

text \<open>
  Claim C24. The ends of a pipe keep their roles: reading from the write end or writing to the
  read end is refused with \<open>EPERM\<close>, the pipe is freed exactly by the second of the two closes,
  whatever their order, and both ends lead to the same pipe.
\<close>

theorem pipe_ends:
  assumes "open_pipe addr r w = (p, r', w')"
  shows "pread_check (fprivate r') = None \<and> pwrite_check (fprivate r') = Some (err EPERM) \<and>
    pwrite_check (fprivate w') = None \<and> pread_check (fprivate w') = Some (err EPERM) \<and>
    fprivate r' AND 0xffffffff = ucast addr \<and> fprivate w' AND 0xffffffff = ucast addr \<and>
    (case pclose (fprivate r') p of (f1, d1, p1) \<Rightarrow> \<not> f1 \<and> fst (pclose (fprivate w') p1)) \<and>
    (case pclose (fprivate w') p of (f1, d1, p1) \<Rightarrow> \<not> f1 \<and> fst (pclose (fprivate r') p1))"
proof -
  from assms have "fprivate r' = READ_END OR ucast addr" "fprivate w' = WRITE_END OR ucast addr"
    "poread p" "powrite p"
    by (auto simp: open_pipe_def)
  then show ?thesis
    by (simp add: pread_check_def pwrite_check_def pclose_def Let_def end_masks end_nz end_or_nz)
qed

theorem pipe_ends_witness:
  "case open_pipe 0x208010 null_file null_file of (p, r', w') \<Rightarrow>
     pwrite_check (fprivate r') = Some (err EPERM) \<and> fprivate w' AND 0xffffffff = 0x208010"
proof -
  obtain p r w where o: "open_pipe 0x208010 null_file null_file = (p, r, w)"
    by (cases "open_pipe 0x208010 null_file null_file") auto
  from pipe_ends [OF o] o show ?thesis by simp
qed

end
