(* ===== verification/Vfs.thy ===== *)
theory Vfs
  imports Kernel_Types CString
begin

unbundle bit_operations_syntax

text \<open>
  The virtual file system, \<open>kernel/fs.c\<close>: devices by major number, the tree of mounts, path
  lookup. Tables of function pointers (\<open>struct file_ops\<close>, \<open>struct inode_ops\<close>) are records of
  optional functions, \<open>None\<close> for \<open>NULL\<close>; they act on a state \<open>'w\<close> that the drivers extend.
  A \<open>struct fs_inst *\<close> is the identity of the mount node the instance lies in.
\<close>

section \<open>The source: tables of operations\<close>

record 'w file_ops =
  op_open :: "(inode \<Rightarrow> kfile \<Rightarrow> u32 \<Rightarrow> 'w \<Rightarrow> kerr + (int \<times> kfile \<times> 'w)) option"
  op_lseek :: "(kfile \<Rightarrow> int \<Rightarrow> nat \<Rightarrow> int \<times> kfile) option"
  op_read :: "(kfile \<Rightarrow> nat \<Rightarrow> 'w \<Rightarrow> kerr + (int \<times> byte list \<times> kfile \<times> 'w)) option"
  op_write :: "(kfile \<Rightarrow> byte list \<Rightarrow> nat \<Rightarrow> 'w \<Rightarrow> kerr + (int \<times> kfile \<times> 'w)) option"
  op_getdent :: "(kfile \<Rightarrow> petix_dirent \<Rightarrow> 'w \<Rightarrow> kerr + (int \<times> petix_dirent \<times> kfile \<times> 'w)) option"
  op_ioctl :: "(kfile \<Rightarrow> ioctl_req \<Rightarrow> ioctl_arg \<Rightarrow> 'w \<Rightarrow> kerr + (int \<times> ioctl_arg \<times> 'w)) option"
  op_mmap :: "(kfile \<Rightarrow> u32 \<Rightarrow> u32 \<Rightarrow> u32 \<Rightarrow> u32 \<Rightarrow> int \<Rightarrow> 'w \<Rightarrow> kerr + ((errno + u32) \<times> 'w)) option"
  op_close :: "(kfile \<Rightarrow> 'w \<Rightarrow> kerr + (int \<times> kfile \<times> 'w)) option"

datatype fstype = Tarfs | Devfs | Tmpfs

record 'w inode_ops =
  reg_ops :: fops
  op_getroot :: "(nat \<Rightarrow> inode \<Rightarrow> 'w \<Rightarrow> kerr + (int \<times> inode \<times> 'w)) option"
  op_lookup :: "(inode \<Rightarrow> byte list \<Rightarrow> inode \<Rightarrow> 'w \<Rightarrow> kerr + (int \<times> inode \<times> 'w)) option"
  op_lookup_all :: "(nat \<Rightarrow> byte list \<Rightarrow> inode \<Rightarrow> 'w \<Rightarrow> kerr + (int \<times> inode \<times> 'w)) option"
  op_creat :: "(inode \<Rightarrow> byte list \<Rightarrow> 'w \<Rightarrow> kerr + (int \<times> 'w)) option"
  op_mkdir :: "(inode \<Rightarrow> byte list \<Rightarrow> 'w \<Rightarrow> kerr + (int \<times> 'w)) option"

text \<open>The initialiser \<open>(struct file_ops) {...}\<close> leaves the members it does not name \<open>NULL\<close>.\<close>

definition no_ops :: "'w file_ops" where
  "no_ops = \<lparr>op_open = None, op_lseek = None, op_read = None, op_write = None, op_getdent = None,
     op_ioctl = None, op_mmap = None, op_close = None\<rparr>"

text \<open>Calling through a \<open>NULL\<close> function pointer.\<close>

fun fnptr :: "'f option \<Rightarrow> kerr + 'f" where
  "fnptr None = Inl BadAccess"
| "fnptr (Some f) = Inr f"

section \<open>The source: mounts\<close>

text \<open>
  The children of a node are the chain \<open>child->sibling->...\<close>; \<open>None\<close> is a \<open>child\<close> pointer to
  freed nodes. A name is the array \<open>name[FILE_NAME_LEN]\<close>.
\<close>

datatype mount_tree =
  MTree (mname: "byte list") (mountpoint: bool) (mid: nat) (mchild: "mount_tree list option")

record fs_inst =
  inst_file :: "kfile option"    \<comment> \<open>\<open>None\<close>: never opened\<close>
  inst_iops :: fstype
  inst_private :: "nat option"

record vfs =
  devices :: "nat \<rightharpoonup> fops"
  mount_root :: mount_tree
  insts :: "nat \<rightharpoonup> fs_inst"
  next_mnt :: nat

definition PATH_MAX :: nat where "PATH_MAX = 4096"
definition slash :: "byte list" where "slash = [47, 0]"

definition get_inst :: "nat option \<Rightarrow> 'a vfs_scheme \<Rightarrow> kerr + fs_inst" where
  "get_inst fs v = (case fs of None \<Rightarrow> Inl BadAccess
     | Some i \<Rightarrow> (case insts v i of None \<Rightarrow> Inl BadAccess | Some f \<Rightarrow> Inr f))"

definition fs_open :: "(fops \<Rightarrow> 'a vfs_scheme file_ops) \<Rightarrow> (fstype \<Rightarrow> 'a vfs_scheme inode_ops) \<Rightarrow>
    inode \<Rightarrow> kfile \<Rightarrow> u32 \<Rightarrow> 'a vfs_scheme \<Rightarrow> kerr + (int \<times> kfile \<times> 'a vfs_scheme)" where
  "fs_open fo io i f flags v =
     (case iftype i of
        FT_SPECIAL \<Rightarrow>
          if flags AND O_DIRECTORY \<noteq> 0 then Inr (err ENOTDIR, f, v)
          else if MAJOR (idev i) \<ge> 256 then Inl BadAccess
          else (case devices v (unat (MAJOR (idev i))) of
                  None \<Rightarrow> Inr (err ENXIO, f, v)
                | Some fops \<Rightarrow>
                    (case op_open (fo fops) of
                       None \<Rightarrow> Inl Kassert
                     | Some op \<Rightarrow> op i (f\<lparr>finode := i, foffset := 0, ffops := Some fops\<rparr>) flags v))
      | FT_REGULAR \<Rightarrow>
          if flags AND O_DIRECTORY \<noteq> 0 then Inr (err ENOTDIR, f, v)
          else kbind (get_inst (ifs i) v) (\<lambda>fs.
               let fops = reg_ops (io (inst_iops fs)) in
               case op_open (fo fops) of
                 None \<Rightarrow> Inl Kassert
               | Some op \<Rightarrow> op i (f\<lparr>finode := i, foffset := 0, ffops := Some fops\<rparr>) flags v)
      | FT_DIR \<Rightarrow>
          if flags AND O_DIRECTORY = 0 then Inr (err EISDIR, f, v)
          else kbind (get_inst (ifs i) v) (\<lambda>fs.
               let fops = reg_ops (io (inst_iops fs)) in
               case op_open (fo fops) of
                 None \<Rightarrow> Inl Kassert
               | Some op \<Rightarrow> op i (f\<lparr>finode := i, foffset := 0, ffops := Some fops\<rparr>) flags v)
      | FT_LINK \<Rightarrow> Inl Panic)"

definition register_device :: "int \<Rightarrow> fops \<Rightarrow> 'a vfs_scheme \<Rightarrow> kerr + (int \<times> 'a vfs_scheme)" where
  "register_device major ops v =
     kbind (kassert (major < 256 \<and> major \<ge> 0)) (\<lambda>_.
     Inr (0, v\<lparr>devices := (devices v)(nat major \<mapsto> ops)\<rparr>))"

definition SEEK_SET :: nat where "SEEK_SET = 0"
definition SEEK_CUR :: nat where "SEEK_CUR = 1"
definition SEEK_END :: nat where "SEEK_END = 2"

definition fs_default_lseek :: "kfile \<Rightarrow> int \<Rightarrow> nat \<Rightarrow> int \<times> kfile" where
  "fs_default_lseek f off whence =
     (if whence = SEEK_SET then (off, f\<lparr>foffset := off\<rparr>)
      else if whence = SEEK_CUR then (foffset f + off, f\<lparr>foffset := foffset f + off\<rparr>)
      else if whence = SEEK_END then (fsize f + off, f\<lparr>foffset := fsize f + off\<rparr>)
      else (err EINVAL, f))"

text \<open>\<open>fs_getfs\<close>: the first child with the token's name, and the body of the loop.\<close>

fun find_first :: "byte list \<Rightarrow> mount_tree list \<Rightarrow> kerr + mount_tree option" where
  "find_first t [] = Inr None"
| "find_first t (j # js) =
     kbind (strncmp (mname j) (t @ [0]) FILE_NAME_LEN) (\<lambda>c. if c = 0 then Inr (Some j) else find_first t js)"

definition getfs_body :: "byte list \<Rightarrow> nat \<Rightarrow> mount_tree \<times> (nat \<times> nat) option \<Rightarrow>
    kerr + (bool \<times> mount_tree \<times> (nat \<times> nat) option)" where
  "getfs_body i save st =
     (case st of (node, fs) \<Rightarrow>
      case mchild node of
        None \<Rightarrow> Inl BadAccess
      | Some js \<Rightarrow>
          kbind (find_first i js) (\<lambda>found.
            case found of
              None \<Rightarrow> Inr (False, node, fs)
            | Some j \<Rightarrow> Inr (True, j, if mountpoint j then Some (mid j, save) else fs)))"

definition fs_getfs :: "'a vfs_scheme \<Rightarrow> byte list \<Rightarrow> kerr + (nat \<times> byte list) option" where
  "fs_getfs v p =
     kbind (strncpy (replicate PATH_MAX 0) 0 p PATH_MAX) (\<lambda>path.
     let node = mount_root v in
     kbind (strtok_iter slash getfs_body (Some 0) 0 path
              (node, if mountpoint node then Some (mid node, 0) else None)) (\<lambda>(node, fs).
     Inr (map_option (\<lambda>(f, reloff). (f, drop reloff p)) fs)))"

fun skip_slashes :: "byte list \<Rightarrow> kerr + byte list" where
  "skip_slashes [] = Inl BadAccess"
| "skip_slashes (c # s) = (if c = 47 then skip_slashes s else Inr (c # s))"

text \<open>The body of the loop over the components, with the result the loop is left with.\<close>

definition lookup_body :: "'a vfs_scheme inode_ops \<Rightarrow> byte list \<Rightarrow> nat \<Rightarrow> int \<times> inode \<times> 'a vfs_scheme \<Rightarrow>
    kerr + (bool \<times> int \<times> inode \<times> 'a vfs_scheme)" where
  "lookup_body iops i save st =
     (case st of (ret, inode, v) \<Rightarrow>
      kbind (fnptr (op_lookup iops)) (\<lambda>lookup.
      kbind (lookup inode (i @ [0]) inode v) (\<lambda>(ret, inode, v).
      Inr (if ret < 0 then (False, ret, inode, v) else (True, 0, inode, v)))))"

definition fs_lookup :: "(fstype \<Rightarrow> 'a vfs_scheme inode_ops) \<Rightarrow> byte list \<Rightarrow> inode \<Rightarrow> 'a vfs_scheme \<Rightarrow>
    kerr + (int \<times> inode \<times> 'a vfs_scheme)" where
  "fs_lookup io p inode v =
     kbind (fs_getfs v p) (\<lambda>r.
     case r of
       None \<Rightarrow> Inr (err ENOENT, inode, v)
     | Some (fs, p2) \<Rightarrow>
         kbind (get_inst (Some fs) v) (\<lambda>inst.
         let iops = io (inst_iops inst) in
         case op_lookup_all iops of
           Some lookup_all \<Rightarrow>
             kbind (skip_slashes p2) (\<lambda>p2.
             kbind (strcmp p2 [0]) (\<lambda>c.
             kbind (if c = 0 then kbind (fnptr (op_getroot iops)) (\<lambda>getroot. getroot fs inode v)
                    else lookup_all fs p2 inode v) (\<lambda>(ret, inode, v).
             Inr (if ret < 0 then ret else 0, inode, v))))
         | None \<Rightarrow>
             (case op_getroot iops of
                None \<Rightarrow> Inl Kassert
              | Some getroot \<Rightarrow>
                  kbind (strncpy (replicate PATH_MAX 0) 0 p2 PATH_MAX) (\<lambda>path.
                  kbind (getroot fs inode v) (\<lambda>(_, inode, v).
                  strtok_iter slash (lookup_body iops) (Some 0) 0 path (0, inode, v))))))"

text \<open>\<open>unmount_child\<close> frees a chain of nodes with everything below; the result are their instances.\<close>

function unmount_child :: "mount_tree list \<Rightarrow> kerr + nat list" where
  "unmount_child [] = Inr []"
| "unmount_child (node # sibling) =
     (case mchild node of
        None \<Rightarrow> Inl BadAccess
      | Some child \<Rightarrow>
          kbind (unmount_child child) (\<lambda>f1.
          kbind (unmount_child sibling) (\<lambda>f2. Inr (f1 @ f2 @ [mid node]))))"
  by pat_completeness auto
termination
proof (relation "measure (size_list size)")
  fix node sibling child assume "mchild node = Some child"
  then show "(child, node # sibling) \<in> measure (size_list size)" by (cases node) auto
qed auto

text \<open>
  The walk of \<open>fs_mount\<close>. The loop over the children does not stop at a match, so the last one
  counts. Nodes that are missing are put in front of the chain.
\<close>

fun find_last :: "byte list \<Rightarrow> mount_tree list \<Rightarrow> kerr + nat option" where
  "find_last t [] = Inr None"
| "find_last t (j # js) =
     kbind (strncmp (mname j) (t @ [0]) FILE_NAME_LEN) (\<lambda>c.
     kbind (find_last t js) (\<lambda>r.
     Inr (case r of Some k \<Rightarrow> Some (Suc k) | None \<Rightarrow> if c = 0 then Some 0 else None)))"

fun mount_at :: "byte list list \<Rightarrow> mount_tree \<Rightarrow> nat \<Rightarrow> kerr + (mount_tree \<times> nat \<times> nat list \<times> nat)" where
  "mount_at [] node nid =
     (case mchild node of
        None \<Rightarrow> Inl BadAccess
      | Some child \<Rightarrow>
          kbind (unmount_child child) (\<lambda>freed.
          Inr (MTree (mname node) True (mid node) (if child = [] then Some [] else None), mid node, freed, nid)))"
| "mount_at (i # is) node nid =
     (case mchild node of
        None \<Rightarrow> Inl BadAccess
      | Some js \<Rightarrow>
          kbind (find_last i js) (\<lambda>found.
          case found of
            Some k \<Rightarrow>
              kbind (mount_at is (js ! k) nid) (\<lambda>(j, r).
              Inr (MTree (mname node) (mountpoint node) (mid node) (Some (js[k := j])), r))
          | None \<Rightarrow>
              kbind (strncpy (replicate FILE_NAME_LEN 0) 0 (i @ [0]) FILE_NAME_LEN) (\<lambda>name.
              kbind (mount_at is (MTree name False nid (Some [])) (Suc nid)) (\<lambda>(nn, r).
              Inr (MTree (mname node) (mountpoint node) (mid node) (Some (nn # js)), r)))))"

definition fs_mount :: "(fops \<Rightarrow> 'a vfs_scheme file_ops) \<Rightarrow> (fstype \<Rightarrow> 'a vfs_scheme inode_ops) \<Rightarrow>
    byte list \<Rightarrow> inode option \<Rightarrow> fstype \<Rightarrow> 'a vfs_scheme \<Rightarrow> kerr + (int \<times> 'a vfs_scheme)" where
  "fs_mount fo io targ src fs v =
     kbind (strncpy (replicate PATH_MAX 0) 0 targ PATH_MAX) (\<lambda>path.
     kbind (strtok_loop slash (Some 0) 0 path) (\<lambda>ts.
     kbind (mount_at (map fst ts) (mount_root v) (next_mnt v)) (\<lambda>(root, node, freed, nid).
     let v1 = v\<lparr>mount_root := root, next_mnt := nid, insts := (insts v) |` (- set freed)\<rparr>;
         old = (case insts v node of None \<Rightarrow> None | Some i \<Rightarrow> inst_file i)
     in kbind (case src of
                 None \<Rightarrow> Inr (old, v1)
               | Some i \<Rightarrow> kbind (fs_open fo io i (case old of None \<Rightarrow> null_file | Some f \<Rightarrow> f) 0 v1)
                             (\<lambda>(_, f, v2). Inr (Some f, v2))) (\<lambda>(file, v2).
        Inr (0, v2\<lparr>insts := (insts v2)(node \<mapsto> \<lparr>inst_file = file, inst_iops = fs, inst_private = None\<rparr>)\<rparr>)))))"

definition fs_umount :: "byte list \<Rightarrow> 'a vfs_scheme \<Rightarrow> int \<times> 'a vfs_scheme" where
  "fs_umount targ v = (0, v)"

section \<open>What a tree of mounts denotes\<close>

definition wf_name :: "byte list \<Rightarrow> bool" where
  "wf_name n \<longleftrightarrow> length n = FILE_NAME_LEN \<and> terminated n"

definition named :: "byte list \<Rightarrow> mount_tree \<Rightarrow> bool" where
  "named t j \<longleftrightarrow> cstr (mname j) = t"

fun wf_tree :: "mount_tree \<Rightarrow> bool" where
  "wf_tree (MTree n mp i ch) \<longleftrightarrow>
     (case ch of None \<Rightarrow> False
      | Some js \<Rightarrow> distinct (map (\<lambda>j. cstr (mname j)) js) \<and> (\<forall>j \<in> set js. wf_name (mname j) \<and> wf_tree j))"

text \<open>The instance mounted at exactly a path.\<close>

fun mount_of :: "mount_tree \<Rightarrow> byte list list \<Rightarrow> nat option" where
  "mount_of node [] = (if mountpoint node then Some (mid node) else None)"
| "mount_of node (t # ts) =
     (case mchild node of None \<Rightarrow> None
      | Some js \<Rightarrow> (case find (named t) js of None \<Rightarrow> None | Some j \<Rightarrow> mount_of j ts))"

lemma wf_treeD:
  assumes "wf_tree node"
  obtains js where "mchild node = Some js" "distinct (map (\<lambda>j. cstr (mname j)) js)"
    "\<forall>j \<in> set js. wf_name (mname j)" "\<forall>j \<in> set js. wf_tree j"
  using assms by (cases node) (auto split: option.splits)

lemma strncmp_name:
  assumes "wf_name n" "0 \<notin> set t"
  shows "\<exists>c. strncmp n (t @ [0]) FILE_NAME_LEN = Inr c \<and> (c = 0 \<longleftrightarrow> cstr n = t)"
proof -
  have len: "length (cstr n) < FILE_NAME_LEN" using assms(1) by (simp add: wf_name_def terminated_length_cstr)
  from strncmp_refines [of n "t @ [0]" FILE_NAME_LEN] assms
  obtain c where c: "strncmp n (t @ [0]) FILE_NAME_LEN = Inr c"
    "c = 0 \<longleftrightarrow> take FILE_NAME_LEN (cstr n) = take FILE_NAME_LEN t"
    by (auto simp: wf_name_def)
  have "take FILE_NAME_LEN (cstr n) = take FILE_NAME_LEN t \<longleftrightarrow> cstr n = t"
  proof
    assume eq: "take FILE_NAME_LEN (cstr n) = take FILE_NAME_LEN t"
    with len have "length (take FILE_NAME_LEN t) < FILE_NAME_LEN" by (metis length_take min.strict_coboundedI1)
    then have "take FILE_NAME_LEN t = t" by simp
    with eq len show "cstr n = t" by simp
  qed simp
  with c show ?thesis by blast
qed

lemma find_first_eq:
  "\<forall>j \<in> set js. wf_name (mname j) \<Longrightarrow> 0 \<notin> set t \<Longrightarrow> find_first t js = Inr (find (named t) js)"
proof (induction js)
  case (Cons j js)
  then obtain c where "strncmp (mname j) (t @ [0]) FILE_NAME_LEN = Inr c" "c = 0 \<longleftrightarrow> cstr (mname j) = t"
    using strncmp_name [of "mname j" t] by auto
  with Cons show ?case by (simp add: named_def)
qed simp

lemma find_last_eq:
  "\<forall>j \<in> set js. wf_name (mname j) \<Longrightarrow> distinct (map (\<lambda>j. cstr (mname j)) js) \<Longrightarrow> 0 \<notin> set t \<Longrightarrow>
   \<exists>r. find_last t js = Inr r \<and>
     (case r of None \<Rightarrow> find (named t) js = None
      | Some k \<Rightarrow> k < length js \<and> find (named t) js = Some (js ! k) \<and> named t (js ! k))"
proof (induction js)
  case (Cons j js)
  then obtain c where c: "strncmp (mname j) (t @ [0]) FILE_NAME_LEN = Inr c" "c = 0 \<longleftrightarrow> named t j"
    using strncmp_name [of "mname j" t] by (auto simp: named_def)
  from Cons obtain r where r: "find_last t js = Inr r"
    "case r of None \<Rightarrow> find (named t) js = None
      | Some k \<Rightarrow> k < length js \<and> find (named t) js = Some (js ! k) \<and> named t (js ! k)" by auto
  have "\<not> named t j" if "named t (js ! k)" "k < length js" for k
    using that Cons.prems(2) by (auto simp: named_def)
  with c r show ?case by (auto split: option.splits)
qed simp

section \<open>Finding the mount of a path\<close>

text \<open>The longest prefix with a value, among the prefixes of lengths up to \<open>n\<close>.\<close>

fun longest :: "(nat \<Rightarrow> nat option) \<Rightarrow> nat \<Rightarrow> (nat \<times> nat) option \<Rightarrow> bool" where
  "longest m n None \<longleftrightarrow> (\<forall>k \<le> n. m k = None)"
| "longest m n (Some (f, k)) \<longleftrightarrow> k \<le> n \<and> m k = Some f \<and> (\<forall>k'. k < k' \<and> k' \<le> n \<longrightarrow> m k' = None)"

lemma getfs_fold:
  assumes "wf_tree node" "\<forall>(t, _) \<in> set ts. 0 \<notin> set t"
  shows "\<exists>node' fs'. tok_fold getfs_body ts (node, fs) = Inr (node', fs') \<and>
    ((fs' = fs \<and> (\<forall>k. 0 < k \<and> k \<le> length ts \<longrightarrow> mount_of node (take k (map fst ts)) = None)) \<or>
     (\<exists>f k. 0 < k \<and> fs' = Some (f, snd (ts ! (k - 1))) \<and>
        longest (\<lambda>k. mount_of node (take k (map fst ts))) (length ts) (Some (f, k))))"
  using assms
proof (induction ts arbitrary: node fs)
  case (Cons x ts)
  obtain t save where x: "x = (t, save)" by force
  from Cons.prems(1) obtain js where js: "mchild node = Some js" "\<forall>j \<in> set js. wf_name (mname j)"
    "\<forall>j \<in> set js. wf_tree j" by (rule wf_treeD)
  have ff: "find_first t js = Inr (find (named t) js)"
    using find_first_eq [OF js(2)] Cons.prems(2) x by simp
  show ?case
  proof (cases "find (named t) js")
    case None
    have "mount_of node (take k (map fst (x # ts))) = None" if "0 < k" for k
      using that None js x by (cases k) simp_all
    with None ff js x show ?thesis by (simp add: getfs_body_def)
  next
    case (Some j)
    then have "wf_tree j" using js(3) by (auto simp: find_Some_iff)
    let ?fs = "if mountpoint j then Some (mid j, save) else fs"
    have m: "mount_of node (take (Suc k) (map fst (x # ts))) = mount_of j (take k (map fst ts))" for k
      using Some js x by simp
    have step: "tok_fold getfs_body (x # ts) (node, fs) = tok_fold getfs_body ts (j, ?fs)"
      using Some ff js x by (simp add: getfs_body_def)
    from Cons.IH [OF \<open>wf_tree j\<close>, of ?fs] Cons.prems(2) x
    obtain node' fs' where r: "tok_fold getfs_body ts (j, ?fs) = Inr (node', fs')"
      "(fs' = ?fs \<and> (\<forall>k. 0 < k \<and> k \<le> length ts \<longrightarrow> mount_of j (take k (map fst ts)) = None)) \<or>
       (\<exists>f k. 0 < k \<and> fs' = Some (f, snd (ts ! (k - 1))) \<and>
          longest (\<lambda>k. mount_of j (take k (map fst ts))) (length ts) (Some (f, k)))" by auto
    from r(2) show ?thesis
    proof
      assume h: "fs' = ?fs \<and> (\<forall>k. 0 < k \<and> k \<le> length ts \<longrightarrow> mount_of j (take k (map fst ts)) = None)"
      have later: "mount_of node (take k (map fst (x # ts))) = None" if "1 < k" "k \<le> length (x # ts)" for k
        using h that m [of "k - 1"] by (cases k) auto
      show ?thesis
      proof (cases "mountpoint j")
        case True
        with h have "fs' = Some (mid j, snd ((x # ts) ! (1 - 1)))" by (simp add: x)
        moreover have "longest (\<lambda>k. mount_of node (take k (map fst (x # ts)))) (length (x # ts)) (Some (mid j, 1))"
          using later m [of 0] True by simp
        ultimately show ?thesis unfolding step using r(1) zero_less_one by blast
      next
        case False
        have "mount_of node (take k (map fst (x # ts))) = None" if "0 < k" "k \<le> length (x # ts)" for k
          using later [of k] that m [of 0] False by (cases "k = 1") auto
        with False h r(1) show ?thesis unfolding step by simp
      qed
    next
      assume "\<exists>f k. 0 < k \<and> fs' = Some (f, snd (ts ! (k - 1))) \<and>
          longest (\<lambda>k. mount_of j (take k (map fst ts))) (length ts) (Some (f, k))"
      then obtain f k where k: "0 < k" "fs' = Some (f, snd (ts ! (k - 1)))"
        "longest (\<lambda>k. mount_of j (take k (map fst ts))) (length ts) (Some (f, k))" by blast
      have "mount_of node (take k' (map fst (x # ts))) = None" if "Suc k < k'" "k' \<le> length (x # ts)" for k'
        using k(3) that m [of "k' - 1"] by (cases k') auto
      with k(3) m [of k]
      have "longest (\<lambda>k. mount_of node (take k (map fst (x # ts)))) (length (x # ts)) (Some (f, Suc k))" by simp
      moreover have "fs' = Some (f, snd ((x # ts) ! (Suc k - 1)))" using k(1,2) by (cases k) simp_all
      ultimately show ?thesis unfolding step using r(1) zero_less_Suc by blast
    qed
  qed
qed simp

definition path_tokens :: "byte list \<Rightarrow> byte list list" where
  "path_tokens p = tokens (cstr slash) (cstr p)"

lemma tokens_set: "t \<in> set (tokens ds s) \<Longrightarrow> set t \<subseteq> set s"
proof (induction ds s rule: tokens.induct)
  case (1 ds s)
  let ?t = "dropWhile (\<lambda>c. c \<in> set ds) s"
  have sub: "set (takeWhile P ?t) \<subseteq> set s" "set (dropWhile P ?t) \<subseteq> set s" for P
    by (meson set_dropWhileD set_takeWhileD subsetI)+
  from 1(2) consider "t = takeWhile (\<lambda>c. c \<notin> set ds) ?t"
    | "?t \<noteq> []" "t \<in> set (tokens ds (dropWhile (\<lambda>c. c \<notin> set ds) ?t))"
    by (subst (asm) tokens.simps) (auto simp: Let_def split: if_splits)
  then show ?case
  proof cases
    case 1
    with sub show ?thesis by simp
  next
    case 2
    with "1.IH" [OF refl] sub(2) show ?thesis by blast
  qed
qed

lemma path_tokens_nz: "t \<in> set (path_tokens p) \<Longrightarrow> 0 \<notin> set t"
  using tokens_set [of t "cstr slash" "cstr p"] zero_notin_cstr [of p] by (auto simp: path_tokens_def)

lemma terminated_slash [simp]: "terminated slash"
  by (simp add: slash_def)

text \<open>Every loop over a path runs over the path's tokens, with \<open>save\<close> at the tokens still to come.\<close>

lemma path_loop:
  assumes "terminated p" "length (cstr p) < PATH_MAX"
  obtains path ts where "strncpy (replicate PATH_MAX 0) 0 p PATH_MAX = Inr path"
    "strtok_loop slash (Some 0) 0 path = Inr ts" "map fst ts = path_tokens p"
    "\<And>k. k < length ts \<Longrightarrow> path_tokens (drop (snd (ts ! k)) p) = drop (Suc k) (path_tokens p)"
proof -
  let ?b = "cstr p @ replicate (PATH_MAX - length (cstr p)) 0"
  have cp: "strncpy (replicate PATH_MAX 0) 0 p PATH_MAX = Inr ?b"
    using strncpy_eq [of p PATH_MAX 0 "replicate PATH_MAX 0"] assms by simp
  obtain z where z: "PATH_MAX - length (cstr p) = Suc z" using assms(2) by (metis Suc_diff_Suc)
  have cb: "cstr ?b = cstr p" "terminated ?b" unfolding z by simp_all
  from strtok_loop_rest [where delim = slash and p = 0 and b = ?b and str = "Some 0" and save = 0] cb obtain ts where
    ts: "strtok_loop slash (Some 0) 0 ?b = Inr ts" "map fst ts = path_tokens p" "saves_at slash ?b ts"
      "\<forall>x \<in> set ts. snd x \<le> length (cstr p)" by (auto simp: path_tokens_def)
  have at: "cstr (drop n ?b) = cstr (drop n p)" if "n \<le> length (cstr p)" for n
    using that drop_cstr [of n ?b] drop_cstr [of n p] cb by simp
  have rest: "saves_at slash ?b us \<Longrightarrow> k < length us \<Longrightarrow>
      tokens (cstr slash) (cstr (drop (snd (us ! k)) ?b)) = drop (Suc k) (map fst us)" for us k
  proof (induction us arbitrary: k)
    case (Cons u us)
    then show ?case by (cases u; cases k) (simp_all add: rest_at_def)
  qed simp
  show thesis
  proof
    fix k assume k: "k < length ts"
    then have "snd (ts ! k) \<le> length (cstr p)" using ts(4) by simp
    with rest [OF ts(3) k] at [of "snd (ts ! k)"] ts(2)
    show "path_tokens (drop (snd (ts ! k)) p) = drop (Suc k) (path_tokens p)"
      by (simp add: path_tokens_def)
  qed (fact cp, fact ts(1), fact ts(2))
qed

lemma fs_getfs_ok:
  assumes "wf_tree (mount_root v)" "terminated p" "length (cstr p) < PATH_MAX"
  shows "\<exists>r. fs_getfs v p = Inr (map_option fst r) \<and>
    longest (\<lambda>k. mount_of (mount_root v) (take k (path_tokens p))) (length (path_tokens p))
      (map_option (\<lambda>((f, rel), k). (f, k)) r) \<and>
    (\<forall>f rel k. r = Some ((f, rel), k) \<longrightarrow> path_tokens rel = drop k (path_tokens p))"
proof -
  from path_loop [OF assms(2,3)] obtain path ts where
    cp: "strncpy (replicate PATH_MAX 0) 0 p PATH_MAX = Inr path" and
    l: "strtok_loop slash (Some 0) 0 path = Inr ts" and fst: "map fst ts = path_tokens p" and
    rest: "\<And>k. k < length ts \<Longrightarrow> path_tokens (drop (snd (ts ! k)) p) = drop (Suc k) (path_tokens p)" by blast
  let ?n = "mount_root v" and ?m = "\<lambda>k. mount_of (mount_root v) (take k (path_tokens p))"
  let ?i = "if mountpoint ?n then Some (mid ?n, 0) else None"
  have "\<forall>(t, _) \<in> set ts. 0 \<notin> set t"
    using path_tokens_nz [of _ p] unfolding fst [symmetric] by force
  from getfs_fold [OF assms(1) this, of ?i] obtain node' fs' where
    r: "tok_fold getfs_body ts (?n, ?i) = Inr (node', fs')" and
    c: "(fs' = ?i \<and> (\<forall>k. 0 < k \<and> k \<le> length ts \<longrightarrow> ?m k = None)) \<or>
     (\<exists>f k. 0 < k \<and> fs' = Some (f, snd (ts ! (k - 1))) \<and> longest ?m (length ts) (Some (f, k)))"
    by (auto simp: fst)
  have g: "fs_getfs v p = Inr (map_option (\<lambda>(f, reloff). (f, drop reloff p)) fs')"
    by (simp add: fs_getfs_def cp Let_def strtok_iter_fold [OF l] r)
  have len: "length (path_tokens p) = length ts" by (metis fst length_map)
  from c show ?thesis
  proof (elim disjE exE conjE)
    assume h: "fs' = ?i" "\<forall>k. 0 < k \<and> k \<le> length ts \<longrightarrow> ?m k = None"
    show ?thesis
    proof (cases "mountpoint ?n")
      case True
      with h g len show ?thesis by (intro exI [of _ "Some ((mid ?n, p), 0)"]) simp
    next
      case False
      then have "?m k = None" if "k \<le> length ts" for k using h(2) that by (cases "k = 0") simp_all
      with False h g len show ?thesis by (intro exI [of _ None]) simp
    qed
  next
    fix f k assume h: "0 < k" "fs' = Some (f, snd (ts ! (k - 1)))" "longest ?m (length ts) (Some (f, k))"
    then have "k - 1 < length ts" "Suc (k - 1) = k" by auto
    then have "path_tokens (drop (snd (ts ! (k - 1))) p) = drop k (path_tokens p)" using rest [of "k - 1"] by simp
    with h g len show ?thesis by (intro exI [of _ "Some ((f, drop (snd (ts ! (k - 1))) p), k)"]) simp
  qed
qed

section \<open>Mounting\<close>

text \<open>Nothing lies below the place of the new mount.\<close>

fun bare_at :: "mount_tree \<Rightarrow> byte list list \<Rightarrow> bool" where
  "bare_at node [] \<longleftrightarrow> mchild node = Some []"
| "bare_at node (t # ts) \<longleftrightarrow>
     (case mchild node of None \<Rightarrow> False
      | Some js \<Rightarrow> (case find (named t) js of None \<Rightarrow> True | Some j \<Rightarrow> bare_at j ts))"

lemma find_update_same:
  "distinct (map f js) \<Longrightarrow> k < length js \<Longrightarrow> f (js ! k) = a \<Longrightarrow> f j = a \<Longrightarrow>
   find (\<lambda>x. f x = b) (js[k := j]) = (if b = a then Some j else find (\<lambda>x. f x = b) js)"
proof (induction js arbitrary: k)
  case (Cons x js)
  then show ?case
  proof (cases k)
    case (Suc k')
    with Cons have "f x \<noteq> a" by auto
    with Cons Suc show ?thesis by auto
  qed auto
qed simp

lemma name_array:
  assumes "0 \<notin> set t" "length t < FILE_NAME_LEN"
  obtains name where "strncpy (replicate FILE_NAME_LEN 0) 0 (t @ [0]) FILE_NAME_LEN = Inr name"
    "cstr name = t" "wf_name name"
proof
  let ?name = "take FILE_NAME_LEN (t @ replicate FILE_NAME_LEN 0)"
  obtain z where z: "FILE_NAME_LEN - length t = Suc z" using assms(2) by (metis Suc_diff_Suc)
  have name: "?name = t @ replicate (Suc z) 0" using assms(2) z by (simp del: replicate_Suc)
  show "cstr ?name = t" "wf_name ?name" using assms z unfolding name wf_name_def by simp_all
  show "strncpy (replicate FILE_NAME_LEN 0) 0 (t @ [0]) FILE_NAME_LEN = Inr ?name"
    using strncpy_eq [of "t @ [0]" FILE_NAME_LEN 0 "replicate FILE_NAME_LEN 0"] assms by simp
qed

text \<open>Below a new node there is only the new mount.\<close>

lemma mount_at_new:
  assumes "\<forall>t \<in> set is. 0 \<notin> set t \<and> length t < FILE_NAME_LEN"
  shows "\<exists>node' f nid'. mount_at is (MTree n False i (Some [])) nid = Inr (node', f, [], nid') \<and> wf_tree node' \<and>
    mname node' = n \<and> mount_of node' = [is \<mapsto> f]"
  using assms
proof (induction "is" arbitrary: n i nid)
  case Nil
  have "mount_of (MTree n True i (Some [])) ts = [[] \<mapsto> i] ts" for ts
    by (cases ts) simp_all
  then show ?case by (auto intro!: ext)
next
  case (Cons t ts)
  from Cons.prems have t: "0 \<notin> set t" "length t < FILE_NAME_LEN" by simp_all
  obtain name where name: "strncpy (replicate FILE_NAME_LEN 0) 0 (t @ [0]) FILE_NAME_LEN = Inr name"
    "cstr name = t" "wf_name name" by (rule name_array [OF t])
  from Cons.prems have ts: "\<forall>t \<in> set ts. 0 \<notin> set t \<and> length t < FILE_NAME_LEN" by simp
  from Cons.IH [OF this, of name nid "Suc nid"]
  obtain nn f nid' where r: "mount_at ts (MTree name False nid (Some [])) (Suc nid) = Inr (nn, f, [], nid')"
    "wf_tree nn" "mname nn = name" "mount_of nn = [ts \<mapsto> f]" by blast
  let ?n = "MTree n False i (Some [nn])"
  have "mount_of ?n us = [t # ts \<mapsto> f] us" for us
    using r name by (cases us) (auto simp: named_def)
  then have "mount_of ?n = [t # ts \<mapsto> f]" by blast
  with name r show ?case by (intro exI [of _ ?n] exI [of _ f] exI [of _ nid']) simp
qed

lemma mount_at_ok:
  assumes "wf_tree node" "bare_at node is" "\<forall>t \<in> set is. 0 \<notin> set t \<and> length t < FILE_NAME_LEN"
  shows "\<exists>node' f nid'. mount_at is node nid = Inr (node', f, [], nid') \<and> wf_tree node' \<and>
    mname node' = mname node \<and> mount_of node' = (mount_of node)(is \<mapsto> f)"
  using assms
proof (induction "is" arbitrary: node)
  case Nil
  then have "mchild node = Some []" by simp
  moreover have "mount_of (MTree (mname node) True (mid node) (Some [])) ts = ((mount_of node)([] \<mapsto> mid node)) ts" for ts
    using Nil by (cases ts) simp_all
  ultimately show ?case by (auto intro!: ext)
next
  case (Cons t ts)
  from Cons.prems(1) obtain js where js: "mchild node = Some js" "distinct (map (\<lambda>j. cstr (mname j)) js)"
    "\<forall>j \<in> set js. wf_name (mname j)" "\<forall>j \<in> set js. wf_tree j" by (rule wf_treeD)
  have t: "0 \<notin> set t" using Cons.prems(3) by simp
  from find_last_eq [OF js(3,2) t] obtain r where fl: "find_last t js = Inr r"
    "case r of None \<Rightarrow> find (named t) js = None
      | Some k \<Rightarrow> k < length js \<and> find (named t) js = Some (js ! k) \<and> named t (js ! k)" by blast
  show ?case
  proof (cases r)
    case None
    with fl have no: "find (named t) js = None" by simp
    from Cons.prems(3) have len: "length t < FILE_NAME_LEN" by simp
    obtain name where name: "strncpy (replicate FILE_NAME_LEN 0) 0 (t @ [0]) FILE_NAME_LEN = Inr name"
      "cstr name = t" "wf_name name" by (rule name_array [OF t len])
    from Cons.prems(3) have "\<forall>t \<in> set ts. 0 \<notin> set t \<and> length t < FILE_NAME_LEN" by simp
    from mount_at_new [OF this, of name nid "Suc nid"]
    obtain nn f nid' where r: "mount_at ts (MTree name False nid (Some [])) (Suc nid) = Inr (nn, f, [], nid')"
      "wf_tree nn" "mname nn = name" "mount_of nn = [ts \<mapsto> f]" by blast
    let ?n = "MTree (mname node) (mountpoint node) (mid node) (Some (nn # js))"
    have "mount_of ?n us = ((mount_of node)(t # ts \<mapsto> f)) us" for us
      using r name js(1) no by (cases us) (auto simp: named_def)
    moreover have "wf_tree ?n" using js(2,3,4) r name no by (auto simp: find_None_iff named_def)
    moreover have "mount_at (t # ts) node nid = Inr (?n, f, [], nid')"
      using js(1) fl(1) None name(1) r(1) by simp
    ultimately show ?thesis by (intro exI [of _ ?n] exI [of _ f] exI [of _ nid']) auto
  next
    case (Some k)
    with fl have k: "k < length js" "find (named t) js = Some (js ! k)" "named t (js ! k)" by simp_all
    have "bare_at (js ! k) ts" using Cons.prems(2) js(1) k(2) by simp
    moreover have "wf_tree (js ! k)" using js k(1) by simp_all
    moreover have "\<forall>t \<in> set ts. 0 \<notin> set t \<and> length t < FILE_NAME_LEN" using Cons.prems(3) by simp
    ultimately obtain j f nid' where r: "mount_at ts (js ! k) nid = Inr (j, f, [], nid')" "wf_tree j"
      "mname j = mname (js ! k)" "mount_of j = (mount_of (js ! k))(ts \<mapsto> f)"
      using Cons.IH [of "js ! k"] by blast
    let ?n = "MTree (mname node) (mountpoint node) (mid node) (Some (js[k := j]))"
    have f: "find (named b) (js[k := j]) = (if b = t then Some j else find (named b) js)" for b
    proof -
      have "named b = (\<lambda>x. cstr (mname x) = b)" by (simp add: fun_eq_iff named_def)
      with find_update_same [OF js(2) k(1), of t j b] k(3) r(3) show ?thesis by (simp add: named_def)
    qed
    have "mount_of ?n us = ((mount_of node)(t # ts \<mapsto> f)) us" for us
      using r(4) js(1) k(2) by (cases us) (auto simp: f)
    moreover have "map (\<lambda>j. cstr (mname j)) (js[k := j]) = map (\<lambda>j. cstr (mname j)) js"
      using k(1) r(3) by (simp add: map_update list_update_same_conv)
    then have "wf_tree ?n" using js(2,3,4) r(2,3) k(1) by (auto dest!: set_update_subset_insert [THEN subsetD])
    moreover have "mount_at (t # ts) node nid = Inr (?n, f, [], nid')"
      using js(1) fl(1) Some r(1) by simp
    ultimately show ?thesis by (intro exI [of _ ?n] exI [of _ f] exI [of _ nid']) auto
  qed
qed

lemma fs_mount_ok:
  assumes "wf_tree (mount_root v)" "bare_at (mount_root v) (path_tokens p)" "terminated p" "length (cstr p) < PATH_MAX"
    "\<forall>t \<in> set (path_tokens p). length t < FILE_NAME_LEN"
  shows "\<exists>v' f. fs_mount fo io p None fs v = Inr (0, v') \<and> wf_tree (mount_root v') \<and>
    mount_of (mount_root v') = (mount_of (mount_root v))(path_tokens p \<mapsto> f) \<and>
    map_option inst_iops (insts v' f) = Some fs \<and> devices v' = devices v \<and> (\<forall>g. g \<noteq> f \<longrightarrow> insts v' g = insts v g)"
proof -
  from path_loop [OF assms(3,4)] obtain path ts where
    l: "strncpy (replicate PATH_MAX 0) 0 p PATH_MAX = Inr path" "strtok_loop slash (Some 0) 0 path = Inr ts"
      "map fst ts = path_tokens p" by blast
  have "\<forall>t \<in> set (path_tokens p). 0 \<notin> set t \<and> length t < FILE_NAME_LEN"
    using assms(5) path_tokens_nz by blast
  from mount_at_ok [OF assms(1,2) this, of "next_mnt v"] obtain root f nid where
    m: "mount_at (path_tokens p) (mount_root v) (next_mnt v) = Inr (root, f, [], nid)" "wf_tree root"
      "mount_of root = (mount_of (mount_root v))(path_tokens p \<mapsto> f)" by blast
  let ?v = "v\<lparr>mount_root := root, next_mnt := nid, insts := (insts v)(f \<mapsto>
    \<lparr>inst_file = (case insts v f of None \<Rightarrow> None | Some i \<Rightarrow> inst_file i), inst_iops = fs, inst_private = None\<rparr>)\<rparr>"
  have "insts v |` UNIV = insts v" by (simp add: restrict_map_def)
  then have "fs_mount fo io p None fs v = Inr (0, ?v)" by (simp add: fs_mount_def l m Let_def)
  with m show ?thesis by (intro exI [of _ ?v] exI [of _ f]) simp
qed

section \<open>Properties\<close>

text \<open>
  Claim C25. A path belongs to the file system mounted at its longest mounted prefix: \<open>fs_getfs\<close>
  ends without a bad access, reports \<open>ENOENT\<close> exactly when no prefix is mounted, and hands the
  rest of the path, the remaining components, to that file system.
\<close>

theorem fs_getfs_longest:
  assumes "wf_tree (mount_root v)" "terminated p" "length (cstr p) < PATH_MAX"
  shows "\<exists>r. fs_getfs v p = Inr (map_option fst r) \<and>
    longest (\<lambda>k. mount_of (mount_root v) (take k (path_tokens p))) (length (path_tokens p))
      (map_option (\<lambda>((f, rel), k). (f, k)) r) \<and>
    (\<forall>f rel k. r = Some ((f, rel), k) \<longrightarrow> path_tokens rel = drop k (path_tokens p))"
  by (rule fs_getfs_ok [OF assms])

definition boot_vfs :: vfs where
  "boot_vfs = \<lparr>devices = Map.empty, mount_root = MTree [] False 0 (Some []), insts = Map.empty, next_mnt = 1\<rparr>"

lemma boot_wf: "wf_tree (mount_root boot_vfs)"
  by (simp add: boot_vfs_def)

lemma dev_tokens: "path_tokens (lit ''/dev'') = [map of_char ''dev'']" "path_tokens (lit ''/'') = []"
    "path_tokens (lit ''/dev/fb'') = [map of_char ''dev'', map of_char ''fb'']"
  by (simp_all add: path_tokens_def lit_def slash_def tokens.simps Let_def)

definition dev_vfs :: vfs where
  "dev_vfs = boot_vfs\<lparr>mount_root := MTree [] True 0 (Some [MTree (map of_char ''dev'' @ replicate 253 0) True 1 (Some [])])\<rparr>"

lemma dev_wf: "wf_tree (mount_root dev_vfs)"
proof -
  have "terminated (replicate 253 0)" by (simp add: terminated_def)
  then show ?thesis by (simp add: dev_vfs_def wf_name_def FILE_NAME_LEN_def)
qed

lemma dev_mounts:
  "mount_of (mount_root dev_vfs) [] = Some 0" "mount_of (mount_root dev_vfs) [map of_char ''dev''] = Some 1"
  "mount_of (mount_root dev_vfs) (map of_char ''dev'' # t # ts) = None"
proof -
  have "replicate 253 (0 :: byte) = 0 # replicate 252 0" by (simp add: numeral_eq_Suc)
  then have "named (map of_char ''dev'') (MTree (map of_char ''dev'' @ replicate 253 0) True 1 (Some []))"
    by (simp add: named_def)
  then show "mount_of (mount_root dev_vfs) [] = Some 0" "mount_of (mount_root dev_vfs) [map of_char ''dev''] = Some 1"
    "mount_of (mount_root dev_vfs) (map of_char ''dev'' # t # ts) = None"
    by (simp_all add: dev_vfs_def del: list.map)
qed

theorem fs_getfs_longest_witness:
  "\<exists>rel. fs_getfs dev_vfs (lit ''/dev/fb'') = Inr (Some (1, rel)) \<and> path_tokens rel = [map of_char ''fb'']"
proof -
  let ?p = "lit ''/dev/fb''" and ?d = "map of_char ''dev'' :: byte list" and ?f = "map of_char ''fb'' :: byte list"
  have p: "terminated ?p" "length (cstr ?p) < PATH_MAX" by (simp_all add: lit_def PATH_MAX_def)
  have n: "length [?d, ?f] = 2" by (simp del: list.map)
  from fs_getfs_longest [OF dev_wf p, unfolded dev_tokens n] obtain r where
    r: "fs_getfs dev_vfs ?p = Inr (map_option fst r)"
      "longest (\<lambda>k. mount_of (mount_root dev_vfs) (take k [?d, ?f])) 2 (map_option (\<lambda>((f, rel), k). (f, k)) r)"
      "\<forall>f rel k. r = Some ((f, rel), k) \<longrightarrow> path_tokens rel = drop k [?d, ?f]"
    by blast
  define M where "M = (\<lambda>k. mount_of (mount_root dev_vfs) (take k [?d, ?f]))"
  have m: "M 1 = Some 1" "M 2 = None" unfolding M_def using dev_mounts by simp_all
  note l = r(2) [folded M_def]
  obtain g rel k where s: "r = Some ((g, rel), k)" using l m(1) by (cases r) auto
  have "k \<noteq> 2" "\<not> k < 1" "k \<le> 2" "M k = Some g" using l m unfolding s by auto
  then have "k = 1" "g = 1" using m by (auto simp: le_less_Suc_eq numeral_2_eq_2 le_Suc_eq)
  with r s show ?thesis by (auto simp del: list.map)
qed



lemma unmount_child_frees:
  "(\<forall>j \<in> set ns. wf_tree j) \<Longrightarrow> \<exists>f. unmount_child ns = Inr f \<and> length ns \<le> length f"
proof (induction ns rule: unmount_child.induct)
  case (2 node sibling)
  then have "wf_tree node" by simp
  then obtain cs where cs: "mchild node = Some cs" "\<forall>j \<in> set cs. wf_tree j" by (rule wf_treeD)
  from "2.IH"(1) [OF cs] "2.IH"(2) [OF cs(1)] "2.prems" cs show ?case by auto
qed simp

lemma getfs_dangling:
  assumes "mchild (mount_root v) = None" "terminated p" "length (cstr p) < PATH_MAX" "path_tokens p \<noteq> []"
  shows "fs_getfs v p = Inl BadAccess"
proof -
  from path_loop [OF assms(2,3)] obtain path ts where
    l: "strncpy (replicate PATH_MAX 0) 0 p PATH_MAX = Inr path" "strtok_loop slash (Some 0) 0 path = Inr ts"
      "map fst ts = path_tokens p" by blast
  with assms(4) obtain t save us where "ts = (t, save) # us" by (cases ts) auto
  with l(1) assms(1) show ?thesis
    by (simp add: fs_getfs_def strtok_iter_fold [OF l(2)] getfs_body_def)
qed

text \<open>
  Mounting over a directory that has mounts below it frees the nodes below but keeps
  the pointer to them: after a second mount of the root, the lookup of any path with a component
  reads freed memory.
\<close>

theorem mount_over_mounts_dangles:
  assumes "wf_tree (mount_root v)" "mchild (mount_root v) = Some (j # js)"
  shows "\<exists>v'. fs_mount fo io (lit ''/'') None fs v = Inr (0, v') \<and>
    (\<forall>p. terminated p \<and> length (cstr p) < PATH_MAX \<and> path_tokens p \<noteq> [] \<longrightarrow> fs_getfs v' p = Inl BadAccess)"
proof -
  from assms have "\<forall>j \<in> set (j # js). wf_tree j" by (metis option.inject wf_treeD)
  then obtain freed where f: "unmount_child (j # js) = Inr freed" using unmount_child_frees by blast
  have p: "terminated (lit ''/'')" "length (cstr (lit ''/'')) < PATH_MAX" by (simp_all add: lit_def PATH_MAX_def)
  from path_loop [OF p] obtain path ts where
    l: "strncpy (replicate PATH_MAX 0) 0 (lit ''/'') PATH_MAX = Inr path" "strtok_loop slash (Some 0) 0 path = Inr ts"
      "map fst ts = path_tokens (lit ''/'')" by blast
  let ?n = "MTree (mname (mount_root v)) True (mid (mount_root v)) None"
  have "mount_at [] (mount_root v) (next_mnt v) = Inr (?n, mid (mount_root v), freed, next_mnt v)"
    using f assms(2) by simp
  then obtain v' where "fs_mount fo io (lit ''/'') None fs v = Inr (0, v')" "mount_root v' = ?n"
    by (simp add: fs_mount_def l dev_tokens Let_def)
  then show ?thesis using getfs_dangling [of v'] by auto
qed

theorem mount_over_mounts_dangles_witness:
  "\<exists>v'. fs_mount (\<lambda>_. undefined) (\<lambda>_. undefined) (lit ''/'') None Tarfs dev_vfs = Inr (0, v') \<and>
    fs_getfs v' (lit ''/dev'') = Inl BadAccess"
proof -
  have "mchild (mount_root dev_vfs) = Some [MTree (map of_char ''dev'' @ replicate 253 0) True 1 (Some [])]"
    by (simp add: dev_vfs_def)
  from mount_over_mounts_dangles [OF dev_wf this, of "\<lambda>_. undefined" "\<lambda>_. undefined" Tarfs] obtain v' where
    v: "fs_mount (\<lambda>_. undefined) (\<lambda>_. undefined) (lit ''/'') None Tarfs dev_vfs = Inr (0, v')"
      "\<And>p. terminated p \<and> length (cstr p) < PATH_MAX \<and> path_tokens p \<noteq> [] \<Longrightarrow> fs_getfs v' p = Inl BadAccess" by blast
  have "terminated (lit ''/dev'') \<and> length (cstr (lit ''/dev'')) < PATH_MAX \<and> path_tokens (lit ''/dev'') \<noteq> []"
    by (simp add: dev_tokens) (simp add: lit_def PATH_MAX_def)
  with v show ?thesis by blast
qed

end
