(* ===== verification/Devfs.thy ===== *)
theory Devfs
  imports Vfs
begin

text \<open>
  The file system of devices, \<open>kernel/fs/devfs.c\<close>: a fixed directory of the terminals and the
  frame buffer, with the device numbers of \<open>kernel/device.h\<close>.
\<close>

section \<open>The source\<close>

datatype device_major = DEV_INITRD_M | DEV_VGATTY | DEV_RANDOM | DEV_COMTTY | DEV_FB | DEV_FBTTY

fun major_num :: "device_major \<Rightarrow> u32" where
  "major_num DEV_INITRD_M = 0"
| "major_num DEV_VGATTY = 1"
| "major_num DEV_RANDOM = 2"
| "major_num DEV_COMTTY = 3"
| "major_num DEV_FB = 4"
| "major_num DEV_FBTTY = 5"

definition DEVFS_ID_ROOT :: nat where "DEVFS_ID_ROOT = 0"
definition DEVFS_ID_OTHER :: nat where "DEVFS_ID_OTHER = 1"

definition dopen :: "inode \<Rightarrow> kfile \<Rightarrow> u32 \<Rightarrow> 'a vfs_scheme \<Rightarrow> kerr + (int \<times> kfile \<times> 'a vfs_scheme)" where
  "dopen i f flags v = Inr (if inode_id i = DEVFS_ID_ROOT then 0 else err EPERM, f, v)"

definition dgetroot :: "nat \<Rightarrow> inode \<Rightarrow> 'a vfs_scheme \<Rightarrow> kerr + (int \<times> inode \<times> 'a vfs_scheme)" where
  "dgetroot fs i v = Inr (0, i\<lparr>ifs := Some fs, iexec := False, iftype := FT_DIR, inode_id := DEVFS_ID_ROOT\<rparr>, v)"

definition dev_name :: "int \<Rightarrow> (nat \<times> byte list) option" where
  "dev_name off =
     (if off = 0 then Some (0, lit ''vgatty'')
      else if off = 1 then Some (1, lit ''comtty'')
      else if off = 2 then Some (2, lit ''fb'')
      else if off = 3 then Some (3, lit ''fbtty'')
      else None)"

definition dgetdent :: "kfile \<Rightarrow> petix_dirent \<Rightarrow> 'a vfs_scheme \<Rightarrow> kerr + (int \<times> petix_dirent \<times> kfile \<times> 'a vfs_scheme)" where
  "dgetdent f d v =
     (let d = d\<lparr>d_type := FT_SPECIAL\<rparr> in
      kbind (case dev_name (foffset f) of
               None \<Rightarrow> Inr (d\<lparr>d_present := False\<rparr>)
             | Some (i, n) \<Rightarrow> kbind (strncpy (d_name d) 0 n FILE_NAME_LEN) (\<lambda>dn.
                 Inr (d\<lparr>d_inode_id := i, d_present := True, d_name := dn\<rparr>))) (\<lambda>d.
      Inr (0, d, f\<lparr>foffset := foffset f + 1\<rparr>, v)))"

definition dlookup_all :: "nat \<Rightarrow> byte list \<Rightarrow> inode \<Rightarrow> 'a vfs_scheme \<Rightarrow> kerr + (int \<times> inode \<times> 'a vfs_scheme)" where
  "dlookup_all fs path i v =
     (let i = i\<lparr>iexec := False, iftype := FT_SPECIAL, ifs := Some fs, inode_id := DEVFS_ID_OTHER\<rparr> in
      kbind (strcmp path (lit ''vgatty'')) (\<lambda>c1.
      if c1 = 0 then Inr (0, i\<lparr>idev := MKDEV (major_num DEV_VGATTY) 0\<rparr>, v)
      else kbind (strcmp path (lit ''comtty'')) (\<lambda>c2.
      if c2 = 0 then Inr (0, i\<lparr>idev := MKDEV (major_num DEV_COMTTY) 0\<rparr>, v)
      else kbind (strcmp path (lit ''fb'')) (\<lambda>c3.
      if c3 = 0 then Inr (0, i\<lparr>idev := MKDEV (major_num DEV_FB) 0\<rparr>, v)
      else kbind (strcmp path (lit ''fbtty'')) (\<lambda>c4.
      if c4 = 0 then Inr (0, i\<lparr>idev := MKDEV (major_num DEV_FBTTY) 0\<rparr>, v)
      else Inr (err ENOENT, i, v))))))"

definition devfs_fops :: "'a vfs_scheme file_ops" where
  "devfs_fops = no_ops\<lparr>op_open := Some dopen, op_getdent := Some dgetdent\<rparr>"

definition get_devfs :: "'a vfs_scheme inode_ops" where
  "get_devfs = \<lparr>reg_ops = Devfs_fops, op_getroot = Some dgetroot, op_lookup = None, op_lookup_all = Some dlookup_all,
     op_creat = None, op_mkdir = None\<rparr>"

section \<open>Lemmas\<close>

text \<open>The devices of the directory, in the order it lists them.\<close>

definition dev_table :: "(byte list \<times> device_major) list" where
  "dev_table = [(map of_char ''vgatty'', DEV_VGATTY), (map of_char ''comtty'', DEV_COMTTY),
     (map of_char ''fb'', DEV_FB), (map of_char ''fbtty'', DEV_FBTTY)]"

lemma cstr_lit: "0 \<notin> set (map of_char s :: byte list) \<Longrightarrow> cstr (lit s) = map of_char s"
  by (simp add: lit_def)

lemma dlookup_all_eq:
  assumes "terminated path"
  shows "\<exists>i'. dlookup_all fs path i v = Inr (if map_of dev_table (cstr path) = None then err ENOENT else 0, i', v) \<and>
    iftype i' = FT_SPECIAL \<and> (\<forall>m. map_of dev_table (cstr path) = Some m \<longrightarrow> idev i' = MKDEV (major_num m) 0)"
proof -
  have eq: "\<exists>c. strcmp path (lit s) = Inr c \<and> (c = 0 \<longleftrightarrow> cstr path = map of_char s)"
    if "0 \<notin> set (map of_char s :: byte list)" for s
    using strcmp_refines [OF assms, of "lit s"] cstr_lit [OF that] by simp
  obtain c1 c2 c3 c4 where "strcmp path (lit ''vgatty'') = Inr c1 \<and> (c1 = 0 \<longleftrightarrow> cstr path = map of_char ''vgatty'')"
    "strcmp path (lit ''comtty'') = Inr c2 \<and> (c2 = 0 \<longleftrightarrow> cstr path = map of_char ''comtty'')"
    "strcmp path (lit ''fb'') = Inr c3 \<and> (c3 = 0 \<longleftrightarrow> cstr path = map of_char ''fb'')"
    "strcmp path (lit ''fbtty'') = Inr c4 \<and> (c4 = 0 \<longleftrightarrow> cstr path = map of_char ''fbtty'')"
    using eq [of "''vgatty''"] eq [of "''comtty''"] eq [of "''fb''"] eq [of "''fbtty''"] by auto
  then show ?thesis by (auto simp: dlookup_all_def Let_def dev_table_def)
qed

lemma dgetdent_eq:
  assumes "length (d_name d) = FILE_NAME_LEN" "foffset f = int k"
  shows "\<exists>d'. dgetdent f d v = Inr (0, d', f\<lparr>foffset := int (k + 1)\<rparr>, v) \<and> d_present d' = (k < length dev_table) \<and>
    d_type d' = FT_SPECIAL \<and> length (d_name d') = FILE_NAME_LEN \<and>
    (k < length dev_table \<longrightarrow> cstr (d_name d') = fst (dev_table ! k))"
proof (cases "k < length dev_table")
  case True
  let ?s = "fst (dev_table ! k)"
  from True have k: "k = 0 \<or> k = 1 \<or> k = 2 \<or> k = 3" by (auto simp: dev_table_def)
  then have n: "dev_name (int k) = Some (k, ?s @ [0])" "0 \<notin> set ?s" "length ?s < FILE_NAME_LEN"
    by (auto simp: dev_name_def dev_table_def lit_def FILE_NAME_LEN_def)
  then obtain z where z: "FILE_NAME_LEN - length ?s = Suc z" by (metis Suc_diff_Suc)
  have "strncpy (d_name d) 0 (?s @ [0]) FILE_NAME_LEN = Inr (?s @ replicate (Suc z) 0)"
    using strncpy_eq [of "?s @ [0]" FILE_NAME_LEN 0 "d_name d"] assms(1) n z by (simp del: replicate_Suc)
  with n assms True z show ?thesis by (simp add: dgetdent_def Let_def)
next
  case False
  then have "dev_name (int k) = None" by (simp add: dev_name_def dev_table_def)
  with False assms show ?thesis by (simp add: dgetdent_def Let_def)
qed

section \<open>Properties\<close>

text \<open>
  Claim C29. The device directory lists exactly what it finds: the \<open>k\<close>-th entry \<open>getdent\<close> gives is
  the \<open>k\<close>-th device for the four devices there are and the listing then ends; \<open>lookup_all\<close> of a
  name succeeds just for those four, with a special inode of the major number
  \<open>kernel/device.h\<close> assigns.
\<close>

theorem devfs_lists_what_it_finds:
  assumes "length (d_name d) = FILE_NAME_LEN" "foffset f = int k" "terminated path"
  shows "(\<exists>d'. dgetdent f d v = Inr (0, d', f\<lparr>foffset := int (k + 1)\<rparr>, v) \<and> d_present d' = (k < length dev_table) \<and>
      (k < length dev_table \<longrightarrow> cstr (d_name d') = fst (dev_table ! k))) \<and>
    (\<exists>i' ret. dlookup_all fs path i v = Inr (ret, i', v) \<and> (ret = 0 \<longleftrightarrow> cstr path \<in> fst ` set dev_table) \<and>
      (\<forall>m. map_of dev_table (cstr path) = Some m \<longrightarrow> iftype i' = FT_SPECIAL \<and> MAJOR (idev i') = major_num m))"
proof -
  have maj: "MAJOR (MKDEV (major_num m) 0) = major_num m" for m
    by (cases m) (simp_all add: MAJOR_def MKDEV_def)
  have "map_of dev_table (cstr path) \<noteq> None \<longleftrightarrow> cstr path \<in> fst ` set dev_table"
    by (simp add: map_of_eq_None_iff)
  with dgetdent_eq [OF assms(1,2), of v] dlookup_all_eq [OF assms(3), of fs i v] maj errno_pos [of ENOENT] show ?thesis by force
qed

theorem devfs_lists_what_it_finds_witness:
  "\<exists>d' i' ret. dgetdent (null_file\<lparr>foffset := int 2\<rparr>)
     \<lparr>d_inode_id = 0, d_present = False, d_type = FT_DIR, d_name = replicate FILE_NAME_LEN 0\<rparr> boot_vfs =
       Inr (0, d', null_file\<lparr>foffset := 3\<rparr>, boot_vfs) \<and> cstr (d_name d') = map of_char ''fb'' \<and>
     dlookup_all 0 (lit ''fb'') null_inode boot_vfs = Inr (ret, i', boot_vfs) \<and> ret = 0 \<and> MAJOR (idev i') = 4"
proof -
  have p: "terminated (lit ''fb'')" "cstr (lit ''fb'') = map of_char ''fb''" by (simp_all add: lit_def)
  have m: "map_of dev_table (map of_char ''fb'') = Some DEV_FB" "map of_char ''fb'' \<in> fst ` set dev_table"
    "fst (dev_table ! 2) = map of_char ''fb''" "2 < length dev_table"
    by (simp_all add: dev_table_def)
  let ?d = "\<lparr>d_inode_id = 0, d_present = False, d_type = FT_DIR, d_name = replicate FILE_NAME_LEN 0\<rparr>"
  note w = devfs_lists_what_it_finds [of ?d "null_file\<lparr>foffset := int 2\<rparr>" 2 "lit ''fb''" boot_vfs 0 null_inode, unfolded p(2)]
  from w obtain d' where d: "dgetdent (null_file\<lparr>foffset := int 2\<rparr>) ?d boot_vfs = Inr (0, d', null_file\<lparr>foffset := 3\<rparr>, boot_vfs)"
    "cstr (d_name d') = map of_char ''fb''" using p(1) m(3,4) by auto
  from w obtain i' ret where "dlookup_all 0 (lit ''fb'') null_inode boot_vfs = Inr (ret, i', boot_vfs)" "ret = 0" "MAJOR (idev i') = 4"
    using p(1) m(1,2) by auto
  with d show ?thesis by blast
qed

end
