(* ===== verification/Tarfs.thy ===== *)
theory Tarfs
  imports Vfs
begin

unbundle bit_operations_syntax

text \<open>
  Archives and the file system on them: \<open>kernel/tar.c\<close>, the initial ramdisk device
  \<open>kernel/device/initrd.c\<close> and \<open>kernel/fs/tarfs.c\<close>. The ramdisk is a list of bytes. A
  \<open>struct tar *\<close> is the block (or the ramdisk from the block on) it points to; its fields are at
  the offsets of \<open>struct tar\<close>.
\<close>

section \<open>The source: archives\<close>

definition TAR_BLOCKSIZE :: nat where "TAR_BLOCKSIZE = 512"

definition tar_name :: "byte list \<Rightarrow> byte list" where "tar_name h = h"
definition tar_mode :: "byte list \<Rightarrow> byte list" where "tar_mode h = drop 100 h"
definition tar_size :: "byte list \<Rightarrow> byte list" where "tar_size h = drop 124 h"
definition tar_typeflag :: "byte list \<Rightarrow> kerr + byte" where "tar_typeflag h = rd h 156"
definition tar_devmajor :: "byte list \<Rightarrow> byte list" where "tar_devmajor h = drop 329 h"
definition tar_devminor :: "byte list \<Rightarrow> byte list" where "tar_devminor h = drop 337 h"

definition REGTYPE :: byte where "REGTYPE = 0x30"
definition CHRTYPE :: byte where "CHRTYPE = 0x33"
definition BLKTYPE :: byte where "BLKTYPE = 0x34"
definition DIRTYPE :: byte where "DIRTYPE = 0x35"

fun tar_field_from :: "u32 \<Rightarrow> byte list \<Rightarrow> kerr + u32" where
  "tar_field_from n [] = Inl BadAccess"
| "tar_field_from n (c # f) =
     (if c \<noteq> 0 then tar_field_from (n * 8 + (char_to_u32 c - 0x30)) f else Inr n)"

definition tar_field :: "byte list \<Rightarrow> kerr + u32" where
  "tar_field f = tar_field_from 0 f"

definition tar_next :: "byte list \<Rightarrow> kerr + byte list option" where
  "tar_next header =
     kbind (tar_field (tar_size header)) (\<lambda>sz.
     let fblocks = (sz + of_nat TAR_BLOCKSIZE - 1) div of_nat TAR_BLOCKSIZE;
         nxt = drop (unat ((fblocks + 1) * of_nat TAR_BLOCKSIZE)) header
     in kbind (rd (tar_name nxt) 0) (\<lambda>c. Inr (if c = 0 then None else Some nxt)))"

definition tar_contents :: "byte list \<Rightarrow> kerr + byte list" where
  "tar_contents header =
     kbind (tar_field (tar_size header)) (\<lambda>sz.
     Inr (if sz = 0 then lit [] else drop TAR_BLOCKSIZE header))"

definition tar_next_blk :: "byte list \<Rightarrow> u32 \<Rightarrow> kerr + u32" where
  "tar_next_blk header fblock =
     kbind (tar_field (tar_size header)) (\<lambda>sz.
     let nblocks = (sz + of_nat TAR_BLOCKSIZE - 1) div of_nat TAR_BLOCKSIZE
     in Inr (fblock + nblocks + 1))"

section \<open>The source: the ramdisk device\<close>

record tvfs = vfs +
  initrd :: "byte list"   \<comment> \<open>the bytes from \<open>start\<close> to \<open>end\<close>\<close>

definition initrd_open :: "inode \<Rightarrow> kfile \<Rightarrow> u32 \<Rightarrow> 'a tvfs_scheme \<Rightarrow> kerr + (int \<times> kfile \<times> 'a tvfs_scheme)" where
  "initrd_open i f flags v = Inr (0, f\<lparr>fsize := int (length (initrd v))\<rparr>, v)"

text \<open>The 64-bit minimum is converted to \<open>size_t\<close>; \<open>memcpy\<close> reads the ramdisk from the offset on.\<close>

definition initrd_read :: "kfile \<Rightarrow> nat \<Rightarrow> 'a tvfs_scheme \<Rightarrow> kerr + (int \<times> byte list \<times> kfile \<times> 'a tvfs_scheme)" where
  "initrd_read f n v =
     (let len = unat (word_of_int (min (fsize f - foffset f) (int n)) :: u32) in
      if 0 \<le> foffset f \<and> foffset f + int len \<le> int (length (initrd v))
      then Inr (int len, take len (drop (nat (foffset f)) (initrd v)), f\<lparr>foffset := foffset f + int len\<rparr>, v)
      else Inl BadAccess)"

definition DEV_INITRD :: nat where "DEV_INITRD = 0"

definition initrd_fops :: "'a tvfs_scheme file_ops" where
  "initrd_fops = no_ops\<lparr>op_open := Some initrd_open, op_lseek := Some fs_default_lseek, op_read := Some initrd_read\<rparr>"

definition initrd_init :: "byte list \<Rightarrow> 'a tvfs_scheme \<Rightarrow> kerr + 'a tvfs_scheme" where
  "initrd_init img v =
     kbind (register_device (int DEV_INITRD) (Device_fops DEV_INITRD) (v\<lparr>initrd := img\<rparr>)) (\<lambda>(_, v'). Inr v')"

section \<open>The source: the file system\<close>

text \<open>
  \<open>fo\<close> are the tables of the file operations, for the calls through the \<open>file\<close> the file system is
  mounted on.
\<close>

definition ID_ROOT :: nat where "ID_ROOT = 0xffffffff"

definition topen :: "inode \<Rightarrow> kfile \<Rightarrow> u32 \<Rightarrow> 'a vfs_scheme \<Rightarrow> kerr + (int \<times> kfile \<times> 'a vfs_scheme)" where
  "topen i f flags v =
     Inr (0, f\<lparr>fsize := int (isize i),
               fprivate := (if inode_id i = ID_ROOT then 0
                            else ucast ((of_nat (inode_id i) + 1) * of_nat TAR_BLOCKSIZE :: u32))\<rparr>, v)"

text \<open>\<open>lseek\<close> to an offset and \<open>read\<close> on the file the file system \<open>fs\<close> is mounted on.\<close>

definition fs_read_at :: "(fops \<Rightarrow> 'a vfs_scheme file_ops) \<Rightarrow> nat option \<Rightarrow> int \<Rightarrow> nat \<Rightarrow> 'a vfs_scheme \<Rightarrow>
    kerr + (int \<times> byte list \<times> 'a vfs_scheme)" where
  "fs_read_at fo fs off n v =
     kbind (get_inst fs v) (\<lambda>inst.
     kbind (fnptr (inst_file inst)) (\<lambda>file.
     kbind (fnptr (ffops file)) (\<lambda>fops.
     kbind (fnptr (op_lseek (fo fops))) (\<lambda>lseek.
     kbind (fnptr (op_read (fo fops))) (\<lambda>read.
     kbind (read (snd (lseek file off SEEK_SET)) n v) (\<lambda>(ret, bs, file', v').
     Inr (ret, bs, v'\<lparr>insts := (insts v')(the fs \<mapsto> inst\<lparr>inst_file := Some file'\<rparr>)\<rparr>)))))))"

definition tread :: "(fops \<Rightarrow> 'a vfs_scheme file_ops) \<Rightarrow> kfile \<Rightarrow> nat \<Rightarrow> 'a vfs_scheme \<Rightarrow>
    kerr + (int \<times> byte list \<times> kfile \<times> 'a vfs_scheme)" where
  "tread fo f n v =
     (let len = unat (word_of_int (min (fsize f - foffset f) (int n)) :: u32);
          off = sint (fprivate f) + foffset f
      in kbind (fs_read_at fo (ifs (finode f)) off len v) (\<lambda>(ret, bs, v').
         Inr (ret, bs, (if ret > 0 then f\<lparr>foffset := foffset f + ret\<rparr> else f), v')))"

text \<open>A \<open>struct tar\<close> on the stack that a read of a block overwrites, as far as the read goes.\<close>

definition fill_buf :: "byte list \<Rightarrow> byte list \<Rightarrow> byte list" where
  "fill_buf buf bs = bs @ drop (length bs) buf"

definition dt_of :: "byte \<Rightarrow> ftype \<Rightarrow> ftype" where
  "dt_of typeflag old =
     (if typeflag = REGTYPE then FT_REGULAR else if typeflag = DIRTYPE then FT_DIR
      else if typeflag = CHRTYPE \<or> typeflag = BLKTYPE then FT_SPECIAL else old)"

text \<open>
  The loop of \<open>getdent\<close> over the headers. \<open>fuel\<close> bounds the rounds; \<open>None\<close> is running out of it.
\<close>

fun getdent_loop :: "nat \<Rightarrow> (fops \<Rightarrow> 'a vfs_scheme file_ops) \<Rightarrow> byte list \<Rightarrow> u32 \<Rightarrow> byte list \<Rightarrow> kfile \<Rightarrow> petix_dirent \<Rightarrow>
    'a vfs_scheme \<Rightarrow> (kerr + (int \<times> petix_dirent \<times> kfile \<times> 'a vfs_scheme)) option" where
  "getdent_loop 0 fo name blk buf f d v = None"
| "getdent_loop (Suc fuel) fo name blk buf f d v =
     (case fs_read_at fo (ifs (finode f)) (uint (blk * of_nat TAR_BLOCKSIZE)) TAR_BLOCKSIZE v of
        Inl e \<Rightarrow> Some (Inl e)
      | Inr (_, bs, v) \<Rightarrow>
          let tar = fill_buf buf bs; f = f\<lparr>foffset := uint (blk * of_nat TAR_BLOCKSIZE)\<rparr> in
          case kbind (strnlen name 100) (\<lambda>prefix_len.
               kbind (rd (tar_name tar) 0) (\<lambda>c.
               kbind (if c = 0 then Inr True
                      else kbind (strncmp (tar_name tar) name prefix_len) (\<lambda>r. Inr (r \<noteq> 0))) (\<lambda>stop.
               if stop then Inr (prefix_len, True, False)
               else kbind (strchr (drop prefix_len (tar_name tar)) 47) (\<lambda>s.
                    case s of
                      None \<Rightarrow> Inr (prefix_len, False, True)
                    | Some k \<Rightarrow> kbind (rd (tar_name tar) (prefix_len + k + 1)) (\<lambda>b. Inr (prefix_len, False, b = 0)))))) of
            Inl e \<Rightarrow> Some (Inl e)
          | Inr (prefix_len, True, _) \<Rightarrow> Some (Inr (0, d\<lparr>d_present := False\<rparr>, f, v))
          | Inr (prefix_len, False, direct) \<Rightarrow>
              if direct
              then Some
                (kbind (tar_typeflag tar) (\<lambda>tf.
                 kbind (strncpy (d_name d) 0 (drop prefix_len (tar_name tar)) 100) (\<lambda>dn.
                 kbind (strtok_r (Some 0) slash 0 dn) (\<lambda>(_, _, dn).
                 kbind (tar_next_blk tar blk) (\<lambda>blk'.
                 Inr (0, d\<lparr>d_inode_id := unat blk, d_present := True, d_type := dt_of tf (d_type d), d_name := dn\<rparr>,
                      f\<lparr>foffset := uint (blk' * of_nat TAR_BLOCKSIZE) - sint (fprivate f)\<rparr>, v))))))
              else (case tar_next_blk tar blk of
                      Inl e \<Rightarrow> Some (Inl e)
                    | Inr blk' \<Rightarrow> getdent_loop fuel fo name blk' tar f d v))"

definition tgetdent :: "nat \<Rightarrow> (fops \<Rightarrow> 'a vfs_scheme file_ops) \<Rightarrow> byte list \<Rightarrow> byte list \<Rightarrow> kfile \<Rightarrow> petix_dirent \<Rightarrow>
    'a vfs_scheme \<Rightarrow> (kerr + (int \<times> petix_dirent \<times> kfile \<times> 'a vfs_scheme)) option" where
  "tgetdent fuel fo name0 buf0 f d v =
     (if iftype (finode f) \<noteq> FT_DIR then Some (Inr (err ENOTDIR, d, f, v))
      else
        let initblk = word_of_int ((sint (fprivate f) + foffset f) div int TAR_BLOCKSIZE) in
        if inode_id (finode f) = ID_ROOT then getdent_loop fuel fo (name0[0 := 0]) initblk buf0 f d v
        else (case fs_read_at fo (ifs (finode f)) (sint (fprivate f) - int TAR_BLOCKSIZE) 100 v of
                Inl e \<Rightarrow> Some (Inl e)
              | Inr (_, bs, v) \<Rightarrow> getdent_loop fuel fo (fill_buf name0 bs) initblk buf0 f d v))"

definition tgetroot :: "nat \<Rightarrow> inode \<Rightarrow> 'a vfs_scheme \<Rightarrow> kerr + (int \<times> inode \<times> 'a vfs_scheme)" where
  "tgetroot fs i v = Inr (0, i\<lparr>ifs := Some fs, iexec := False, iftype := FT_DIR, inode_id := ID_ROOT\<rparr>, v)"

text \<open>The test of \<open>lookup_all\<close> whether a header names the path.\<close>

definition tar_match :: "byte list \<Rightarrow> byte list \<Rightarrow> kerr + bool" where
  "tar_match tar path =
     kbind (strnlen path 100) (\<lambda>pathlen.
     kbind (strncmp (tar_name tar) path 100) (\<lambda>c1.
     if c1 = 0 then Inr True
     else kbind (strncmp (tar_name tar) path pathlen) (\<lambda>c2.
          if c2 = 0
          then kbind (rd tar pathlen) (\<lambda>a.
               if a = 47 then kbind (rd tar (pathlen + 1)) (\<lambda>b. Inr (b = 0)) else Inr False)
          else Inr False)))"

text \<open>The inode that a matching header gives.\<close>

definition tar_inode :: "nat \<Rightarrow> byte list \<Rightarrow> u32 \<Rightarrow> inode \<Rightarrow> kerr + inode" where
  "tar_inode fs tar blk i =
     kbind (tar_field (tar_mode tar)) (\<lambda>mode.
     kbind (tar_typeflag tar) (\<lambda>tf.
     kbind (if tf = REGTYPE then Inr (i\<lparr>iftype := FT_REGULAR\<rparr>)
            else if tf = DIRTYPE then Inr (i\<lparr>iftype := FT_DIR\<rparr>)
            else if tf = CHRTYPE \<or> tf = BLKTYPE
            then kbind (tar_field (tar_devmajor tar)) (\<lambda>ma.
                 kbind (tar_field (tar_devminor tar)) (\<lambda>mi. Inr (i\<lparr>iftype := FT_SPECIAL, idev := MKDEV ma mi\<rparr>)))
            else Inl Panic) (\<lambda>i.
     kbind (tar_field (tar_size tar)) (\<lambda>sz.
     Inr (i\<lparr>iexec := (mode AND 0x49 \<noteq> 0), isize := unat sz, inode_id := unat blk, ifs := Some fs\<rparr>)))))"

fun lookup_loop :: "nat \<Rightarrow> (fops \<Rightarrow> 'a vfs_scheme file_ops) \<Rightarrow> nat \<Rightarrow> byte list \<Rightarrow> u32 \<Rightarrow> byte list \<Rightarrow> inode \<Rightarrow>
    'a vfs_scheme \<Rightarrow> (kerr + (int \<times> inode \<times> 'a vfs_scheme)) option" where
  "lookup_loop 0 fo fs path blk buf i v = None"
| "lookup_loop (Suc fuel) fo fs path blk buf i v =
     (case fs_read_at fo (Some fs) (uint (blk * of_nat TAR_BLOCKSIZE)) TAR_BLOCKSIZE v of
        Inl e \<Rightarrow> Some (Inl e)
      | Inr (_, bs, v) \<Rightarrow>
          let tar = fill_buf buf bs in
          case kbind (rd (tar_name tar) 0) (\<lambda>c. if c = 0 then Inr None else kbind (tar_match tar path) (\<lambda>m. Inr (Some m))) of
            Inl e \<Rightarrow> Some (Inl e)
          | Inr None \<Rightarrow> Some (Inr (err ENOENT, i, v))
          | Inr (Some True) \<Rightarrow> Some (kbind (tar_inode fs tar blk i) (\<lambda>i. Inr (0, i, v)))
          | Inr (Some False) \<Rightarrow>
              (case tar_next_blk tar blk of
                 Inl e \<Rightarrow> Some (Inl e)
               | Inr blk' \<Rightarrow> lookup_loop fuel fo fs path blk' tar i v))"

definition tlookup_all :: "nat \<Rightarrow> (fops \<Rightarrow> 'a vfs_scheme file_ops) \<Rightarrow> byte list \<Rightarrow> nat \<Rightarrow> byte list \<Rightarrow> inode \<Rightarrow>
    'a vfs_scheme \<Rightarrow> (kerr + (int \<times> inode \<times> 'a vfs_scheme)) option" where
  "tlookup_all fuel fo buf0 fs path i v = lookup_loop fuel fo fs path 0 buf0 i v"

text \<open>
  The tables \<open>get_tarfs\<close> fills in. The loops get \<open>fuel\<close> rounds; \<open>name0\<close> and \<open>buf0\<close> are what the
  stack arrays hold before they are written.
\<close>

definition spin :: "(kerr + 'b) option \<Rightarrow> kerr + 'b" where
  "spin r = (case r of None \<Rightarrow> Inl Spin | Some x \<Rightarrow> x)"

definition tarfs_fops :: "nat \<Rightarrow> byte list \<Rightarrow> byte list \<Rightarrow> (fops \<Rightarrow> 'a vfs_scheme file_ops) \<Rightarrow> 'a vfs_scheme file_ops" where
  "tarfs_fops fuel name0 buf0 fo = no_ops\<lparr>op_open := Some topen, op_lseek := Some fs_default_lseek,
     op_read := Some (tread fo), op_getdent := Some (\<lambda>f d v. spin (tgetdent fuel fo name0 buf0 f d v))\<rparr>"

definition get_tarfs :: "nat \<Rightarrow> byte list \<Rightarrow> (fops \<Rightarrow> 'a vfs_scheme file_ops) \<Rightarrow> 'a vfs_scheme inode_ops" where
  "get_tarfs fuel buf0 fo = \<lparr>reg_ops = Tarfs_fops, op_getroot = Some tgetroot, op_lookup = None,
     op_lookup_all = Some (\<lambda>fs path i v. spin (tlookup_all fuel fo buf0 fs path i v)), op_creat = None, op_mkdir = None\<rparr>"

declare getdent_loop.simps [simp del] lookup_loop.simps [simp del]

section \<open>Octal fields\<close>

text \<open>The reference: \<open>k\<close> octal digits, most significant first.\<close>

fun octal :: "nat \<Rightarrow> nat \<Rightarrow> byte list" where
  "octal 0 n = []"
| "octal (Suc k) n = octal k (n div 8) @ [of_nat (0x30 + n mod 8)]"

lemma length_octal [simp]: "length (octal k n) = k"
  by (induction k arbitrary: n) simp_all

lemma octal_digit:
  assumes "d < 8"
  shows "(of_nat (0x30 + d) :: byte) \<noteq> 0" "char_to_u32 (of_nat (0x30 + d) :: byte) - 0x30 = of_nat d"
proof -
  from assms consider "d = 0" | "d = 1" | "d = 2" | "d = 3" | "d = 4" | "d = 5" | "d = 6" | "d = 7" by linarith
  then show "(of_nat (0x30 + d) :: byte) \<noteq> 0" "char_to_u32 (of_nat (0x30 + d) :: byte) - 0x30 = of_nat d"
    by (cases; simp)+
qed

lemma octal_nz: "0 \<notin> set (octal k n)"
  by (induction k arbitrary: n) (use octal_digit(1) in auto)

lemma tar_field_octal_from:
  "n < 8 ^ k \<Longrightarrow> tar_field_from a (octal k n @ r) = tar_field_from (a * 8 ^ k + of_nat n) r"
proof (induction k arbitrary: n a r)
  case (Suc k)
  let ?d = "of_nat (0x30 + n mod 8) :: byte"
  have "n div 8 < 8 ^ k" using Suc.prems by (simp add: div_less_iff_less_mult mult.commute)
  from Suc.IH [OF this]
  have "tar_field_from a (octal (Suc k) n @ r) = tar_field_from (a * 8 ^ k + of_nat (n div 8)) (?d # r)" by simp
  also have "\<dots> = tar_field_from ((a * 8 ^ k + of_nat (n div 8)) * 8 + of_nat (n mod 8)) r"
    using octal_digit [of "n mod 8"] by simp
  also have "(a * 8 ^ k + of_nat (n div 8)) * 8 + of_nat (n mod 8) = a * 8 ^ Suc k + (of_nat (n div 8 * 8 + n mod 8) :: u32)"
    unfolding of_nat_add of_nat_mult by (simp add: algebra_simps)
  finally show ?case by (simp only: div_mult_mod_eq)
qed simp

lemma tar_field_octal: "n < 8 ^ k \<Longrightarrow> tar_field (octal k n @ 0 # r) = Inr (of_nat n)"
  by (simp add: tar_field_def tar_field_octal_from)

section \<open>Archives\<close>

text \<open>
  The reference: an archive as a list of members, and its bytes. The fields the kernel does not
  read are arbitrary bytes of their length.
\<close>

record tar_entry =
  te_name :: "byte list"
  te_mode :: nat
  te_ids :: "byte list"     \<comment> \<open>\<open>uid\<close>, \<open>gid\<close>\<close>
  te_stamp :: "byte list"   \<comment> \<open>\<open>mtime\<close>, \<open>chksum\<close>\<close>
  te_type :: byte
  te_link :: "byte list"    \<comment> \<open>\<open>linkname\<close> to \<open>gname\<close>\<close>
  te_major :: nat
  te_minor :: nat
  te_prefix :: "byte list"  \<comment> \<open>\<open>prefix\<close> and the end of the block\<close>
  te_data :: "byte list"

definition valid_entry :: "tar_entry \<Rightarrow> bool" where
  "valid_entry e \<longleftrightarrow> te_name e \<noteq> [] \<and> 0 \<notin> set (te_name e) \<and> length (te_name e) < 100 \<and> te_mode e < 8 ^ 7 \<and>
     length (te_ids e) = 16 \<and> length (te_stamp e) = 20 \<and> length (te_link e) = 172 \<and> length (te_prefix e) = 167 \<and>
     te_type e \<in> {REGTYPE, DIRTYPE, CHRTYPE, BLKTYPE} \<and> te_major e < 8 ^ 7 \<and> te_minor e < 8 ^ 7 \<and>
     length (te_data e) < 2 ^ 31"

definition tar_header :: "tar_entry \<Rightarrow> byte list" where
  "tar_header e =
     te_name e @ replicate (100 - length (te_name e)) 0 @ octal 7 (te_mode e) @ 0 # te_ids e @
     octal 11 (length (te_data e)) @ 0 # te_stamp e @ te_type e # te_link e @
     octal 7 (te_major e) @ 0 # octal 7 (te_minor e) @ 0 # te_prefix e"

definition nblocks :: "tar_entry \<Rightarrow> nat" where
  "nblocks e = (length (te_data e) + 511) div 512"

definition tar_enc :: "tar_entry \<Rightarrow> byte list" where
  "tar_enc e = tar_header e @ te_data e @ replicate (512 * nblocks e - length (te_data e)) 0"

definition tar_archive :: "tar_entry list \<Rightarrow> byte list" where
  "tar_archive es = concat (map tar_enc es) @ replicate 1024 0"

definition names :: "byte list \<Rightarrow> tar_entry \<Rightarrow> bool" where
  "names p e \<longleftrightarrow> te_name e = p \<or> te_name e = p @ [47]"

text \<open>The first member a path names, with the block of its header.\<close>

fun tar_find :: "byte list \<Rightarrow> nat \<Rightarrow> tar_entry list \<Rightarrow> (nat \<times> tar_entry) option" where
  "tar_find p b [] = None"
| "tar_find p b (e # es) = (if names p e then Some (b, e) else tar_find p (b + nblocks e + 1) es)"

definition entry_type :: "tar_entry \<Rightarrow> ftype" where
  "entry_type e = (if te_type e = REGTYPE then FT_REGULAR else if te_type e = DIRTYPE then FT_DIR else FT_SPECIAL)"

definition entry_inode :: "nat \<Rightarrow> nat \<Rightarrow> tar_entry \<Rightarrow> inode \<Rightarrow> inode" where
  "entry_inode fs b e i = i\<lparr>iexec := (of_nat (te_mode e) AND 0x49 \<noteq> (0 :: u32)), iftype := entry_type e,
     idev := (if entry_type e = FT_SPECIAL then MKDEV (of_nat (te_major e)) (of_nat (te_minor e)) else idev i),
     isize := length (te_data e), inode_id := b, ifs := Some fs\<rparr>"

lemma header_fields:
  assumes "valid_entry e"
  shows "length (tar_header e) = 512"
    "\<exists>r. tar_header e = te_name e @ 0 # r"
    "tar_field (tar_mode (tar_header e)) = Inr (of_nat (te_mode e))"
    "tar_field (tar_size (tar_header e)) = Inr (of_nat (length (te_data e)))"
    "tar_typeflag (tar_header e) = Inr (te_type e)"
    "tar_field (tar_devmajor (tar_header e)) = Inr (of_nat (te_major e))"
    "tar_field (tar_devminor (tar_header e)) = Inr (of_nat (te_minor e))"
proof -
  let ?n = "te_name e @ replicate (100 - length (te_name e)) 0"
  note v = assms [unfolded valid_entry_def]
  have n: "length ?n = 100" using v by simp
  have h: "tar_header e = ?n @ octal 7 (te_mode e) @ 0 # te_ids e @ octal 11 (length (te_data e)) @ 0 # te_stamp e @
     te_type e # te_link e @ octal 7 (te_major e) @ 0 # octal 7 (te_minor e) @ 0 # te_prefix e"
    by (simp add: tar_header_def)
  show "length (tar_header e) = 512" unfolding h using v n by simp
  obtain z where "100 - length (te_name e) = Suc z" using v by (metis Suc_diff_Suc)
  then show "\<exists>r. tar_header e = te_name e @ 0 # r" by (simp add: tar_header_def)
  have "(8 :: nat) ^ 11 > 2 ^ 31" by simp
  then have sz: "length (te_data e) < 8 ^ 11" using v by linarith
  show "tar_field (tar_mode (tar_header e)) = Inr (of_nat (te_mode e))"
    unfolding h tar_mode_def using v n by (simp add: tar_field_octal del: octal.simps)
  show "tar_field (tar_size (tar_header e)) = Inr (of_nat (length (te_data e)))"
    unfolding h tar_size_def using v n sz by (simp add: tar_field_octal del: octal.simps)
  show "tar_typeflag (tar_header e) = Inr (te_type e)"
    unfolding h tar_typeflag_def using v n by (auto simp: nth_append rd_def)
  show "tar_field (tar_devmajor (tar_header e)) = Inr (of_nat (te_major e))"
    unfolding h tar_devmajor_def using v n by (simp add: tar_field_octal del: octal.simps)
  show "tar_field (tar_devminor (tar_header e)) = Inr (of_nat (te_minor e))"
    unfolding h tar_devminor_def using v n by (simp add: tar_field_octal del: octal.simps)
qed

lemma header_next:
  assumes "valid_entry e"
  shows "tar_next_blk (tar_header e) (of_nat b) = Inr (of_nat (b + nblocks e + 1))"
proof -
  let ?l = "length (te_data e)"
  have l: "?l < 2 ^ 31" using assms by (simp add: valid_entry_def)
  have "(of_nat ?l + of_nat TAR_BLOCKSIZE - 1 :: u32) = of_nat (?l + 511)" by (simp add: TAR_BLOCKSIZE_def)
  then have "((of_nat ?l + of_nat TAR_BLOCKSIZE - 1) div of_nat TAR_BLOCKSIZE :: u32) = of_nat (nblocks e)"
    using of_nat_div_u32 [of "?l + 511" 512] l by (simp add: nblocks_def TAR_BLOCKSIZE_def add.commute)
  then show ?thesis by (simp add: tar_next_blk_def header_fields(4) [OF assms] Let_def)
qed

lemma header_match:
  assumes "valid_entry e" "terminated path" "length (cstr path) < 100"
  shows "tar_match (tar_header e) path = Inr (names (cstr path) e)"
proof -
  note v = assms(1) [unfolded valid_entry_def]
  obtain r where h: "tar_header e = te_name e @ 0 # r" using header_fields(2) [OF assms(1)] by blast
  have len: "length (tar_header e) = 512" by (rule header_fields(1) [OF assms(1)])
  let ?p = "cstr path" and ?n = "te_name e"
  have n: "cstr (tar_header e) = ?n" "terminated (tar_header e)" using v by (simp_all add: h)
  have pl: "strnlen path 100 = Inr (length ?p)"
    using assms(2,3) by (simp add: strnlen_def strnlen_from_eq)
  obtain c1 where c1: "strncmp (tar_header e) path 100 = Inr c1" "c1 = 0 \<longleftrightarrow> ?n = ?p"
    using strncmp_refines [OF n(2) assms(2), of 100] v assms(3) by (auto simp: n(1))
  obtain c2 where c2: "strncmp (tar_header e) path (length ?p) = Inr c2" "c2 = 0 \<longleftrightarrow> take (length ?p) ?n = ?p"
    using strncmp_refines [OF n(2) assms(2), of "length ?p"] by (auto simp: n(1))
  have at: "take (length ?p) ?n = ?p \<and> tar_header e ! length ?p = 47 \<and> tar_header e ! Suc (length ?p) = 0 \<longleftrightarrow> ?n = ?p @ [47]"
  proof
    assume a: "take (length ?p) ?n = ?p \<and> tar_header e ! length ?p = 47 \<and> tar_header e ! Suc (length ?p) = 0"
    then obtain q where q: "?n = ?p @ q" by (metis append_take_drop_id)
    have "q = [47]"
    proof (cases q)
      case Nil
      with a q show ?thesis by (simp add: h nth_append)
    next
      case (Cons x xs)
      with a q v show ?thesis by (cases xs) (auto simp: h nth_append)
    qed
    with q show "?n = ?p @ [47]" by simp
  qed (simp add: h nth_append)
  have rd: "rd (tar_header e) (length ?p) = Inr (tar_header e ! length ?p)"
    "rd (tar_header e) (Suc (length ?p)) = Inr (tar_header e ! Suc (length ?p))" using len assms(3) by simp_all
  show ?thesis using at by (auto simp: tar_match_def tar_name_def pl c1 c2 rd names_def)
qed

lemma header_inode:
  assumes "valid_entry e" "b < 2 ^ 32"
  shows "tar_inode fs (tar_header e) (of_nat b) i = Inr (entry_inode fs b e i)"
proof -
  have "te_type e = REGTYPE \<or> te_type e = DIRTYPE \<or> te_type e = CHRTYPE \<or> te_type e = BLKTYPE" "length (te_data e) < 2 ^ 32"
    using assms(1) by (auto simp: valid_entry_def)
  with assms(2) show ?thesis
    by (auto simp: tar_inode_def header_fields [OF assms(1)] entry_inode_def entry_type_def REGTYPE_def DIRTYPE_def
        CHRTYPE_def BLKTYPE_def unat_of_nat_u32)
qed

lemma length_enc: "valid_entry e \<Longrightarrow> length (tar_enc e) = 512 * (nblocks e + 1)"
  by (simp add: tar_enc_def header_fields(1) nblocks_def)

section \<open>Reading an archive\<close>

text \<open>
  What the file system relies on: reading at an offset inside the store gives the bytes there.
\<close>

locale tar_store =
  fixes fo :: "fops \<Rightarrow> 'a vfs_scheme file_ops" and fs :: nat and img :: "byte list" and ok :: "'a vfs_scheme \<Rightarrow> bool"
  assumes read_at: "ok v \<Longrightarrow> off + n \<le> length img \<Longrightarrow> length img < 2 ^ 31 \<Longrightarrow>
    \<exists>v'. fs_read_at fo (Some fs) (int off) n v = Inr (int n, take n (drop off img), v') \<and> ok v'"
begin

lemma read_block:
  assumes "ok v" "length img < 2 ^ 31" "img = pre @ blk @ post" "length pre = 512 * b" "length blk = 512"
  shows "\<exists>v'. fs_read_at fo (Some fs) (uint (of_nat b * of_nat TAR_BLOCKSIZE :: u32)) TAR_BLOCKSIZE v =
    Inr (512, blk, v') \<and> ok v'"
proof -
  have "512 * b < 2 ^ 32" using assms(2-5) by simp
  then have "unat (of_nat (b * 512) :: u32) = 512 * b" by (simp add: unat_of_nat_u32 mult.commute del: of_nat_mult)
  then have "uint (of_nat b * of_nat TAR_BLOCKSIZE :: u32) = int (512 * b)"
    by (simp add: TAR_BLOCKSIZE_def uint_nat [of "of_nat b * 512"])
  moreover have "take 512 (drop (512 * b) img) = blk" using assms(3-5) by simp
  ultimately show ?thesis
    using read_at [OF assms(1) _ assms(2), of "512 * b" 512] assms(3-5) by (simp add: TAR_BLOCKSIZE_def)
qed

text \<open>The loop over the headers finds what the reference finds.\<close>

lemma lookup_loop_finds:
  assumes "ok v" "length img < 2 ^ 31" "img = pre @ tar_archive es" "length pre = 512 * b" "\<forall>e \<in> set es. valid_entry e"
    "terminated path" "length (cstr path) < 100" "length buf = 512" "length es < fuel"
  shows "\<exists>v'. ok v' \<and> lookup_loop fuel fo fs path (of_nat b) buf i v =
    Some (Inr (case tar_find (cstr path) b es of
                 None \<Rightarrow> (err ENOENT, i, v') | Some (b', e) \<Rightarrow> (0, entry_inode fs b' e i, v')))"
  using assms
proof (induction es arbitrary: v pre b buf fuel)
  case Nil
  have "img = pre @ replicate 512 0 @ replicate 512 0"
    using Nil(3) by (simp add: tar_archive_def replicate_add [symmetric])
  from read_block [OF Nil(1,2) this Nil(4)] obtain v' where
    r: "fs_read_at fo (Some fs) (uint (of_nat b * of_nat TAR_BLOCKSIZE :: u32)) TAR_BLOCKSIZE v = Inr (512, replicate 512 0, v')"
      "ok v'" by auto
  obtain n where "fuel = Suc n" using Nil(9) by (cases fuel) auto
  with r Nil(8) show ?case
    by (auto simp: lookup_loop.simps Let_def fill_buf_def tar_name_def nth_append)
next
  case (Cons e es)
  have v: "valid_entry e" using Cons.prems(5) by simp
  let ?post = "te_data e @ replicate (512 * nblocks e - length (te_data e)) 0 @ tar_archive es"
  have "img = pre @ tar_header e @ ?post" using Cons.prems(3) by (simp add: tar_archive_def tar_enc_def)
  from read_block [OF Cons.prems(1,2) this Cons.prems(4) header_fields(1) [OF v]] obtain v' where
    r: "fs_read_at fo (Some fs) (uint (of_nat b * of_nat TAR_BLOCKSIZE :: u32)) TAR_BLOCKSIZE v = Inr (512, tar_header e, v')"
      "ok v'" by auto
  obtain n where n: "fuel = Suc n" "length es < n" using Cons.prems(9) by (cases fuel) auto
  have tar: "fill_buf buf (tar_header e) = tar_header e"
    using Cons.prems(8) header_fields(1) [OF v] by (simp add: fill_buf_def)
  have c: "\<exists>c. c \<noteq> 0 \<and> rd (tar_name (tar_header e)) 0 = Inr c"
    using header_fields(2) [OF v] v by (cases "te_name e") (auto simp: valid_entry_def tar_name_def rd_def)
  have b: "b < 2 ^ 32" using Cons.prems(2-4) by simp
  show ?case
  proof (cases "names (cstr path) e")
    case True
    with c r n show ?thesis
      by (auto simp: lookup_loop.simps Let_def tar header_match [OF v Cons.prems(6,7)] header_inode [OF v b])
  next
    case False
    have step: "lookup_loop fuel fo fs path (of_nat b) buf i v =
        lookup_loop n fo fs path (of_nat (b + nblocks e + 1)) (tar_header e) i v'"
      using c r n False
      by (auto simp: lookup_loop.simps Let_def tar header_match [OF v Cons.prems(6,7)] header_next [OF v]
          simp del: of_nat_add)
    have pre: "img = (pre @ tar_enc e) @ tar_archive es" using Cons.prems(3) by (simp add: tar_archive_def)
    have len: "length (pre @ tar_enc e) = 512 * (b + nblocks e + 1)" using Cons.prems(4) length_enc [OF v] by simp
    from Cons.IH [OF r(2) Cons.prems(2) pre len _ Cons.prems(6,7) header_fields(1) [OF v] n(2)] Cons.prems(5)
    show ?thesis unfolding step using False by simp
  qed
qed

text \<open>Reading an open file gives its contents from the offset on, and moves the offset.\<close>

lemma tread_contents:
  assumes "ok v" "length img < 2 ^ 31" "img = pre @ tar_header e @ te_data e @ post" "length pre = 512 * b"
    "valid_entry e" "fsize f = int (length (te_data e))" "fprivate f = of_nat (512 * (b + 1))" "ifs (finode f) = Some fs"
    "foffset f = int q" "q \<le> length (te_data e)" "n < 2 ^ 31"
  shows "\<exists>v'. ok v' \<and> tread fo f n v = Inr (int (min n (length (te_data e) - q)), take n (drop q (te_data e)),
    f\<lparr>foffset := int (q + min n (length (te_data e) - q))\<rparr>, v')"
proof -
  let ?d = "te_data e" and ?k = "min n (length (te_data e) - q)"
  have h: "length (tar_header e) = 512" by (rule header_fields(1) [OF assms(5)])
  have k: "unat (word_of_int (min (fsize f - foffset f) (int n)) :: u32) = ?k"
  proof -
    have "min (fsize f - foffset f) (int n) = int ?k" using assms(6,9,10) by linarith
    then show ?thesis using assms(11) by (simp add: unat_of_nat_u32 del: of_nat_min)
  qed
  have tot: "length img = 512 * b + 512 + length ?d + length post" using assms(3,4) h by simp
  have "sint (fprivate f) = int (512 * (b + 1))"
  proof -
    have "512 * (b + 1) < 2 ^ 63" using tot assms(2) by simp
    then have "signed_take_bit 63 (int (512 * (b + 1))) = int (512 * (b + 1))"
      by (intro signed_take_bit_int_eq_self) simp_all
    then show ?thesis unfolding assms(7) by (simp add: signed_of_nat del: of_nat_mult of_nat_add)
  qed
  then have off: "sint (fprivate f) + foffset f = int (512 * (b + 1) + q)" using assms(9) by simp
  have "take ?k (drop (512 * (b + 1) + q) img) = take ?k (drop q ?d)"
    using assms(3,4,10) h by (simp add: drop_append)
  moreover have "take ?k (drop q ?d) = take n (drop q ?d)" by (simp add: min_def)
  moreover have "512 * (b + 1) + q + ?k \<le> length img" using tot assms(10) by auto
  ultimately obtain v' where r: "fs_read_at fo (Some fs) (int (512 * (b + 1) + q)) ?k v = Inr (int ?k, take n (drop q ?d), v')" "ok v'"
    using read_at [OF assms(1) _ assms(2), of "512 * (b + 1) + q" ?k] by auto
  have "(if int ?k > 0 then f\<lparr>foffset := foffset f + int ?k\<rparr> else f) = f\<lparr>foffset := int (q + ?k)\<rparr>"
    using assms(9) by (cases f) auto
  then have "tread fo f n v = Inr (int ?k, take n (drop q ?d), f\<lparr>foffset := int (q + ?k)\<rparr>, v')"
    unfolding tread_def Let_def k off assms(8) r(1) by simp
  with r(2) show ?thesis by blast
qed

end

section \<open>The ramdisk provides the store\<close>

definition on_ramdisk :: "nat \<Rightarrow> byte list \<Rightarrow> 'a tvfs_scheme \<Rightarrow> bool" where
  "on_ramdisk fs img v \<longleftrightarrow> initrd v = img \<and>
     (\<exists>inst file. insts v fs = Some inst \<and> inst_file inst = Some file \<and>
        ffops file = Some (Device_fops DEV_INITRD) \<and> fsize file = int (length img))"

lemma initrd_read_at:
  assumes "on_ramdisk fs img v" "fo (Device_fops DEV_INITRD) = initrd_fops" "off + n \<le> length img" "length img < 2 ^ 31"
  shows "\<exists>v'. fs_read_at fo (Some fs) (int off) n v = Inr (int n, take n (drop off img), v') \<and> on_ramdisk fs img v'"
proof -
  from assms(1) obtain inst fl where f: "initrd v = img" "insts v fs = Some inst" "inst_file inst = Some fl"
    "ffops fl = Some (Device_fops DEV_INITRD)" "fsize fl = int (length img)" by (auto simp: on_ramdisk_def)
  have "min (int (length img) - int off) (int n) = int n" using assms(3) by simp
  then have k: "unat (word_of_int (min (int (length img) - int off) (int n)) :: u32) = n"
    using assms(3,4) by (simp add: unat_of_nat_u32)
  let ?f = "fl\<lparr>foffset := int off + int n\<rparr>"
  let ?v = "v\<lparr>insts := (insts v)(fs \<mapsto> inst\<lparr>inst_file := Some ?f\<rparr>)\<rparr>"
  have sz: "fsize (fl\<lparr>foffset := int off\<rparr>) - foffset (fl\<lparr>foffset := int off\<rparr>) = int (length img) - int off"
    using f(5) by simp
  have "initrd_read (fl\<lparr>foffset := int off\<rparr>) n v = Inr (int n, take n (drop off img), ?f, v)"
    unfolding initrd_read_def Let_def sz k using f(1) assms(3) by simp
  then have "fs_read_at fo (Some fs) (int off) n v = Inr (int n, take n (drop off img), ?v)"
    using f assms(2)
    by (simp add: fs_read_at_def get_inst_def initrd_fops_def fs_default_lseek_def SEEK_SET_def)
  moreover have "on_ramdisk fs img ?v" using f by (simp add: on_ramdisk_def)
  ultimately show ?thesis by blast
qed

text \<open>The operations of the ramdisk; the other tables play no role here.\<close>

definition ramdisk_ops :: "(fops \<Rightarrow> 'a tvfs_scheme file_ops) \<Rightarrow> fops \<Rightarrow> 'a tvfs_scheme file_ops" where
  "ramdisk_ops fo = fo(Device_fops DEV_INITRD := initrd_fops)"

interpretation ramdisk: tar_store "ramdisk_ops fo" fs img "on_ramdisk fs img" for fo fs img
  using initrd_read_at [where fo = "ramdisk_ops fo"] by unfold_locales (simp add: ramdisk_ops_def)

lemma tar_find_at:
  "tar_find p b es = Some (b', e) \<Longrightarrow> \<forall>e \<in> set es. valid_entry e \<Longrightarrow>
   \<exists>pre post. tar_archive es = pre @ tar_header e @ te_data e @ post \<and> length pre + 512 * b = 512 * b' \<and> e \<in> set es"
proof (induction p b es rule: tar_find.induct)
  case (2 p b e0 es)
  have arch: "tar_archive (e0 # es) = tar_enc e0 @ tar_archive es" by (simp add: tar_archive_def)
  show ?case
  proof (cases "names p e0")
    case True
    with 2(2) show ?thesis unfolding arch
      by (intro exI [of _ "[]"] exI [of _ "replicate (512 * nblocks e - length (te_data e)) 0 @ tar_archive es"])
        (simp add: tar_enc_def)
  next
    case False
    with 2 obtain pre post where "tar_archive es = pre @ tar_header e @ te_data e @ post"
      "length pre + 512 * (b + nblocks e0 + 1) = 512 * b'" "e \<in> set es" by auto
    then show ?thesis unfolding arch using length_enc [of e0] 2(3)
      by (intro exI [of _ "tar_enc e0 @ pre"] exI [of _ post]) simp
  qed
qed simp

section \<open>Properties\<close>

text \<open>
  Claim C3. The archive file system gives back what is archived: looking a path up finds the
  first member of that name (with or without the slash of a directory) or reports \<open>ENOENT\<close>, with
  its type, mode, size and device, and opening and reading a regular member from any offset gives
  its bytes from there on.
\<close>

theorem tarfs_roundtrip:
  assumes "on_ramdisk fs (tar_archive es) v" "\<forall>e \<in> set es. valid_entry e" "length (tar_archive es) < 2 ^ 31"
    "terminated path" "length (cstr path) < 100" "length buf = 512" "n < 2 ^ 31"
  shows "\<exists>v'. on_ramdisk fs (tar_archive es) v' \<and>
    (case tar_find (cstr path) 0 es of
       None \<Rightarrow> tlookup_all (length es + 1) (ramdisk_ops fo) buf fs path i v = Some (Inr (err ENOENT, i, v'))
     | Some (b, e) \<Rightarrow>
         tlookup_all (length es + 1) (ramdisk_ops fo) buf fs path i v = Some (Inr (0, entry_inode fs b e i, v')) \<and>
         (\<forall>q \<le> length (te_data e). \<exists>f v''. topen (entry_inode fs b e i) null_file flags v' = Inr (0, f, v') \<and>
            tread (ramdisk_ops fo) (f\<lparr>finode := entry_inode fs b e i, foffset := int q\<rparr>) n v' =
              Inr (int (min n (length (te_data e) - q)), take n (drop q (te_data e)),
                f\<lparr>finode := entry_inode fs b e i, foffset := int (q + min n (length (te_data e) - q))\<rparr>, v'')))"
proof -
  from ramdisk.lookup_loop_finds [OF assms(1,3) _ _ assms(2,4,5,6), of "[]" 0 "length es + 1" fo i]
  obtain v' where l: "on_ramdisk fs (tar_archive es) v'"
    "tlookup_all (length es + 1) (ramdisk_ops fo) buf fs path i v =
      Some (Inr (case tar_find (cstr path) 0 es of
                   None \<Rightarrow> (err ENOENT, i, v') | Some (b', e) \<Rightarrow> (0, entry_inode fs b' e i, v')))"
    by (auto simp: tlookup_all_def)
  show ?thesis
  proof (cases "tar_find (cstr path) 0 es")
    case None
    with l show ?thesis by auto
  next
    case (Some be)
    then obtain b e where be: "tar_find (cstr path) 0 es = Some (b, e)" by (cases be) simp
    from tar_find_at [OF be assms(2)] obtain pre post where
      at: "tar_archive es = pre @ tar_header e @ te_data e @ post" "length pre = 512 * b" "e \<in> set es" by auto
    have ve: "valid_entry e" using at(3) assms(2) by blast
    have small: "512 * (b + 1) < 2 ^ 32" using at assms(3) header_fields(1) [OF ve] by simp
    let ?i = "entry_inode fs b e i"
    have io: "isize ?i = length (te_data e)" "inode_id ?i = b" "ifs ?i = Some fs" by (simp_all add: entry_inode_def)
    have "b \<noteq> ID_ROOT" using small by (simp add: ID_ROOT_def)
    moreover have "ucast ((of_nat b + 1) * of_nat TAR_BLOCKSIZE :: u32) = (of_nat (512 * (b + 1)) :: u64)"
    proof -
      have "((of_nat b + 1) * of_nat TAR_BLOCKSIZE :: u32) = of_nat (512 * (b + 1))"
        by (simp add: TAR_BLOCKSIZE_def algebra_simps)
      then show ?thesis using small by (simp only: unsigned_of_nat) (simp add: take_bit_nat_eq_self)
    qed
    ultimately obtain f where f: "topen ?i null_file flags v' = Inr (0, f, v')" "fsize f = int (length (te_data e))"
      "fprivate f = of_nat (512 * (b + 1))"
      using io by (simp add: topen_def del: of_nat_mult of_nat_add)
    have "\<exists>v''. tread (ramdisk_ops fo) (f\<lparr>finode := ?i, foffset := int q\<rparr>) n v' =
              Inr (int (min n (length (te_data e) - q)), take n (drop q (te_data e)),
                f\<lparr>finode := ?i, foffset := int (q + min n (length (te_data e) - q))\<rparr>, v'')"
      if "q \<le> length (te_data e)" for q
      using ramdisk.tread_contents [OF l(1) assms(3) at(1,2) ve, of "f\<lparr>finode := ?i, foffset := int q\<rparr>" q n fo] f io that assms(7)
      by auto
    with f(1) l be show ?thesis by auto
  qed
qed

definition init_entry :: tar_entry where
  "init_entry = \<lparr>te_name = map of_char ''init'', te_mode = 493, te_ids = replicate 16 0, te_stamp = replicate 20 0,
     te_type = REGTYPE, te_link = replicate 172 0, te_major = 0, te_minor = 0, te_prefix = replicate 167 0, te_data = [1, 2, 3]\<rparr>"

definition init_disk :: tvfs where
  "init_disk = \<lparr>devices = [DEV_INITRD \<mapsto> Device_fops DEV_INITRD], mount_root = MTree [] True 0 (Some []),
     insts = [0 \<mapsto> \<lparr>inst_file = Some (null_file\<lparr>ffops := Some (Device_fops DEV_INITRD),
       fsize := int (length (tar_archive [init_entry]))\<rparr>), inst_iops = Tarfs, inst_private = None\<rparr>],
     next_mnt = 1, initrd = tar_archive [init_entry]\<rparr>"

lemma init_entry_valid: "\<forall>e \<in> set [init_entry]. valid_entry e"
  by (simp add: valid_entry_def init_entry_def)

lemma init_disk_ok: "on_ramdisk 0 (tar_archive [init_entry]) init_disk"
  by (simp add: on_ramdisk_def init_disk_def)

lemma init_archive_len: "length (tar_archive [init_entry]) = 2048"
  using init_entry_valid by (simp add: tar_archive_def length_enc) (simp add: nblocks_def init_entry_def)

theorem tarfs_roundtrip_witness:
  "\<exists>v' f v''. tlookup_all 2 (ramdisk_ops (\<lambda>_. no_ops)) (replicate 512 0) 0 (lit ''init'') null_inode init_disk =
       Some (Inr (0, entry_inode 0 0 init_entry null_inode, v')) \<and>
     tread (ramdisk_ops (\<lambda>_. no_ops)) (f\<lparr>finode := entry_inode 0 0 init_entry null_inode, foffset := 1\<rparr>) 100 v' =
       Inr (2, [2, 3], f\<lparr>finode := entry_inode 0 0 init_entry null_inode, foffset := 3\<rparr>, v'')"
proof -
  have p: "terminated (lit ''init'')" "length (cstr (lit ''init'')) < 100" by (simp_all add: lit_def)
  have "length (tar_archive [init_entry]) < 2 ^ 31" by (simp add: init_archive_len)
  from tarfs_roundtrip [OF init_disk_ok init_entry_valid this p, of "replicate 512 0" 100 "\<lambda>_. no_ops" null_inode 0]
  obtain v' where v: "case tar_find (cstr (lit ''init'')) 0 [init_entry] of
       None \<Rightarrow> tlookup_all (length [init_entry] + 1) (ramdisk_ops (\<lambda>_. no_ops)) (replicate 512 0) 0 (lit ''init'') null_inode init_disk
         = Some (Inr (err ENOENT, null_inode, v'))
     | Some (b, e) \<Rightarrow>
         tlookup_all (length [init_entry] + 1) (ramdisk_ops (\<lambda>_. no_ops)) (replicate 512 0) 0 (lit ''init'') null_inode init_disk
           = Some (Inr (0, entry_inode 0 b e null_inode, v')) \<and>
         (\<forall>q \<le> length (te_data e). \<exists>f v''. topen (entry_inode 0 b e null_inode) null_file 0 v' = Inr (0, f, v') \<and>
            tread (ramdisk_ops (\<lambda>_. no_ops)) (f\<lparr>finode := entry_inode 0 b e null_inode, foffset := int q\<rparr>) 100 v' =
              Inr (int (min 100 (length (te_data e) - q)), take 100 (drop q (te_data e)),
                f\<lparr>finode := entry_inode 0 b e null_inode, foffset := int (q + min 100 (length (te_data e) - q))\<rparr>, v''))"
    by auto
  have find: "tar_find (cstr (lit ''init'')) 0 [init_entry] = Some (0, init_entry)" "te_data init_entry = [1, 2, 3]"
    by (simp_all add: names_def init_entry_def lit_def)
  from v [unfolded find(1)] have l: "tlookup_all 2 (ramdisk_ops (\<lambda>_. no_ops)) (replicate 512 0) 0 (lit ''init'') null_inode init_disk =
       Some (Inr (0, entry_inode 0 0 init_entry null_inode, v'))" by (simp add: numeral_2_eq_2)
  from v [unfolded find(1)] find(2) obtain f v'' where
    "tread (ramdisk_ops (\<lambda>_. no_ops)) (f\<lparr>finode := entry_inode 0 0 init_entry null_inode, foffset := int 1\<rparr>) 100 v' =
       Inr (int (min 100 (3 - 1)), take 100 (drop 1 [1, 2, 3]),
         f\<lparr>finode := entry_inode 0 0 init_entry null_inode, foffset := int (1 + min 100 (3 - 1))\<rparr>, v'')"
    by fastforce
  with l show ?thesis by (intro exI [of _ v'] exI [of _ f] exI [of _ v'']) simp
qed

end
