(* ===== verification/Hashmap.thy ===== *)
theory Hashmap
  imports Petix_Prelude CString "HOL-Library.Monad_Syntax"
begin

text \<open>
  The hash table of \<open>kernel/container/hashmap.c\<close>, which holds the directories of the temporary
  file system: open addressing with linear probing. A slot is a pointer that is \<open>NULL\<close>
  (\<open>Empty\<close>), the address 1 (\<open>Tombstone\<close>) or an entry. \<open>None\<close> means that the code follows a
  pointer that points nowhere or does not return. The calls of the table's \<open>free\<close> function are
  recorded in \<open>freed\<close>.
\<close>

section \<open>State\<close>

datatype 'e bucket = Empty | Tombstone | Entry 'e

record 'e hashmap =
  data :: "'e bucket list"
  entries :: nat
  buckets :: nat
  hash :: "'e \<Rightarrow> u32"
  cmp :: "'e bucket \<Rightarrow> 'e \<Rightarrow> int option"
  has_free :: bool
  freed :: "'e bucket list"

record 'v hashmap_entry =
  hkey :: "byte list"
  hvalue :: 'v

definition min_buckets :: nat where "min_buckets = 32"

definition hashmap_init :: "('e \<Rightarrow> u32) \<Rightarrow> ('e bucket \<Rightarrow> 'e \<Rightarrow> int option) \<Rightarrow> bool \<Rightarrow> 'e hashmap" where
  "hashmap_init hs c freefn =
     \<lparr>data = [], entries = 0, buckets = 0, hash = hs, cmp = c, has_free = freefn, freed = []\<rparr>"

definition hashmap_free :: "'e hashmap \<Rightarrow> 'e hashmap" where
  "hashmap_free h =
     h\<lparr>freed := freed h @ (if has_free h then filter (\<lambda>b. case b of Tombstone \<Rightarrow> False | _ \<Rightarrow> True) (data h) else []),
       data := [], entries := 0, buckets := 0\<rparr>"

section \<open>Probing\<close>

definition slot_at :: "'e hashmap \<Rightarrow> nat \<Rightarrow> 'e bucket option" where
  "slot_at h i = (if i < length (data h) then Some (data h ! i) else None)"

text \<open>The loop of \<open>get_bucket\<close>: \<open>ts\<close> is \<open>ts_index\<close>, \<open>None\<close> standing for \<open>SIZE_MAX\<close>.\<close>

partial_function (option) probe ::
    "'e hashmap \<Rightarrow> 'e \<Rightarrow> bool \<Rightarrow> nat \<Rightarrow> nat option \<Rightarrow> nat option" where
  "probe h value allow_ts index ts =
     do {
       b \<leftarrow> slot_at h index;
       case b of
         Empty \<Rightarrow> Some (if allow_ts \<and> ts \<noteq> None then the ts else index)
       | _ \<Rightarrow>
         do {
           c \<leftarrow> cmp h b value;
           if c = 0 then Some index
           else probe h value allow_ts ((index + 1) mod buckets h)
                  (case b of Tombstone \<Rightarrow> (if ts = None then Some index else ts) | _ \<Rightarrow> ts)
         }
     }"

definition get_bucket :: "'e hashmap \<Rightarrow> 'e \<Rightarrow> bool \<Rightarrow> nat option" where
  "get_bucket h value allow_ts =
     (if buckets h = 0 then None
      else probe h value allow_ts (unat (hash h value) mod buckets h) None)"

definition insert_op :: "'e hashmap \<Rightarrow> 'e \<Rightarrow> 'e hashmap option" where
  "insert_op h value = do {
     index \<leftarrow> get_bucket h value True;
     b \<leftarrow> slot_at h index;
     let h1 = (case b of
         Empty \<Rightarrow> h\<lparr>entries := entries h + 1\<rparr>
       | _ \<Rightarrow> (if has_free h then h\<lparr>freed := freed h @ [b]\<rparr> else h)) in
     Some (h1\<lparr>data := (data h1)[index := Entry value]\<rparr>)
   }"

text \<open>The loop of \<open>rehash\<close> over the old slots.\<close>

fun reinsert :: "'e bucket list \<Rightarrow> 'e hashmap \<Rightarrow> 'e hashmap option" where
  "reinsert [] h = Some h"
| "reinsert (b # bs) h =
     (case b of Entry e \<Rightarrow> do { h1 \<leftarrow> insert_op h e; reinsert bs h1 } | _ \<Rightarrow> reinsert bs h)"

definition rehash :: "'e hashmap \<Rightarrow> nat \<Rightarrow> 'e hashmap option" where
  "rehash h new_buckets =
     reinsert (data h)
       (h\<lparr>data := replicate new_buckets Empty, buckets := new_buckets, entries := 0\<rparr>)"

text \<open>
  The load test \<open>(entries + 1e-11) / buckets > 0.8\<close> of \<open>hashmap_insert_value\<close>, in exact
  arithmetic; the quotient by 0 buckets is infinite.
\<close>

definition load_high :: "nat \<Rightarrow> nat \<Rightarrow> bool" where
  "load_high e b \<longleftrightarrow> b = 0 \<or> 8 * (10 ^ 11 * b) < 10 * (10 ^ 11 * e + 1)"

definition hashmap_insert_value :: "'e hashmap \<Rightarrow> 'e \<Rightarrow> 'e hashmap option" where
  "hashmap_insert_value h value = do {
     h1 \<leftarrow> (if load_high (entries h) (buckets h)
           then rehash h (if buckets h \<noteq> 0 then 2 * buckets h mod 2 ^ 32 else min_buckets)
           else Some h);
     insert_op h1 value
   }"

text \<open>The test \<open>ptr != empty\<close> compares the address of the slot, which is never \<open>NULL\<close>.\<close>

definition hashmap_delete_value :: "'e hashmap \<Rightarrow> 'e \<Rightarrow> 'e hashmap option" where
  "hashmap_delete_value h value =
     (if buckets h = 0 then Some h
      else do {
        index \<leftarrow> get_bucket h value False;
        Some (h\<lparr>data := (data h)[index := Tombstone]\<rparr>)
      })"

definition hashmap_has_value :: "'e hashmap \<Rightarrow> 'e \<Rightarrow> bool option" where
  "hashmap_has_value h value =
     (if buckets h = 0 then Some False
      else do {
        index \<leftarrow> get_bucket h value False;
        b \<leftarrow> slot_at h index;
        Some (case b of Empty \<Rightarrow> False | _ \<Rightarrow> True)
      })"

section \<open>Maps from keys to values\<close>

text \<open>
  \<open>hashmap_insert\<close> asserts that the table has a free function. \<open>null\<close> is the \<open>NULL\<close> value the
  lookup entry holds; a result \<open>None\<close> inside \<open>Some\<close> is a returned \<open>NULL\<close>.
\<close>

definition hashmap_insert ::
    "'v hashmap_entry hashmap \<Rightarrow> byte list \<Rightarrow> 'v \<Rightarrow> 'v hashmap_entry hashmap option" where
  "hashmap_insert h k v =
     (if has_free h then hashmap_insert_value h \<lparr>hkey = k, hvalue = v\<rparr> else None)"

definition hashmap_delete ::
    "'v \<Rightarrow> 'v hashmap_entry hashmap \<Rightarrow> byte list \<Rightarrow> 'v hashmap_entry hashmap option" where
  "hashmap_delete null h k = hashmap_delete_value h \<lparr>hkey = k, hvalue = null\<rparr>"

definition hashmap_get ::
    "'v \<Rightarrow> 'v hashmap_entry hashmap \<Rightarrow> byte list \<Rightarrow> 'v option option" where
  "hashmap_get null h k =
     (if buckets h = 0 then Some None
      else do {
        index \<leftarrow> get_bucket h \<lparr>hkey = k, hvalue = null\<rparr> False;
        b \<leftarrow> slot_at h index;
        case b of Empty \<Rightarrow> Some None | Entry e \<Rightarrow> Some (Some (hvalue e)) | Tombstone \<Rightarrow> None
      })"

section \<open>Iteration\<close>

text \<open>An iterator is a position in \<open>data\<close>, \<open>None\<close> standing for \<open>NULL\<close>.\<close>

function real_entry_from :: "'e bucket list \<Rightarrow> nat \<Rightarrow> nat option" where
  "real_entry_from bs i =
     (if i < length bs
      then (case bs ! i of Entry e \<Rightarrow> Some i | _ \<Rightarrow> real_entry_from bs (Suc i))
      else None)"
  by pat_completeness auto
termination
  by (relation "measure (\<lambda>(bs, i). length bs - i)") auto

definition real_entry :: "'e hashmap \<Rightarrow> nat option \<Rightarrow> nat option option" where
  "real_entry h iter =
     (case iter of None \<Rightarrow> Some None
      | Some i \<Rightarrow> (case real_entry_from (data h) i of None \<Rightarrow> None | Some j \<Rightarrow> Some (Some j)))"

definition hashmap_begin :: "'e hashmap \<Rightarrow> nat option option" where
  "hashmap_begin h = real_entry h (if buckets h = 0 then None else Some 0)"

definition hashmap_next :: "'e hashmap \<Rightarrow> nat \<Rightarrow> nat option option" where
  "hashmap_next h iter = real_entry h (Some (iter + 1))"

definition hashmap_end :: "'e hashmap \<Rightarrow> nat" where
  "hashmap_end h = buckets h"

section \<open>Hash and comparison functions\<close>

text \<open>\<open>str[i]\<close> is a signed character, sign extended into \<open>size_t\<close>; \<open>str\<close> is NUL terminated.\<close>

fun string_hash_from :: "u32 \<Rightarrow> byte list \<Rightarrow> u32" where
  "string_hash_from hs [] = hs"
| "string_hash_from hs (c # s) = (if c = 0 then hs else string_hash_from (7 * hs + char_to_u32 c) s)"

definition string_value_hash :: "byte list \<Rightarrow> u32" where
  "string_value_hash s = string_hash_from 0 s"

definition string_key_hash :: "'v hashmap_entry \<Rightarrow> u32" where
  "string_key_hash e = string_value_hash (hkey e)"

definition string_value_cmp :: "byte list bucket \<Rightarrow> byte list \<Rightarrow> int option" where
  "string_value_cmp a b =
     (case a of Entry s \<Rightarrow> (case strcmp s b of Inr c \<Rightarrow> Some c | Inl _ \<Rightarrow> None) | _ \<Rightarrow> None)"

definition string_key_cmp :: "'v hashmap_entry bucket \<Rightarrow> 'v hashmap_entry \<Rightarrow> int option" where
  "string_key_cmp a b =
     (case a of Entry e \<Rightarrow> (case strcmp (hkey e) (hkey b) of Inr c \<Rightarrow> Some c | Inl _ \<Rightarrow> None)
      | _ \<Rightarrow> None)"

text \<open>Pointers compared as values; the tombstone is the pointer 1.\<close>

definition ptr_value_hash :: "u32 \<Rightarrow> u32" where
  "ptr_value_hash p = p"

definition ptr_value_cmp :: "u32 bucket \<Rightarrow> u32 \<Rightarrow> int option" where
  "ptr_value_cmp a b =
     Some (sint ((case a of Empty \<Rightarrow> 0 | Tombstone \<Rightarrow> 1 | Entry p \<Rightarrow> p) - b))"

section \<open>The table as a set of entries\<close>

definition contents :: "'e bucket list \<Rightarrow> 'e set" where
  "contents bs = {e. Entry e \<in> set bs}"

definition occ :: "'e bucket list \<Rightarrow> nat" where
  "occ bs = length (filter (\<lambda>b. b \<noteq> Empty) bs)"

text \<open>Slot \<open>i\<close> is reached from the home slot \<open>s\<close> without crossing an empty slot.\<close>

definition on_path :: "'e bucket list \<Rightarrow> nat \<Rightarrow> nat \<Rightarrow> bool" where
  "on_path bs s i \<longleftrightarrow>
     (\<exists>d < length bs. i = (s + d) mod length bs \<and> (\<forall>j < d. bs ! ((s + j) mod length bs) \<noteq> Empty))"

definition hm_ok ::
    "('e \<Rightarrow> 'k) \<Rightarrow> ('e \<Rightarrow> bool) \<Rightarrow> ('e \<Rightarrow> u32) \<Rightarrow> ('e bucket \<Rightarrow> 'e \<Rightarrow> int option) \<Rightarrow> 'e hashmap \<Rightarrow> bool" where
  "hm_ok key valid hs cm h \<longleftrightarrow>
     hash h = hs \<and> cmp h = cm \<and> length (data h) = buckets h \<and> Tombstone \<notin> set (data h) \<and>
     (\<forall>e \<in> contents (data h). valid e) \<and>
     (\<forall>i e. i < buckets h \<and> data h ! i = Entry e \<longrightarrow> on_path (data h) (unat (hs e)) i) \<and>
     (\<forall>i j e f. i < buckets h \<and> j < buckets h \<and> data h ! i = Entry e \<and> data h ! j = Entry f \<and>
        key e = key f \<longrightarrow> i = j) \<and>
     entries h = occ (data h) \<and> (buckets h = 0 \<or> entries h < buckets h)"

text \<open>The size the table grows to: 32 slots, doubled when more than four fifths are taken.\<close>

definition sized :: "'e hashmap \<Rightarrow> bool" where
  "sized h \<longleftrightarrow> buckets h = 0 \<or> 32 \<le> buckets h \<and> buckets h \<le> 32 + 4 * entries h"

lemma contents_update:
  "i < length bs \<Longrightarrow> contents (bs[i := Entry v]) = insert v {e. \<exists>j < length bs. j \<noteq> i \<and> bs ! j = Entry e}"
  by (auto simp: contents_def in_set_conv_nth nth_list_update)

lemma contents_nth: "i < length bs \<Longrightarrow> bs ! i = Entry e \<Longrightarrow> e \<in> contents bs"
  by (metis contents_def mem_Collect_eq nth_mem)

lemma contentsE: "e \<in> contents bs \<Longrightarrow> \<exists>i < length bs. bs ! i = Entry e"
  by (auto simp: contents_def in_set_conv_nth)

lemma contents_simps [simp]:
  "contents [] = {}" "contents (Entry e # bs) = insert e (contents bs)"
  "contents (Empty # bs) = contents bs" "contents (replicate n Empty) = {}"
  by (auto simp: contents_def)

lemma occ_Cons: "occ (b # bs) = (if b = Empty then 0 else 1) + occ bs"
  by (simp add: occ_def)

lemma occ_simps [simp]: "occ [] = 0" "occ (replicate n Empty) = 0"
  by (simp_all add: occ_def)

lemma occ_update: "i < length bs \<Longrightarrow> occ (bs[i := Entry v]) = occ bs + (if bs ! i = Empty then 1 else 0)"
proof (induction bs arbitrary: i)
  case (Cons b bs)
  then show ?case by (cases i) (auto simp: occ_Cons)
qed simp

lemma occ_le: "occ bs \<le> length bs"
  by (simp add: occ_def)

lemma occ_less: "occ bs < length bs \<Longrightarrow> \<exists>i < length bs. bs ! i = Empty"
proof (induction bs)
  case (Cons b bs)
  then show ?case by (cases "b = Empty") (force simp: occ_Cons)+
qed simp

lemma on_path_update: "on_path bs s i \<Longrightarrow> on_path (bs[j := Entry v]) s i"
  by (auto simp: on_path_def) (metis bucket.distinct(3) length_list_update nth_list_update_eq
      nth_list_update_neq list_update_beyond not_le_imp_less)

lemma mod_step: "(((s::nat) + j) mod b + 1) mod b = (s + Suc j) mod b"
  by (simp add: mod_Suc_eq)

text \<open>Walking from \<open>s\<close>, the first empty slot is reached within one turn.\<close>

lemma first_empty:
  assumes "i < length bs" "bs ! i = Empty"
  shows "\<exists>d < length bs. bs ! ((s + d) mod length bs) = Empty \<and>
    (\<forall>j < d. bs ! ((s + j) mod length bs) \<noteq> Empty)"
proof -
  let ?P = "\<lambda>d. bs ! ((s + d) mod length bs) = Empty"
  have pos: "0 < length bs" using assms(1) by linarith
  have "(s + (i + (length bs - s mod length bs))) mod length bs = i" for s
  proof -
    have "s mod length bs < length bs" by (rule mod_less_divisor [OF pos])
    then have "(s mod length bs + (i + (length bs - s mod length bs))) mod length bs =
        (i + length bs) mod length bs" by (intro arg_cong [where f = "\<lambda>x. x mod length bs"]) simp
    with assms(1) show ?thesis by (simp add: mod_add_left_eq)
  qed
  then have "?P ((i + (length bs - s mod length bs)) mod length bs)"
    using assms(2) by (simp add: mod_add_right_eq)
  moreover have "(i + (length bs - s mod length bs)) mod length bs < length bs"
    by (rule mod_less_divisor [OF pos])
  ultimately show ?thesis
    using LeastI [of ?P] Least_le [of ?P] not_less_Least [of _ ?P] by (meson le_less_trans)
qed

section \<open>The interface to hash and comparison functions\<close>

locale hashing =
  fixes key :: "'e \<Rightarrow> 'k" and valid :: "'e \<Rightarrow> bool"
    and hs :: "'e \<Rightarrow> u32" and cm :: "'e bucket \<Rightarrow> 'e \<Rightarrow> int option"
  assumes hash_key: "valid a \<Longrightarrow> valid b \<Longrightarrow> key a = key b \<Longrightarrow> hs a = hs b"
    and cmp_key: "valid a \<Longrightarrow> valid b \<Longrightarrow> \<exists>c. cm (Entry a) b = Some c \<and> (c = 0 \<longleftrightarrow> key a = key b)"
begin

abbreviation ok :: "'e hashmap \<Rightarrow> bool" where
  "ok \<equiv> hm_ok key valid hs cm"

lemma no_tombstone: "ok h \<Longrightarrow> i < buckets h \<Longrightarrow> data h ! i \<noteq> Tombstone"
  unfolding hm_ok_def by (metis nth_mem)

lemma at_slot:
  assumes "ok h" "i < buckets h" "data h ! i = Entry e"
  shows "valid e" "on_path (data h) (unat (hs e)) i" "e \<in> contents (data h)"
    "j < buckets h \<Longrightarrow> data h ! j = Entry f \<Longrightarrow> key e = key f \<Longrightarrow> i = j"
  using assms contents_nth [of i "data h" e] by (auto simp: hm_ok_def)

lemma probe_skip:
  assumes h: "cmp h = cm" "length (data h) = buckets h" and v: "valid v" and b: "0 < buckets h"
    and skip: "\<forall>j < d. \<exists>e. data h ! ((s + j) mod buckets h) = Entry e \<and> valid e \<and> key e \<noteq> key v"
  shows "probe h v ts (s mod buckets h) None = probe h v ts ((s + d) mod buckets h) None"
  using skip
proof (induction d)
  case (Suc d)
  then obtain e where e: "data h ! ((s + d) mod buckets h) = Entry e" "valid e" "key e \<noteq> key v" by blast
  have i: "(s + d) mod buckets h < length (data h)" using h b by simp
  from cmp_key [OF e(2) v] e(3) h obtain c where "cmp h (Entry e) v = Some c" "c \<noteq> 0" by auto
  with e i have "probe h v ts ((s + d) mod buckets h) None = probe h v ts ((s + Suc d) mod buckets h) None"
    by (subst probe.simps) (simp add: slot_at_def mod_step [simplified])
  with Suc show ?case by simp
qed simp

text \<open>The slots between the home slot of a key and its entry hold entries of other keys.\<close>

lemma before_present:
  assumes h: "ok h" and v: "valid v" and i: "i < buckets h" "data h ! i = Entry e" "key e = key v"
  shows "\<exists>d < buckets h. i = (unat (hs v) + d) mod buckets h \<and>
    (\<forall>j < d. (unat (hs v) + j) mod buckets h \<noteq> i \<and>
      (\<exists>f. data h ! ((unat (hs v) + j) mod buckets h) = Entry f \<and> valid f \<and> key f \<noteq> key v))"
proof -
  let ?b = "buckets h" and ?s = "unat (hs v)"
  have len: "length (data h) = ?b" "0 < ?b" using h i(1) by (auto simp: hm_ok_def)
  note e = at_slot [OF h i(1,2)]
  from e(2) obtain d where d: "d < ?b" "i = (?s + d) mod ?b" "\<forall>j < d. data h ! ((?s + j) mod ?b) \<noteq> Empty"
    using hash_key [OF e(1) v i(3)] len(1) by (auto simp: on_path_def)
  have "(?s + j) mod ?b \<noteq> i \<and> (\<exists>f. data h ! ((?s + j) mod ?b) = Entry f \<and> valid f \<and> key f \<noteq> key v)"
    if j: "j < d" for j
  proof -
    have lt: "(?s + j) mod ?b < ?b" using len by simp
    with d(3) no_tombstone [OF h lt] j obtain f where f: "data h ! ((?s + j) mod ?b) = Entry f"
      by (cases "data h ! ((?s + j) mod ?b)") auto
    have "(?s + j) mod ?b \<noteq> i" using mod_offset_inj [OF j d(1)] d(2) by simp
    with at_slot [OF h lt f] i f show ?thesis by auto
  qed
  with d show ?thesis by blast
qed

lemma get_bucket_present:
  assumes h: "ok h" and v: "valid v" and i: "i < buckets h" "data h ! i = Entry e" "key e = key v"
  shows "get_bucket h v ts = Some i"
proof -
  have len: "length (data h) = buckets h" "hash h = hs" "cmp h = cm" "0 < buckets h"
    using h i(1) by (auto simp: hm_ok_def)
  from before_present [OF assms] obtain d where d: "i = (unat (hs v) + d) mod buckets h"
    "\<forall>j < d. \<exists>f. data h ! ((unat (hs v) + j) mod buckets h) = Entry f \<and> valid f \<and> key f \<noteq> key v" by auto
  with probe_skip [OF len(3,1) v len(4)] len
  have "get_bucket h v ts = probe h v ts i None" by (simp add: get_bucket_def)
  also have "\<dots> = Some i"
    using cmp_key [OF at_slot(1) [OF h i(1,2)] v] i len by (subst probe.simps) (auto simp: slot_at_def)
  finally show ?thesis .
qed

text \<open>After a deletion, probing for the deleted key reads the key of the tombstone.\<close>

lemma get_bucket_tombstone:
  assumes h: "ok h" and v: "valid v" and i: "i < buckets h" "data h ! i = Entry e" "key e = key v"
    and wild: "cm Tombstone v = None"
  shows "get_bucket (h\<lparr>data := (data h)[i := Tombstone]\<rparr>) v ts = None"
proof -
  let ?h = "h\<lparr>data := (data h)[i := Tombstone]\<rparr>"
  have len: "length (data ?h) = buckets ?h" "hash ?h = hs" "cmp ?h = cm" "0 < buckets ?h"
    using h i(1) by (auto simp: hm_ok_def)
  from before_present [OF h v i] obtain d where d: "i = (unat (hs v) + d) mod buckets h"
    "\<forall>j < d. (unat (hs v) + j) mod buckets h \<noteq> i \<and>
       (\<exists>f. data h ! ((unat (hs v) + j) mod buckets h) = Entry f \<and> valid f \<and> key f \<noteq> key v)" by auto
  have "\<forall>j < d. \<exists>f. data ?h ! ((unat (hs v) + j) mod buckets ?h) = Entry f \<and> valid f \<and> key f \<noteq> key v"
  proof (intro allI impI)
    fix j assume "j < d"
    with d(2) have "(unat (hs v) + j) mod buckets h \<noteq> i"
      "\<exists>f. data h ! ((unat (hs v) + j) mod buckets h) = Entry f \<and> valid f \<and> key f \<noteq> key v" by blast+
    then show "\<exists>f. data ?h ! ((unat (hs v) + j) mod buckets ?h) = Entry f \<and> valid f \<and> key f \<noteq> key v" by simp
  qed
  with probe_skip [OF len(3,1) v len(4)] len d(1)
  have "get_bucket ?h v ts = probe ?h v ts i None" by (simp add: get_bucket_def)
  also have "\<dots> = None" using i len wild by (subst probe.simps) (simp add: slot_at_def)
  finally show ?thesis .
qed

lemma get_bucket_absent:
  assumes h: "ok h" and v: "valid v" and b: "0 < buckets h"
    and absent: "\<forall>e \<in> contents (data h). key e \<noteq> key v"
  shows "\<exists>i < buckets h. get_bucket h v ts = Some i \<and> data h ! i = Empty \<and>
    on_path (data h) (unat (hs v)) i"
proof -
  let ?b = "buckets h" and ?s = "unat (hs v)"
  have len: "length (data h) = ?b" "hash h = hs" "cmp h = cm" using h by (auto simp: hm_ok_def)
  obtain i where "i < length (data h)" "data h ! i = Empty"
    using occ_less [of "data h"] h b by (auto simp: hm_ok_def)
  from first_empty [OF this, of ?s] len obtain d where d: "d < ?b"
    "data h ! ((?s + d) mod ?b) = Empty" "\<forall>j < d. data h ! ((?s + j) mod ?b) \<noteq> Empty" by auto
  have "\<exists>f. data h ! ((?s + j) mod ?b) = Entry f \<and> valid f \<and> key f \<noteq> key v" if j: "j < d" for j
  proof -
    have lt: "(?s + j) mod ?b < ?b" using b by simp
    with d(3) no_tombstone [OF h lt] j obtain f where f: "data h ! ((?s + j) mod ?b) = Entry f"
      by (cases "data h ! ((?s + j) mod ?b)") auto
    with absent at_slot(1,3) [OF h lt f] show ?thesis by blast
  qed
  with probe_skip [OF len(3,1) v b, of d ?s ts] b len
  have "get_bucket h v ts = probe h v ts ((?s + d) mod ?b) None" by (simp add: get_bucket_def)
  also have "\<dots> = Some ((?s + d) mod ?b)"
    using d(2) len b by (subst probe.simps) (auto simp: slot_at_def)
  finally show ?thesis using d len b by (auto simp: on_path_def)
qed

lemma ok_update:
  assumes h: "ok h" and v: "valid v" and i: "i < buckets h" and path: "on_path (data h) (unat (hs v)) i"
    and others: "\<forall>j < buckets h. \<forall>e. j \<noteq> i \<and> data h ! j = Entry e \<longrightarrow> key e \<noteq> key v"
    and room: "Suc (entries h) < buckets h"
  shows "ok (h\<lparr>entries := occ ((data h)[i := Entry v]), freed := fr, data := (data h)[i := Entry v]\<rparr>)"
proof -
  let ?d = "(data h)[i := Entry v]"
  have len: "length (data h) = buckets h" using h by (simp add: hm_ok_def)
  have nth: "?d ! j = (if j = i then Entry v else data h ! j)" if "j < buckets h" for j
    using that len by (simp add: nth_list_update)
  have "Tombstone \<notin> set ?d" using h set_update_subset_insert [of "data h" i "Entry v"] by (auto simp: hm_ok_def)
  moreover have "\<forall>e \<in> contents ?d. valid e"
    using v i len at_slot(1) [OF h] by (auto simp: contents_update)
  moreover have "on_path ?d (unat (hs e)) j" if "j < buckets h" "?d ! j = Entry e" for j e
    using that nth path at_slot(2) [OF h] by (auto intro!: on_path_update split: if_splits)
  moreover have "j = k" if "j < buckets h" "k < buckets h" "?d ! j = Entry e" "?d ! k = Entry f" "key e = key f"
    for j k e f using that nth others at_slot(4) [OF h] by (auto split: if_splits)
  moreover have "occ ?d < buckets h" using occ_update [of i "data h" v] i len room h by (simp add: hm_ok_def)
  ultimately show ?thesis using h len by (simp add: hm_ok_def)
qed

lemma insert_present:
  assumes h: "ok h" and v: "valid v" and room: "Suc (entries h) < buckets h"
    and i: "i < buckets h" "data h ! i = Entry e" "key e = key v"
  shows "\<exists>h'. insert_op h v = Some h' \<and> ok h' \<and> buckets h' = buckets h \<and> has_free h' = has_free h \<and>
    contents (data h') = insert v {e \<in> contents (data h). key e \<noteq> key v} \<and> entries h' = entries h \<and>
    freed h' = freed h @ (if has_free h then [Entry e] else [])"
proof -
  have len: "length (data h) = buckets h" "entries h = occ (data h)" using h by (auto simp: hm_ok_def)
  have e: "valid e" using h contents_nth [of i "data h" e] i len by (simp add: hm_ok_def)
  have path: "on_path (data h) (unat (hs v)) i" using at_slot(2) [OF h i(1,2)] hash_key [OF e v i(3)] by simp
  have others: "\<forall>j < buckets h. \<forall>f. j \<noteq> i \<and> data h ! j = Entry f \<longrightarrow> key f \<noteq> key v"
    using at_slot(4) [OF h i(1,2)] i(3) by auto
  have occ: "occ ((data h)[i := Entry v]) = entries h" using occ_update [of i "data h" v] i len by simp
  let ?h = "h\<lparr>entries := entries h, freed := freed h @ (if has_free h then [Entry e] else []),
    data := (data h)[i := Entry v]\<rparr>"
  have "insert_op h v = Some ?h"
    using get_bucket_present [OF h v i] i len by (simp add: insert_op_def slot_at_def)
  moreover have "ok ?h" using ok_update [OF h v i(1) path others room] by (simp add: occ)
  moreover have "contents (data ?h) = insert v {e \<in> contents (data h). key e \<noteq> key v}"
    using others i len contentsE [of _ "data h"] at_slot(3) [OF h] by (force simp: contents_update)
  ultimately show ?thesis by simp
qed

lemma insert_absent:
  assumes h: "ok h" and v: "valid v" and room: "Suc (entries h) < buckets h"
    and absent: "\<forall>e \<in> contents (data h). key e \<noteq> key v"
  shows "\<exists>h'. insert_op h v = Some h' \<and> ok h' \<and> buckets h' = buckets h \<and> has_free h' = has_free h \<and>
    contents (data h') = insert v (contents (data h)) \<and> entries h' = Suc (entries h) \<and> freed h' = freed h"
proof -
  have len: "length (data h) = buckets h" "entries h = occ (data h)" using h by (auto simp: hm_ok_def)
  from room have "0 < buckets h" by simp
  from get_bucket_absent [OF h v this absent, of True] obtain i where i: "i < buckets h"
    "get_bucket h v True = Some i" "data h ! i = Empty" "on_path (data h) (unat (hs v)) i" by blast
  have others: "\<forall>j < buckets h. \<forall>f. j \<noteq> i \<and> data h ! j = Entry f \<longrightarrow> key f \<noteq> key v"
    using absent contents_nth [of _ "data h"] len by auto
  have occ: "occ ((data h)[i := Entry v]) = Suc (entries h)" using occ_update [of i "data h" v] i len by simp
  let ?h = "h\<lparr>entries := Suc (entries h), freed := freed h, data := (data h)[i := Entry v]\<rparr>"
  have "insert_op h v = Some ?h" using i len by (simp add: insert_op_def slot_at_def)
  moreover have "ok ?h" using ok_update [OF h v i(1,4) others room, of "freed h"] by (simp add: occ)
  moreover have "contents (data ?h) = insert v (contents (data h))"
    using i len contentsE [of _ "data h"] at_slot(3) [OF h] by (force simp: contents_update)
  ultimately show ?thesis by simp
qed

lemma reinsert_ok:
  assumes "ok h" "Tombstone \<notin> set bs" "\<forall>e \<in> contents bs. valid e"
    "\<forall>i < length bs. \<forall>j < length bs. \<forall>e f. bs ! i = Entry e \<and> bs ! j = Entry f \<and> key e = key f \<longrightarrow> i = j"
    "\<forall>e \<in> contents bs. \<forall>f \<in> contents (data h). key e \<noteq> key f" "entries h + occ bs < buckets h"
  shows "\<exists>h'. reinsert bs h = Some h' \<and> ok h' \<and> contents (data h') = contents (data h) \<union> contents bs \<and>
    entries h' = entries h + occ bs \<and> buckets h' = buckets h \<and> has_free h' = has_free h \<and> freed h' = freed h"
  using assms
proof (induction bs arbitrary: h)
  case (Cons b bs)
  have tail: "\<forall>i < length bs. \<forall>j < length bs. \<forall>e f. bs ! i = Entry e \<and> bs ! j = Entry f \<and> key e = key f \<longrightarrow> i = j"
    using Cons.prems(4) by (metis Suc_less_eq length_Cons nat.inject nth_Cons_Suc)
  show ?case
  proof (cases b)
    case Empty
    with Cons tail show ?thesis by (simp add: occ_Cons)
  next
    case Tombstone
    with Cons.prems(2) show ?thesis by simp
  next
    case (Entry e)
    have fresh: "key f \<noteq> key e" if "f \<in> contents bs" for f
    proof -
      from contentsE [OF that] obtain j where "j < length bs" "bs ! j = Entry f" by blast
      with Cons.prems(4) [rule_format, of 0 "Suc j" e f] Entry show ?thesis by auto
    qed
    have "valid e" "\<forall>f \<in> contents (data h). key f \<noteq> key e" "Suc (entries h) < buckets h \<or> bs = bs"
      using Cons.prems(3,5) Entry by auto
    moreover have "Suc (entries h) < buckets h" using Cons.prems(6) Entry by (simp add: occ_Cons)
    ultimately obtain h1 where h1: "insert_op h e = Some h1" "ok h1" "buckets h1 = buckets h"
      "has_free h1 = has_free h" "contents (data h1) = insert e (contents (data h))"
      "entries h1 = Suc (entries h)" "freed h1 = freed h"
      using insert_absent [OF Cons.prems(1), of e] by blast
    have "\<forall>f \<in> contents bs. \<forall>g \<in> contents (data h1). key f \<noteq> key g"
      using fresh Cons.prems(5) Entry h1(5) by auto
    with Cons.IH [OF h1(2) _ _ tail] Cons.prems(2,3,6) Entry h1 show ?thesis by (auto simp: occ_Cons)
  qed
qed simp

lemma rehash_ok:
  assumes h: "ok h" and n: "entries h < n"
  shows "\<exists>h'. rehash h n = Some h' \<and> ok h' \<and> contents (data h') = contents (data h) \<and>
    entries h' = entries h \<and> buckets h' = n \<and> has_free h' = has_free h \<and> freed h' = freed h"
proof -
  let ?h = "h\<lparr>data := replicate n Empty, buckets := n, entries := 0\<rparr>"
  have "ok ?h" using h n by (auto simp: hm_ok_def in_set_conv_nth)
  moreover have "\<forall>i < length (data h). \<forall>j < length (data h). \<forall>e f.
      data h ! i = Entry e \<and> data h ! j = Entry f \<and> key e = key f \<longrightarrow> i = j"
    using h by (auto simp: hm_ok_def)
  ultimately show ?thesis
    using reinsert_ok [of ?h "data h"] h n by (auto simp: rehash_def hm_ok_def)
qed

text \<open>An entry is stored under its key, replacing and freeing the entry that was there.\<close>

lemma insert_value_ok:
  assumes h: "ok h" "sized h" and v: "valid v" and room: "entries h < 2 ^ 28"
  shows "\<exists>h'. hashmap_insert_value h v = Some h' \<and> ok h' \<and> sized h' \<and> has_free h' = has_free h \<and>
    contents (data h') = insert v {e \<in> contents (data h). key e \<noteq> key v} \<and> entries h' \<le> Suc (entries h)"
proof -
  have "\<exists>h1. (if load_high (entries h) (buckets h)
           then rehash h (if buckets h \<noteq> 0 then 2 * buckets h mod 2 ^ 32 else min_buckets)
           else Some h) = Some h1 \<and> ok h1 \<and> contents (data h1) = contents (data h) \<and> entries h1 = entries h \<and>
           has_free h1 = has_free h \<and> 32 \<le> buckets h1 \<and> buckets h1 \<le> 32 + 4 * entries h \<and>
           Suc (entries h1) < buckets h1"
  proof (cases "load_high (entries h) (buckets h)")
    case True
    let ?n = "if buckets h \<noteq> 0 then 2 * buckets h mod 2 ^ 32 else min_buckets"
    have n: "32 \<le> ?n" "?n \<le> 32 + 4 * entries h" "Suc (entries h) < ?n"
      using True h room by (auto simp: load_high_def sized_def min_buckets_def hm_ok_def)
    with rehash_ok [OF h(1), of ?n] True show ?thesis by auto
  next
    case False
    with h show ?thesis by (auto simp: load_high_def sized_def)
  qed
  then obtain h1 where h1: "(if load_high (entries h) (buckets h)
           then rehash h (if buckets h \<noteq> 0 then 2 * buckets h mod 2 ^ 32 else min_buckets)
           else Some h) = Some h1" "ok h1" "contents (data h1) = contents (data h)" "entries h1 = entries h"
    "has_free h1 = has_free h" "32 \<le> buckets h1" "buckets h1 \<le> 32 + 4 * entries h"
    "Suc (entries h1) < buckets h1" by blast
  have "\<exists>h'. insert_op h1 v = Some h' \<and> ok h' \<and> buckets h' = buckets h1 \<and> has_free h' = has_free h1 \<and>
    contents (data h') = insert v {e \<in> contents (data h1). key e \<noteq> key v} \<and>
    entries h1 \<le> entries h' \<and> entries h' \<le> Suc (entries h1)"
  proof (cases "\<exists>e \<in> contents (data h1). key e = key v")
    case True
    then obtain e i where "i < length (data h1)" "data h1 ! i = Entry e" "key e = key v"
      using contentsE by metis
    with insert_present [OF h1(2) v h1(8)] h1(2) show ?thesis by (fastforce simp: hm_ok_def)
  next
    case False
    then have "{e \<in> contents (data h1). key e \<noteq> key v} = contents (data h1)" by blast
    with insert_absent [OF h1(2) v h1(8)] False show ?thesis by auto
  qed
  with h1 show ?thesis by (auto simp: hashmap_insert_value_def sized_def)
qed

lemma find_ok:
  assumes h: "ok h" and v: "valid v" and b: "0 < buckets h"
  shows "\<exists>i < buckets h. get_bucket h v ts = Some i \<and>
    ((\<exists>e \<in> contents (data h). data h ! i = Entry e \<and> key e = key v) \<or>
     (data h ! i = Empty \<and> (\<forall>e \<in> contents (data h). key e \<noteq> key v)))"
proof (cases "\<exists>e \<in> contents (data h). key e = key v")
  case True
  then obtain e i where e: "i < length (data h)" "data h ! i = Entry e" "key e = key v"
    using contentsE by metis
  moreover have "length (data h) = buckets h" using h by (simp add: hm_ok_def)
  ultimately show ?thesis using get_bucket_present [OF h v, of i e ts] at_slot(3) [OF h, of i e] by auto
next
  case False
  with get_bucket_absent [OF h v b, of ts] show ?thesis by auto
qed

lemma contents_key:
  assumes "ok h" "e \<in> contents (data h)" "f \<in> contents (data h)" "key e = key f"
  shows "e = f"
proof -
  from assms obtain i j where "i < buckets h" "j < buckets h" "data h ! i = Entry e" "data h ! j = Entry f"
    using contentsE [of e "data h"] contentsE [of f "data h"] by (auto simp: hm_ok_def)
  with at_slot(4) [OF assms(1)] assms(4) show ?thesis by (metis bucket.inject)
qed

end

section \<open>Maps with string keys\<close>

lemma string_hash_cstr: "string_hash_from hs s = string_hash_from hs (cstr s)"
  by (induction s arbitrary: hs) (auto simp: cstr_def)

interpretation strkey: hashing "\<lambda>e. cstr (hkey e)" "\<lambda>e. terminated (hkey e)"
  string_key_hash string_key_cmp
proof unfold_locales
  fix a b :: "'a hashmap_entry" assume "cstr (hkey a) = cstr (hkey b)"
  then show "string_key_hash a = string_key_hash b"
    by (simp add: string_key_hash_def string_value_hash_def)
      (metis string_hash_cstr)
next
  fix a b :: "'a hashmap_entry" assume "terminated (hkey a)" "terminated (hkey b)"
  with strcmp_refines [of "hkey a" "hkey b"]
  show "\<exists>c. string_key_cmp (Entry a) b = Some c \<and> (c = 0 \<longleftrightarrow> cstr (hkey a) = cstr (hkey b))"
    by (auto simp: string_key_cmp_def)
qed

interpretation strval: hashing cstr terminated string_value_hash string_value_cmp
proof unfold_locales
  fix a b :: "byte list" assume "cstr a = cstr b"
  then show "string_value_hash a = string_value_hash b"
    by (simp add: string_value_hash_def) (metis string_hash_cstr)
next
  fix a b :: "byte list" assume "terminated a" "terminated b"
  with strcmp_refines [of a b]
  show "\<exists>c. string_value_cmp (Entry a) b = Some c \<and> (c = 0 \<longleftrightarrow> cstr a = cstr b)"
    by (auto simp: string_value_cmp_def)
qed

lemma sint_diff_0: "sint (a - b :: u32) = 0 \<longleftrightarrow> a = b"
  using signed_word_eqI [of "a - b" 0] by auto

interpretation ptrval: hashing "\<lambda>p. p" "\<lambda>p. p \<noteq> 0 \<and> p \<noteq> 1" ptr_value_hash ptr_value_cmp
  by unfold_locales (auto simp: ptr_value_cmp_def sint_diff_0)

text \<open>The directory \<open>h\<close> maps the strings in \<open>dom m\<close> to values.\<close>

definition strmap :: "'v hashmap_entry hashmap \<Rightarrow> (byte list \<rightharpoonup> 'v) \<Rightarrow> bool" where
  "strmap h m \<longleftrightarrow>
     hm_ok (\<lambda>e. cstr (hkey e)) (\<lambda>e. terminated (hkey e)) string_key_hash string_key_cmp h \<and> sized h \<and>
     has_free h \<and>
     (\<forall>k v. m k = Some v \<longleftrightarrow> (\<exists>e \<in> contents (data h). cstr (hkey e) = k \<and> hvalue e = v))"

lemma strmap_init: "strmap (hashmap_init string_key_hash string_key_cmp True) Map.empty"
  by (simp add: strmap_def hashmap_init_def hm_ok_def sized_def)

lemma strmap_get:
  assumes "strmap h m" "terminated k"
  shows "hashmap_get null h k = Some (m (cstr k))"
proof (cases "buckets h = 0")
  case True
  with assms have "contents (data h) = {}" by (simp add: strmap_def hm_ok_def)
  with assms(1) True show ?thesis by (auto simp: strmap_def hashmap_get_def)
next
  case False
  let ?e = "\<lparr>hkey = k, hvalue = null\<rparr>"
  from assms False obtain i where i: "i < buckets h" "get_bucket h ?e False = Some i"
    "(\<exists>e \<in> contents (data h). data h ! i = Entry e \<and> cstr (hkey e) = cstr k) \<or>
     (data h ! i = Empty \<and> (\<forall>e \<in> contents (data h). cstr (hkey e) \<noteq> cstr k))"
    using strkey.find_ok [of h ?e False] by (auto simp: strmap_def)
  have m: "m (cstr k) = Some v \<longleftrightarrow> (\<exists>e \<in> contents (data h). cstr (hkey e) = cstr k \<and> hvalue e = v)" for v
    using assms(1) by (simp add: strmap_def)
  have sl: "slot_at h i = Some (data h ! i)" using i(1) assms(1) by (simp add: slot_at_def strmap_def hm_ok_def)
  from i(3) show ?thesis
  proof
    assume "\<exists>e \<in> contents (data h). data h ! i = Entry e \<and> cstr (hkey e) = cstr k"
    then obtain e where e: "e \<in> contents (data h)" "data h ! i = Entry e" "cstr (hkey e) = cstr k" by blast
    then have "m (cstr k) = Some (hvalue e)" using m by blast
    with e i(2) sl False show ?thesis by (simp add: hashmap_get_def)
  next
    assume a: "data h ! i = Empty \<and> (\<forall>e \<in> contents (data h). cstr (hkey e) \<noteq> cstr k)"
    then have "m (cstr k) = None" using m by (cases "m (cstr k)") auto
    with a i(2) sl False show ?thesis by (simp add: hashmap_get_def)
  qed
qed

lemma strmap_insert:
  assumes "strmap h m" "terminated k" "entries h < 2 ^ 28"
  shows "\<exists>h'. hashmap_insert h k v = Some h' \<and> strmap h' (m(cstr k \<mapsto> v)) \<and> entries h' \<le> Suc (entries h)"
proof -
  let ?e = "\<lparr>hkey = k, hvalue = v\<rparr>"
  from strkey.insert_value_ok [of h ?e] assms obtain h' where h': "hashmap_insert_value h ?e = Some h'"
    "strkey.ok h'" "sized h'" "has_free h' = has_free h"
    "contents (data h') = insert ?e {e \<in> contents (data h). cstr (hkey e) \<noteq> cstr k}"
    "entries h' \<le> Suc (entries h)" by (auto simp: strmap_def)
  have "(m(cstr k \<mapsto> v)) l = Some w \<longleftrightarrow> (\<exists>e \<in> contents (data h'). cstr (hkey e) = l \<and> hvalue e = w)" for l w
    using assms(1) by (auto simp: h'(5) strmap_def)
  with h' assms(1) show ?thesis by (simp add: strmap_def hashmap_insert_def)
qed

lemma strmap_inserts:
  assumes "strmap h m" "\<forall>(k, v) \<in> set kvs. terminated k" "entries h + length kvs \<le> 2 ^ 28"
  shows "\<exists>h'. run_steps (\<lambda>h (k, v). hashmap_insert h k v) h kvs = Some h' \<and>
    strmap h' (m ++ map_of (rev (map (\<lambda>(k, v). (cstr k, v)) kvs)))"
  using assms
proof (induction kvs arbitrary: h m)
  case (Cons kv kvs)
  obtain k v where kv: "kv = (k, v)" by fastforce
  with Cons.prems strmap_insert [of h m k v] obtain h1 where h1: "hashmap_insert h k v = Some h1"
    "strmap h1 (m(cstr k \<mapsto> v))" "entries h1 \<le> Suc (entries h)" by auto
  have "\<forall>(k, v) \<in> set kvs. terminated k" "entries h1 + length kvs \<le> 2 ^ 28"
    using Cons.prems(2,3) h1(3) by auto
  from Cons.IH [OF h1(2) this] obtain h' where
    "run_steps (\<lambda>h (k, v). hashmap_insert h k v) h1 kvs = Some h'"
    "strmap h' (m(cstr k \<mapsto> v) ++ map_of (rev (map (\<lambda>(k, v). (cstr k, v)) kvs)))" by blast
  with h1(1) kv show ?case by auto
qed simp

section \<open>Properties\<close>

text \<open>
  Claim C8. A table built by any sequence of \<open>hashmap_insert\<close> implements the finite map of that
  sequence: every insertion returns, growing the table as needed, and \<open>hashmap_get\<close> returns for
  every string the value inserted last under an equal string, or \<open>NULL\<close>.
\<close>

theorem hashmap_implements_map:
  assumes "\<forall>(k, v) \<in> set kvs. terminated k" "length kvs \<le> 2 ^ 28"
  shows "\<exists>h. run_steps (\<lambda>h (k, v). hashmap_insert h k v)
      (hashmap_init string_key_hash string_key_cmp True) kvs = Some h \<and>
    (\<forall>k. terminated k \<longrightarrow>
       hashmap_get null h k = Some (map_of (rev (map (\<lambda>(k, v). (cstr k, v)) kvs)) (cstr k)))"
  using strmap_inserts [OF strmap_init assms(1)] assms(2) strmap_get
  by (fastforce simp: hashmap_init_def)

theorem hashmap_implements_map_witness:
  "\<exists>h. run_steps (\<lambda>h (k, v). hashmap_insert h k v) (hashmap_init string_key_hash string_key_cmp True)
      [(lit ''dev'', 1::nat), (lit ''bin'', 2), (lit ''dev'', 3)] = Some h \<and>
     hashmap_get 0 h (lit ''dev'') = Some (Some 3) \<and> hashmap_get 0 h (lit ''etc'') = Some None"
proof -
  let ?kvs = "[(lit ''dev'', 1::nat), (lit ''bin'', 2), (lit ''dev'', 3)]"
  have t: "terminated (lit ''dev'')" "terminated (lit ''bin'')" "terminated (lit ''etc'')"
    by (simp_all add: terminated_def lit_def)
  have c: "cstr (lit ''dev'') \<noteq> cstr (lit ''bin'')" "cstr (lit ''etc'') \<noteq> cstr (lit ''bin'')"
    "cstr (lit ''etc'') \<noteq> cstr (lit ''dev'')" by (simp_all add: cstr_def lit_def of_char_def)
  from hashmap_implements_map [of ?kvs 0] t obtain h where
    "run_steps (\<lambda>h (k, v). hashmap_insert h k v) (hashmap_init string_key_hash string_key_cmp True) ?kvs = Some h"
    "\<forall>k. terminated k \<longrightarrow> hashmap_get 0 h k = Some (map_of (rev (map (\<lambda>(k, v). (cstr k, v)) ?kvs)) (cstr k))"
    by auto
  with t c show ?thesis by simp
qed

text \<open>
  Claim C17. Deletion does not work on tables with string keys: after \<open>hashmap_delete\<close> of a key
  that is present, looking the key up follows the tombstone pointer as if it were an entry.
\<close>

theorem hashmap_delete_breaks_get:
  assumes "strmap h m" "terminated k" "m (cstr k) = Some v"
  shows "\<exists>h'. hashmap_delete null h k = Some h' \<and> hashmap_get null h' k = None"
proof -
  let ?e = "\<lparr>hkey = k, hvalue = null\<rparr>"
  have h: "strkey.ok h" using assms(1) by (simp add: strmap_def)
  from assms(1,3) obtain e where "e \<in> contents (data h)" "cstr (hkey e) = cstr k" by (auto simp: strmap_def)
  then obtain i where i: "i < buckets h" "data h ! i = Entry e" "cstr (hkey e) = cstr (hkey ?e)"
    using contentsE [of e "data h"] h by (auto simp: hm_ok_def)
  have "terminated (hkey ?e)" using assms(2) by simp
  note g = strkey.get_bucket_present [OF h this i, of False]
    and t = strkey.get_bucket_tombstone [OF h this i, of False]
  have "string_key_cmp Tombstone ?e = None" by (simp add: string_key_cmp_def)
  with g t i show ?thesis
    by (auto simp: hashmap_delete_def hashmap_delete_value_def hashmap_get_def)
qed

theorem hashmap_delete_breaks_get_witness:
  "\<exists>h h'. hashmap_insert (hashmap_init string_key_hash string_key_cmp True) (lit ''a'') (1::nat) = Some h \<and>
     hashmap_delete 0 h (lit ''a'') = Some h' \<and> hashmap_get 0 h' (lit ''a'') = None"
proof -
  have t: "terminated (lit ''a'')" by (simp add: terminated_def lit_def)
  from strmap_insert [OF strmap_init t, of "1::nat"] obtain h where
    h: "hashmap_insert (hashmap_init string_key_hash string_key_cmp True) (lit ''a'') (1::nat) = Some h"
    "strmap h (Map.empty(cstr (lit ''a'') \<mapsto> 1))" by (auto simp: hashmap_init_def)
  from hashmap_delete_breaks_get [OF h(2) t] h(1) show ?thesis by auto
qed

end
