(* ===== verification/Klist.thy ===== *)
theory Klist
  imports Petix_Prelude
begin

text \<open>
  The growing array of \<open>kernel/container/list.c\<close>, which holds the pages of a file in the
  temporary file system. A slot that was allocated but never written is \<open>None\<close>. \<open>krealloc\<close>
  extends the array and keeps its contents; \<open>zero\<close> is the item of all zero bytes, which
  \<open>list_append\<close> stores for the item \<open>NULL\<close>.
\<close>

section \<open>The source\<close>

record 'a klist =
  lsize :: nat
  lcap :: nat
  ldata :: "'a option list"

definition list_init :: "'a klist" where
  "list_init = \<lparr>lsize = 0, lcap = 0, ldata = []\<rparr>"

definition list_release :: "'a klist \<Rightarrow> 'a option list \<times> 'a klist" where
  "list_release l = (ldata l, \<lparr>lsize = 0, lcap = 0, ldata = []\<rparr>)"

definition list_at_unchecked :: "'a klist \<Rightarrow> nat \<Rightarrow> kerr + 'a option" where
  "list_at_unchecked l index = rd (ldata l) index"

definition list_at :: "'a klist \<Rightarrow> nat \<Rightarrow> kerr + 'a option" where
  "list_at l index = kbind (kassert (index < lsize l)) (\<lambda>_. list_at_unchecked l index)"

definition list_append :: "'a \<Rightarrow> 'a klist \<Rightarrow> 'a option \<Rightarrow> kerr + 'a klist" where
  "list_append zero l item =
     kbind (kassert (lsize l \<le> lcap l)) (\<lambda>_.
     let l1 = (if lsize l = lcap l
               then let cap = (if lcap l \<noteq> 0 then 2 * lcap l mod 2 ^ 32 else 32)
                    in l\<lparr>lcap := cap, ldata := take cap (ldata l @ replicate (cap - lcap l) None)\<rparr>
               else l);
         l2 = l1\<lparr>lsize := lsize l1 + 1\<rparr>
     in kbind (list_at l2 (lsize l2 - 1)) (\<lambda>_.
        kbind (wr (ldata l2) (lsize l2 - 1) (Some (case item of None \<Rightarrow> zero | Some x \<Rightarrow> x))) (\<lambda>d.
        Inr (l2\<lparr>ldata := d\<rparr>))))"

definition list_release_nt :: "'a \<Rightarrow> 'a klist \<Rightarrow> kerr + ('a option list \<times> 'a klist)" where
  "list_release_nt zero l = kbind (list_append zero l None) (\<lambda>l1. Inr (list_release l1))"

definition list_pop :: "'a klist \<Rightarrow> kerr + 'a klist" where
  "list_pop l = kbind (kassert (lsize l > 0)) (\<lambda>_. Inr (l\<lparr>lsize := lsize l - 1\<rparr>))"

section \<open>The sequence a list holds\<close>

definition items :: "'a klist \<Rightarrow> 'a option list" where
  "items l = take (lsize l) (ldata l)"

definition klist_ok :: "'a klist \<Rightarrow> bool" where
  "klist_ok l \<longleftrightarrow> length (ldata l) = lcap l \<and> lsize l \<le> lcap l \<and> (lcap l = 0 \<or> 32 \<le> lcap l)"

lemma klist_init: "klist_ok list_init" "items list_init = []"
  by (simp_all add: klist_ok_def list_init_def items_def)

lemma length_items: "klist_ok l \<Longrightarrow> length (items l) = lsize l"
  by (simp add: klist_ok_def items_def)

lemma list_append_ok:
  assumes "klist_ok l" "lsize l < 2 ^ 31"
  shows "\<exists>l'. list_append zero l item = Inr l' \<and> klist_ok l' \<and>
    items l' = items l @ [Some (case item of None \<Rightarrow> zero | Some x \<Rightarrow> x)]"
proof (cases "lsize l = lcap l")
  case True
  then show ?thesis using assms
    by (auto simp: list_append_def Let_def list_at_def list_at_unchecked_def klist_ok_def items_def
      take_Suc_conv_app_nth nth_append)
next
  case False
  then show ?thesis using assms
    by (auto simp: list_append_def Let_def list_at_def list_at_unchecked_def klist_ok_def items_def
      take_Suc_conv_app_nth)
qed

lemma list_at_ok: "klist_ok l \<Longrightarrow> i < lsize l \<Longrightarrow> list_at l i = Inr (items l ! i)"
  by (simp add: list_at_def list_at_unchecked_def klist_ok_def items_def)

lemma list_pop_ok: "klist_ok l \<Longrightarrow> 0 < lsize l \<Longrightarrow>
  \<exists>l'. list_pop l = Inr l' \<and> klist_ok l' \<and> items l' = butlast (items l)"
  by (auto simp: list_pop_def klist_ok_def items_def butlast_take)

section \<open>The interface of a sequence\<close>

datatype 'a list_op = Append 'a | Pop

fun list_step :: "('s \<Rightarrow> 'a option \<Rightarrow> kerr + 's) \<Rightarrow> ('s \<Rightarrow> kerr + 's) \<Rightarrow> 's \<Rightarrow> 'a list_op \<Rightarrow> 's option" where
  "list_step app pop s (Append x) = (case app s (Some x) of Inr s' \<Rightarrow> Some s' | Inl _ \<Rightarrow> None)"
| "list_step app pop s Pop = (case pop s of Inr s' \<Rightarrow> Some s' | Inl _ \<Rightarrow> None)"

fun seq_step :: "'a list \<Rightarrow> 'a list_op \<Rightarrow> 'a list option" where
  "seq_step xs (Append x) = Some (xs @ [x])"
| "seq_step xs Pop = (if xs = [] then None else Some (butlast xs))"

locale sequence =
  fixes rep :: "'s \<Rightarrow> 'a list \<Rightarrow> bool" and app :: "'s \<Rightarrow> 'a option \<Rightarrow> kerr + 's" and pop :: "'s \<Rightarrow> kerr + 's"
    and limit :: nat
  assumes app_ok: "rep s xs \<Longrightarrow> length xs < limit \<Longrightarrow> \<exists>s'. app s (Some x) = Inr s' \<and> rep s' (xs @ [x])"
    and pop_ok: "rep s xs \<Longrightarrow> xs \<noteq> [] \<Longrightarrow> \<exists>s'. pop s = Inr s' \<and> rep s' (butlast xs)"
begin

lemma refines:
  "rep s xs \<Longrightarrow> run_steps seq_step xs ops = Some ys \<Longrightarrow> length xs + length ops \<le> limit \<Longrightarrow>
   \<exists>s'. run_steps (list_step app pop) s ops = Some s' \<and> rep s' ys"
proof (induction ops arbitrary: s xs)
  case (Cons op ops)
  show ?case
  proof (cases op)
    case (Append x)
    with app_ok [OF Cons.prems(1), of x] Cons.prems(3) obtain s1 where
      "app s (Some x) = Inr s1" "rep s1 (xs @ [x])" by auto
    with Cons.IH [of s1 "xs @ [x]"] Cons.prems Append show ?thesis by simp
  next
    case Pop
    with Cons.prems(2) have ne: "xs \<noteq> []" by (cases xs) auto
    with pop_ok [OF Cons.prems(1)] obtain s1 where "pop s = Inr s1" "rep s1 (butlast xs)" by auto
    with Cons.IH [of s1 "butlast xs"] Cons.prems Pop ne show ?thesis by simp
  qed
qed simp

end

definition holds_list :: "'a klist \<Rightarrow> 'a list \<Rightarrow> bool" where
  "holds_list l xs \<longleftrightarrow> klist_ok l \<and> items l = map Some xs"

lemma holds_list_size: "holds_list l xs \<Longrightarrow> lsize l = length xs"
  using length_items by (fastforce simp: holds_list_def)

interpretation klist: sequence holds_list "list_append zero" list_pop "2 ^ 31" for zero
proof unfold_locales
  fix l :: "'a klist" and xs x
  assume a: "holds_list l xs" "length xs < 2 ^ 31"
  then have "klist_ok l" "lsize l < 2 ^ 31" using holds_list_size [OF a(1)] by (simp_all add: holds_list_def)
  from list_append_ok [OF this, of zero "Some x"] a(1)
  show "\<exists>l'. list_append zero l (Some x) = Inr l' \<and> holds_list l' (xs @ [x])"
    by (auto simp: holds_list_def)
next
  fix l :: "'a klist" and xs
  assume a: "holds_list l xs" "xs \<noteq> []"
  then have "klist_ok l" "0 < lsize l" using holds_list_size [OF a(1)] by (simp_all add: holds_list_def)
  from list_pop_ok [OF this] a(1) show "\<exists>l'. list_pop l = Inr l' \<and> holds_list l' (butlast xs)"
    by (auto simp: holds_list_def map_butlast)
qed

section \<open>Properties\<close>



end
