(* ===== verification/Tmpfs.thy ===== *)
theory Tmpfs
  imports Tarfs Hashmap Klist Mem
begin

unbundle bit_operations_syntax

text \<open>
  The temporary file system, \<open>kernel/fs/tmpfs.c\<close>. A directory is a hash table from names to nodes,
  a regular file a list of pages. A \<open>struct tmpnode *\<close>, which is also the inode number, and a page
  are identities in the state; \<open>page_junk\<close> is what a newly allocated page holds.
\<close>

section \<open>The source\<close>

datatype tmp_contents = Children "nat hashmap_entry hashmap" | Pages "nat klist"

record tmpnode =
  tn_inode :: inode
  tn_contents :: tmp_contents

record tmpvfs = tvfs +
  tnodes :: "nat \<rightharpoonup> tmpnode"
  next_node :: nat
  tpages :: "nat \<rightharpoonup> byte list"
  next_page :: nat
  page_junk :: "nat \<Rightarrow> byte list"

fun children :: "tmpnode \<Rightarrow> kerr + nat hashmap_entry hashmap" where
  "children nd = (case tn_contents nd of Children h \<Rightarrow> Inr h | Pages _ \<Rightarrow> Inl BadAccess)"

fun file_pages :: "tmpnode \<Rightarrow> kerr + nat klist" where
  "file_pages nd = (case tn_contents nd of Pages l \<Rightarrow> Inr l | Children _ \<Rightarrow> Inl BadAccess)"

definition new_dir :: "nat hashmap_entry hashmap" where
  "new_dir = hashmap_init string_key_hash string_key_cmp True"

definition tmp_getroot :: "nat \<Rightarrow> inode \<Rightarrow> 'a tmpvfs_scheme \<Rightarrow> kerr + (int \<times> inode \<times> 'a tmpvfs_scheme)" where
  "tmp_getroot fs i v =
     kbind (get_inst (Some fs) v) (\<lambda>inst.
     let (n, v1) =
       (case inst_private inst of
          Some n \<Rightarrow> (n, v)
        | None \<Rightarrow>
            let n = next_node v;
                nd = \<lparr>tn_inode = null_inode\<lparr>iexec := False, iftype := FT_DIR, inode_id := n, ifs := Some fs\<rparr>,
                      tn_contents = Children new_dir\<rparr>
            in (n, v\<lparr>tnodes := (tnodes v)(n \<mapsto> nd), next_node := n + 1,
                     insts := (insts v)(fs \<mapsto> inst\<lparr>inst_private := Some n\<rparr>)\<rparr>))
     in kbind (deref (tnodes v1 n)) (\<lambda>nd. Inr (0, tn_inode nd, v1)))"

definition tmp_lookup :: "inode \<Rightarrow> byte list \<Rightarrow> inode \<Rightarrow> 'a tmpvfs_scheme \<Rightarrow> kerr + (int \<times> inode \<times> 'a tmpvfs_scheme)" where
  "tmp_lookup dir fname out v =
     kbind (kassert (iftype dir = FT_DIR)) (\<lambda>_.
     kbind (deref (tnodes v (inode_id dir))) (\<lambda>parent.
     kbind (children parent) (\<lambda>h.
     kbind (deref (hashmap_get 0 h fname)) (\<lambda>r.
     case r of
       None \<Rightarrow> Inr (err ENOENT, out, v)
     | Some n \<Rightarrow> kbind (deref (tnodes v n)) (\<lambda>nd. Inr (0, tn_inode nd, v))))))"

text \<open>The common part of \<open>tmp_creat\<close> and \<open>tmp_mkdir\<close>: the new node is allocated before the test.\<close>

definition tmp_add :: "(nat \<Rightarrow> nat option \<Rightarrow> tmpnode) \<Rightarrow> inode \<Rightarrow> byte list \<Rightarrow> 'a tmpvfs_scheme \<Rightarrow> kerr + (int \<times> 'a tmpvfs_scheme)" where
  "tmp_add mk dir name v =
     (if iftype dir \<noteq> FT_DIR then Inr (err ENOTDIR, v)
      else
        kbind (deref (tnodes v (inode_id dir))) (\<lambda>parent.
        let n = next_node v;
            v1 = v\<lparr>tnodes := (tnodes v)(n \<mapsto> mk n (ifs (tn_inode parent))), next_node := n + 1\<rparr>
        in kbind (children parent) (\<lambda>h.
           kbind (deref (hashmap_get 0 h name)) (\<lambda>r.
           if r \<noteq> None then Inr (err EEXIST, v1)
           else kbind (deref (hashmap_insert h (cstr name @ [0]) n)) (\<lambda>h'.
                Inr (0, v1\<lparr>tnodes := (tnodes v1)(inode_id dir \<mapsto> parent\<lparr>tn_contents := Children h'\<rparr>)\<rparr>))))))"

definition tmp_creat :: "inode \<Rightarrow> byte list \<Rightarrow> 'a tmpvfs_scheme \<Rightarrow> kerr + (int \<times> 'a tmpvfs_scheme)" where
  "tmp_creat = tmp_add (\<lambda>n fs. \<lparr>tn_inode = null_inode\<lparr>iexec := False, iftype := FT_REGULAR, inode_id := n,
     ifs := fs, isize := 0\<rparr>, tn_contents = Pages list_init\<rparr>)"

definition tmp_mkdir :: "inode \<Rightarrow> byte list \<Rightarrow> 'a tmpvfs_scheme \<Rightarrow> kerr + (int \<times> 'a tmpvfs_scheme)" where
  "tmp_mkdir = tmp_add (\<lambda>n fs. \<lparr>tn_inode = null_inode\<lparr>iexec := False, iftype := FT_DIR, inode_id := n, ifs := fs\<rparr>,
     tn_contents = Children new_dir\<rparr>)"

definition tmp_open :: "inode \<Rightarrow> kfile \<Rightarrow> u32 \<Rightarrow> 'a vfs_scheme \<Rightarrow> kerr + (int \<times> kfile \<times> 'a vfs_scheme)" where
  "tmp_open i f mode v = Inr (0, f\<lparr>fsize := int (isize i), fprivate := of_nat (inode_id i)\<rparr>, v)"

text \<open>The page at an offset, through \<open>list_at\<close>.\<close>

definition page_at :: "nat klist \<Rightarrow> nat \<Rightarrow> 'a tmpvfs_scheme \<Rightarrow> kerr + (nat \<times> byte list)" where
  "page_at l page v =
     kbind (list_at l page) (\<lambda>p.
     kbind (deref p) (\<lambda>pg.
     kbind (deref (tpages v pg)) (\<lambda>bs. Inr (pg, bs))))"

text \<open>
  The copying loop of \<open>tmp_read\<close>, from \<open>off\<close> to \<open>stop\<close>. Every round copies the rest of the page; the
  result are all the bytes stored at \<open>buf\<close>.
\<close>

function tmp_read_loop :: "nat klist \<Rightarrow> nat \<Rightarrow> nat \<Rightarrow> 'a tmpvfs_scheme \<Rightarrow> kerr + byte list" where
  "tmp_read_loop l off stop v =
     (if off < stop
      then
        let poff = off mod PAGE_SIZE; delta = PAGE_SIZE - poff in
        kbind (page_at l (off div PAGE_SIZE) v) (\<lambda>(pg, bs).
        if poff + delta \<le> length bs
        then kbind (tmp_read_loop l (off + delta) stop v) (\<lambda>r. Inr (take delta (drop poff bs) @ r))
        else Inl BadAccess)
      else Inr [])"
  by pat_completeness auto
termination
  by (relation "measure (\<lambda>(l, off, stop, v). stop - off)")
    (auto simp: PAGE_SIZE_def intro!: diff_less_mono2)

definition tmp_read :: "kfile \<Rightarrow> nat \<Rightarrow> 'a tmpvfs_scheme \<Rightarrow> kerr + (int \<times> byte list \<times> kfile \<times> 'a tmpvfs_scheme)" where
  "tmp_read f n v =
     kbind (kassert (iftype (finode f) = FT_REGULAR)) (\<lambda>_.
     let len = unat (word_of_int (min (fsize f - foffset f) (int n)) :: u32) in
     kbind (deref (tnodes v (inode_id (finode f)))) (\<lambda>nd.
     kbind (file_pages nd) (\<lambda>l.
     kbind (tmp_read_loop l (nat (foffset f)) (nat (foffset f) + len) v) (\<lambda>bs.
     Inr (int len, bs, f\<lparr>foffset := foffset f + int len\<rparr>, v)))))"

definition CEIL :: "nat \<Rightarrow> nat \<Rightarrow> nat" where
  "CEIL x y = (x + y - 1) div y"

text \<open>The loop of \<open>tmp_write\<close> that appends new pages.\<close>

fun grow :: "nat \<Rightarrow> nat klist \<Rightarrow> 'a tmpvfs_scheme \<Rightarrow> kerr + (nat klist \<times> 'a tmpvfs_scheme)" where
  "grow 0 l v = Inr (l, v)"
| "grow (Suc k) l v =
     (let p = next_page v; v1 = v\<lparr>tpages := (tpages v)(p \<mapsto> page_junk v p), next_page := p + 1\<rparr> in
      kbind (list_append 0 l (Some p)) (\<lambda>l1. grow k l1 v1))"

text \<open>
  The copying loop of \<open>tmp_write\<close>: \<open>buf\<close> is the memory from the pointer on. Every round copies up
  to the end of the page, whatever is left to write.
\<close>

function tmp_write_loop :: "nat klist \<Rightarrow> byte list \<Rightarrow> nat \<Rightarrow> nat \<Rightarrow> 'a tmpvfs_scheme \<Rightarrow> kerr + 'a tmpvfs_scheme" where
  "tmp_write_loop l buf off stop v =
     (if off < stop
      then
        let poff = off mod PAGE_SIZE; delta = min (PAGE_SIZE - poff) (stop - poff) in
        kbind (page_at l (off div PAGE_SIZE) v) (\<lambda>(pg, bs).
        kbind (memcpy bs poff buf (PAGE_SIZE - poff)) (\<lambda>bs'.
        tmp_write_loop l (drop delta buf) (off + delta) stop (v\<lparr>tpages := (tpages v)(pg \<mapsto> bs')\<rparr>)))
      else Inr v)"
  by pat_completeness auto
termination
proof (relation "measure (\<lambda>(l, buf, off, stop, v). stop - off)", simp)
  fix l :: "nat klist" and buf off stop v x xa y xb xc xd
  assume "off < stop" "x = off mod PAGE_SIZE" "xa = min (PAGE_SIZE - x) (stop - x)"
  moreover have "off mod PAGE_SIZE < PAGE_SIZE" by (simp add: PAGE_SIZE_def)
  moreover have "off mod PAGE_SIZE < stop" using \<open>off < stop\<close> by (meson le_less_trans mod_less_eq_dividend)
  ultimately have "0 < xa" by auto
  with \<open>off < stop\<close> show "((l, drop xa buf, off + xa, stop, xd), l, buf, off, stop, v) \<in> measure (\<lambda>(l, buf, off, stop, v). stop - off)"
    by simp
qed

definition tmp_write :: "kfile \<Rightarrow> byte list \<Rightarrow> nat \<Rightarrow> 'a tmpvfs_scheme \<Rightarrow> kerr + (int \<times> kfile \<times> 'a tmpvfs_scheme)" where
  "tmp_write f buf n v =
     kbind (kassert (iftype (finode f) = FT_REGULAR)) (\<lambda>_.
     kbind (deref (tnodes v (inode_id (finode f)))) (\<lambda>nd.
     kbind (file_pages nd) (\<lambda>l.
     let off = nat (foffset f);
         curr_pages = CEIL (nat (fsize f)) PAGE_SIZE;
         needed_pages = CEIL (off + n) PAGE_SIZE
     in kbind (grow (unat (of_nat needed_pages - of_nat curr_pages :: u32)) l v) (\<lambda>(l1, v1).
        let f1 = f\<lparr>fsize := max (fsize f) (foffset f + int n)\<rparr>;
            nd1 = nd\<lparr>tn_contents := Pages l1, tn_inode := (tn_inode nd)\<lparr>isize := nat (fsize f1)\<rparr>\<rparr>;
            v2 = v1\<lparr>tnodes := (tnodes v1)(inode_id (finode f) \<mapsto> nd1)\<rparr>
        in kbind (tmp_write_loop l1 buf off (off + n) v2) (\<lambda>v3.
           Inr (int n, f1\<lparr>foffset := foffset f + int n\<rparr>, v3))))))"

definition tmp_getdent :: "kfile \<Rightarrow> petix_dirent \<Rightarrow> 'a tmpvfs_scheme \<Rightarrow>
    kerr + (int \<times> petix_dirent \<times> kfile \<times> 'a tmpvfs_scheme)" where
  "tmp_getdent f d v =
     kbind (kassert (iftype (finode f) = FT_DIR)) (\<lambda>_.
     kbind (deref (tnodes v (inode_id (finode f)))) (\<lambda>nd.
     kbind (children nd) (\<lambda>h.
     kbind (deref (hashmap_begin h)) (\<lambda>start_iter.
     let start = (case start_iter of None \<Rightarrow> 0 | Some i \<Rightarrow> i); entry = start + nat (foffset f) in
     if entry \<ge> hashmap_end h then Inr (0, d\<lparr>d_present := False\<rparr>, f, v)
     else (case data h ! entry of
             Entry e \<Rightarrow>
               kbind (deref (tnodes v (hvalue e))) (\<lambda>child.
               kbind (strncpy (d_name d) 0 (hkey e) FILE_NAME_LEN) (\<lambda>dn.
               kbind (deref (hashmap_next h entry)) (\<lambda>nxt.
               Inr (0, \<lparr>d_inode_id = inode_id (tn_inode child), d_present = True, d_type = iftype (tn_inode child),
                        d_name = dn\<rparr>,
                    f\<lparr>foffset := int (the nxt) - int start\<rparr>, v))))
           | _ \<Rightarrow> Inl BadAccess)))))"

definition tmpfs_fops :: "'a tmpvfs_scheme file_ops" where
  "tmpfs_fops = no_ops\<lparr>op_open := Some tmp_open, op_lseek := Some fs_default_lseek, op_read := Some tmp_read,
     op_write := Some tmp_write, op_getdent := Some tmp_getdent\<rparr>"

definition get_tmpfs :: "'a tmpvfs_scheme inode_ops" where
  "get_tmpfs = \<lparr>reg_ops = Tmpfs_fops, op_getroot = Some tmp_getroot, op_lookup = Some tmp_lookup, op_lookup_all = None,
     op_creat = Some tmp_creat, op_mkdir = Some tmp_mkdir\<rparr>"

declare tmp_read_loop.simps [simp del] tmp_write_loop.simps [simp del]

section \<open>The bytes of a file\<close>

definition pages_ok :: "'a tmpvfs_scheme \<Rightarrow> nat klist \<Rightarrow> nat list \<Rightarrow> bool" where
  "pages_ok v l ps \<longleftrightarrow> klist_ok l \<and> items l = map Some ps \<and> distinct ps \<and>
     (\<forall>p \<in> set ps. p < next_page v \<and> (\<exists>bs. tpages v p = Some bs \<and> length bs = PAGE_SIZE))"

definition page_bytes :: "'a tmpvfs_scheme \<Rightarrow> nat list \<Rightarrow> byte list" where
  "page_bytes v ps = concat (map (\<lambda>p. the (tpages v p)) ps)"

lemma concat_blocks:
  "\<forall>x \<in> set xs. length x = b \<Longrightarrow> i < length xs \<Longrightarrow> r \<le> b \<Longrightarrow>
   drop (b * i + r) (concat xs) = drop r (xs ! i) @ concat (drop (Suc i) xs)"
proof (induction xs arbitrary: i)
  case (Cons x xs)
  show ?case
  proof (cases i)
    case 0
    with Cons.prems show ?thesis by simp
  next
    case (Suc j)
    have "b * Suc j + r = length x + (b * j + r)" using Cons.prems by simp
    then have "drop (b * Suc j + r) (concat (x # xs)) = drop (b * j + r) (concat xs)" by (simp add: drop_append)
    with Cons Suc show ?thesis by simp
  qed
qed simp

lemma length_concat_blocks: "\<forall>x \<in> set xs. length x = b \<Longrightarrow> length (concat xs) = b * length xs"
  by (induction xs) auto

lemma pages_page_at:
  assumes "pages_ok v l ps" "i < length ps"
  shows "page_at l i v = Inr (ps ! i, the (tpages v (ps ! i)))" "length (the (tpages v (ps ! i))) = PAGE_SIZE"
proof -
  note k = assms(1) [unfolded pages_ok_def]
  have len: "lsize l = length ps" using k length_items [of l] by simp
  have it: "ldata l ! i = Some (ps ! i)" "i < length (ldata l)"
  proof -
    have "items l ! i = Some (ps ! i)" using k assms(2) by simp
    then show "ldata l ! i = Some (ps ! i)" using len assms(2) by (simp add: items_def)
    show "i < length (ldata l)" using k len assms(2) by (auto simp: klist_ok_def)
  qed
  obtain bs where bs: "tpages v (ps ! i) = Some bs" "length bs = PAGE_SIZE" using k assms(2) by (meson nth_mem)
  show "page_at l i v = Inr (ps ! i, the (tpages v (ps ! i)))"
    using it bs len assms(2) by (simp add: page_at_def list_at_def list_at_unchecked_def deref_def)
  show "length (the (tpages v (ps ! i))) = PAGE_SIZE" using bs by simp
qed

lemma page_bytes_drop:
  assumes "pages_ok v l ps" "off div PAGE_SIZE < length ps"
  shows "drop off (page_bytes v ps) = drop (off mod PAGE_SIZE) (the (tpages v (ps ! (off div PAGE_SIZE)))) @
    concat (drop (Suc (off div PAGE_SIZE)) (map (\<lambda>p. the (tpages v p)) ps))"
proof -
  have "\<forall>x \<in> set (map (\<lambda>p. the (tpages v p)) ps). length x = PAGE_SIZE" using assms(1) by (auto simp: pages_ok_def)
  from concat_blocks [OF this, of "off div PAGE_SIZE" "off mod PAGE_SIZE"] assms(2)
  show ?thesis by (simp add: page_bytes_def PAGE_SIZE_def)
qed

lemma length_page_bytes:
  assumes "pages_ok v l ps"
  shows "length (page_bytes v ps) = PAGE_SIZE * length ps"
proof -
  have "\<forall>x \<in> set (map (\<lambda>p. the (tpages v p)) ps). length x = PAGE_SIZE" using assms by (auto simp: pages_ok_def)
  from length_concat_blocks [OF this] show ?thesis by (simp add: page_bytes_def)
qed

lemma poff_less: "off mod PAGE_SIZE < PAGE_SIZE"
  by (simp add: PAGE_SIZE_def)

lemma page_step: "off + (PAGE_SIZE - off mod PAGE_SIZE) = PAGE_SIZE * Suc (off div PAGE_SIZE)"
  using mult_div_mod_eq [of PAGE_SIZE off] poff_less [of off] unfolding mult_Suc_right by linarith

lemma ceil_bounds:
  "off < stop \<Longrightarrow> Suc (off div PAGE_SIZE) \<le> CEIL stop PAGE_SIZE" "stop \<le> PAGE_SIZE * k \<Longrightarrow> CEIL stop PAGE_SIZE \<le> k"
  "stop \<le> PAGE_SIZE * CEIL stop PAGE_SIZE"
proof -
  have pos: "0 < PAGE_SIZE" by (simp add: PAGE_SIZE_def)
  have m: "PAGE_SIZE * CEIL stop PAGE_SIZE + (stop + PAGE_SIZE - 1) mod PAGE_SIZE = stop + PAGE_SIZE - 1"
    unfolding CEIL_def by (rule mult_div_mod_eq)
  show "stop \<le> PAGE_SIZE * CEIL stop PAGE_SIZE" using m poff_less [of "stop + PAGE_SIZE - 1"] by linarith
  show "Suc (off div PAGE_SIZE) \<le> CEIL stop PAGE_SIZE" if "off < stop"
  proof -
    have "(off + PAGE_SIZE) div PAGE_SIZE \<le> CEIL stop PAGE_SIZE" unfolding CEIL_def using that by (intro div_le_mono) simp
    moreover have "(off + PAGE_SIZE) div PAGE_SIZE = Suc (off div PAGE_SIZE)" using pos by (simp add: div_add_self2)
    ultimately show ?thesis by simp
  qed
  show "CEIL stop PAGE_SIZE \<le> k" if "stop \<le> PAGE_SIZE * k"
  proof -
    have "stop + PAGE_SIZE - 1 < (k + 1) * PAGE_SIZE" using that pos by (simp add: mult.commute)
    then have "CEIL stop PAGE_SIZE < k + 1" unfolding CEIL_def by (rule less_mult_imp_div_less)
    then show ?thesis by simp
  qed
qed

lemma page_index: "off < stop \<Longrightarrow> stop \<le> PAGE_SIZE * n \<Longrightarrow> off div PAGE_SIZE < n"
  by (simp add: PAGE_SIZE_def less_mult_imp_div_less mult.commute)

text \<open>
  Reading stores the bytes of the file from \<open>off\<close> on, up to the end of the page that holds the last
  byte that was asked for.
\<close>

lemma tmp_read_loop_ok:
  assumes "pages_ok v l ps" "stop \<le> PAGE_SIZE * length ps"
  shows "tmp_read_loop l off stop v = Inr (if off < stop then take (PAGE_SIZE * CEIL stop PAGE_SIZE - off) (drop off (page_bytes v ps)) else [])"
  using assms
proof (induction l off stop v rule: tmp_read_loop.induct)
  case (1 l off stop v)
  show ?case
  proof (cases "off < stop")
    case True
    let ?i = "off div PAGE_SIZE" and ?r = "off mod PAGE_SIZE" and ?F = "page_bytes v ps"
    let ?d = "PAGE_SIZE - ?r" and ?stp = "PAGE_SIZE * CEIL stop PAGE_SIZE"
    have i: "?i < length ps" by (rule page_index [OF True 1(3)])
    note pa = pages_page_at [OF 1(2) i]
    let ?pg = "the (tpages v (ps ! ?i))"
    have rec: "tmp_read_loop l (off + ?d) stop v =
        Inr (if off + ?d < stop then take (?stp - (off + ?d)) (drop (off + ?d) ?F) else [])"
      using 1(1) [OF True refl refl pa(1) refl] pa(2) poff_less [of off] 1(2,3) by simp
    have eq: "tmp_read_loop l off stop v = kbind (tmp_read_loop l (off + ?d) stop v) (\<lambda>r. Inr (drop ?r ?pg @ r))"
      using True pa poff_less [of off] by (subst tmp_read_loop.simps) (simp add: Let_def)
    have next_at: "off + ?d = PAGE_SIZE * Suc ?i" by (rule page_step)
    have F: "drop off ?F = drop ?r ?pg @ drop (off + ?d) ?F"
    proof -
      have "drop (off + ?d) ?F = drop ?d (drop off ?F)" by (simp add: add.commute)
      also have "\<dots> = concat (drop (Suc ?i) (map (\<lambda>p. the (tpages v p)) ps))"
        unfolding page_bytes_drop [OF 1(2) i] using pa(2) by simp
      finally show ?thesis unfolding page_bytes_drop [OF 1(2) i] by simp
    qed
    have "PAGE_SIZE * Suc ?i \<le> ?stp" using ceil_bounds(1) [OF True] by (intro mult_le_mono2)
    then have "?stp - off = ?d + (?stp - (off + ?d))" using next_at by linarith
    then have take: "take (?stp - off) (drop off ?F) = drop ?r ?pg @ take (?stp - (off + ?d)) (drop (off + ?d) ?F)"
      unfolding F using pa(2) by simp
    show ?thesis
    proof (cases "off + ?d < stop")
      case go: True
      with True show ?thesis unfolding eq rec take by simp
    next
      case False
      then have "CEIL stop PAGE_SIZE \<le> Suc ?i" using ceil_bounds(2) [of stop "Suc ?i"] next_at by simp
      then have "?stp \<le> PAGE_SIZE * Suc ?i" by (rule mult_le_mono2)
      then have "?stp - (off + ?d) = 0" unfolding next_at by simp
      with True False show ?thesis unfolding eq rec take by simp
    qed
  next
    case False
    then show ?thesis by (subst tmp_read_loop.simps) simp
  qed
qed

section \<open>Writing\<close>

lemma map_update_page:
  "distinct ps \<Longrightarrow> i < length ps \<Longrightarrow>
   map (\<lambda>p. the (((tpages v)(ps ! i \<mapsto> bs)) p)) ps = (map (\<lambda>p. the (tpages v p)) ps)[i := bs]"
  by (rule nth_equalityI) (auto simp: nth_list_update nth_eq_iff_index_eq)

lemma concat_update_block:
  "\<forall>x \<in> set xs. length x = b \<Longrightarrow> i < length xs \<Longrightarrow> length y = b \<Longrightarrow>
   concat (xs[i := y]) = take (b * i) (concat xs) @ y @ drop (b * Suc i) (concat xs)"
proof (induction xs arbitrary: i)
  case (Cons x xs)
  then show ?case
  proof (cases i)
    case (Suc j)
    have "b * Suc j = length x + b * j" "b * Suc (Suc j) = length x + b * Suc j" using Cons.prems by simp_all
    with Cons Suc show ?thesis by (simp add: drop_append)
  qed simp
qed simp

lemma pages_ok_update:
  "pages_ok v l ps \<Longrightarrow> length bs = PAGE_SIZE \<Longrightarrow> pages_ok (v\<lparr>tpages := (tpages v)(p \<mapsto> bs)\<rparr>) l ps"
  by (auto simp: pages_ok_def)

text \<open>One round of the copying loop replaces the rest of a page.\<close>

lemma page_bytes_update:
  assumes "pages_ok v l ps" "off div PAGE_SIZE < length ps" "PAGE_SIZE - off mod PAGE_SIZE \<le> length buf"
  defines "i \<equiv> off div PAGE_SIZE" and "r \<equiv> off mod PAGE_SIZE"
  defines "bs' \<equiv> take r (the (tpages v (ps ! i))) @ take (PAGE_SIZE - r) buf"
  shows "memcpy (the (tpages v (ps ! i))) r buf (PAGE_SIZE - r) = Inr bs'" "length bs' = PAGE_SIZE"
    "page_bytes (v\<lparr>tpages := (tpages v)(ps ! i \<mapsto> bs')\<rparr>) ps =
      take off (page_bytes v ps) @ take (PAGE_SIZE - r) buf @ drop (off + (PAGE_SIZE - r)) (page_bytes v ps)"
proof -
  let ?pg = "the (tpages v (ps ! i))" and ?xs = "map (\<lambda>p. the (tpages v p)) ps"
  have lp: "length ?pg = PAGE_SIZE" using pages_page_at(2) [OF assms(1,2)] by (simp add: i_def)
  have r: "r < PAGE_SIZE" using poff_less by (simp add: r_def)
  show "memcpy ?pg r buf (PAGE_SIZE - r) = Inr bs'"
    using memcpy_eq [of "PAGE_SIZE - r" buf r ?pg] assms(3) lp r by (simp add: bs'_def r_def)
  show len: "length bs' = PAGE_SIZE" using lp r assms(3) by (simp add: bs'_def r_def)
  have blocks: "\<forall>x \<in> set ?xs. length x = PAGE_SIZE" using assms(1) by (auto simp: pages_ok_def)
  have i: "i < length ps" using assms(2) by (simp add: i_def)
  have "page_bytes (v\<lparr>tpages := (tpages v)(ps ! i \<mapsto> bs')\<rparr>) ps = concat (?xs[i := bs'])"
    unfolding page_bytes_def using map_update_page [of ps i v bs'] assms(1) i by (simp add: pages_ok_def)
  also have "\<dots> = (take (PAGE_SIZE * i) (concat ?xs) @ bs') @ drop (PAGE_SIZE * Suc i) (concat ?xs)"
    using concat_update_block [OF blocks _ len, of i] i by simp
  also have "take (PAGE_SIZE * i) (concat ?xs) @ bs' = take off (concat ?xs) @ take (PAGE_SIZE - r) buf"
  proof -
    have off: "off = PAGE_SIZE * i + r" by (simp add: i_def r_def)
    have "drop (PAGE_SIZE * i) (concat ?xs) = ?pg @ concat (drop (Suc i) ?xs)"
      using concat_blocks [OF blocks, of i 0] i by simp
    then have "take r (drop (PAGE_SIZE * i) (concat ?xs)) = take r ?pg" using lp r by simp
    then show ?thesis unfolding off bs'_def by (simp add: take_add)
  qed
  also have "PAGE_SIZE * Suc i = off + (PAGE_SIZE - r)" using page_step [of off] by (simp add: i_def r_def)
  finally show "page_bytes (v\<lparr>tpages := (tpages v)(ps ! i \<mapsto> bs')\<rparr>) ps =
      take off (page_bytes v ps) @ take (PAGE_SIZE - r) buf @ drop (off + (PAGE_SIZE - r)) (page_bytes v ps)"
    by (simp add: page_bytes_def)
qed

lemma tmp_write_loop_ok:
  assumes "pages_ok v l ps" "stop \<le> PAGE_SIZE * length ps" "stop + PAGE_SIZE \<le> off + length buf" "off < stop"
  shows "\<exists>v'. tmp_write_loop l buf off stop v = Inr v' \<and> pages_ok v' l ps \<and> tnodes v' = tnodes v \<and>
    take stop (page_bytes v' ps) = take off (page_bytes v ps) @ take (stop - off) buf \<and>
    page_junk v' = page_junk v \<and> (\<forall>p. p \<notin> set ps \<longrightarrow> tpages v' p = tpages v p)"
  using assms
proof (induction l buf off stop v rule: tmp_write_loop.induct)
  case (1 l buf off stop v)
  let ?i = "off div PAGE_SIZE" and ?r = "off mod PAGE_SIZE"
  let ?d = "min (PAGE_SIZE - ?r) (stop - ?r)"
  have i: "?i < length ps" by (rule page_index [OF 1(5,3)])
  have r: "?r < PAGE_SIZE" "?r \<le> off" by (simp_all add: poff_less)
  have long: "PAGE_SIZE - ?r \<le> length buf" using 1(4,5) r by linarith
  note pa = pages_page_at [OF 1(2) i] and up = page_bytes_update [OF 1(2) i long]
  let ?bs = "take ?r (the (tpages v (ps ! ?i))) @ take (PAGE_SIZE - ?r) buf"
  let ?v = "v\<lparr>tpages := (tpages v)(ps ! ?i \<mapsto> ?bs)\<rparr>"
  have ok: "pages_ok ?v l ps" by (rule pages_ok_update [OF 1(2) up(2)])
  have step: "tmp_write_loop l buf off stop v = tmp_write_loop l (drop ?d buf) (off + ?d) stop ?v"
    using 1(5) pa up(1) by (subst tmp_write_loop.simps) (simp add: Let_def)
  have off: "off < length (page_bytes v ps)" "stop \<le> length (page_bytes v ps)"
    using 1(3,5) length_page_bytes [OF 1(2)] by simp_all
  have F1: "take (off + k) (page_bytes ?v ps) = take off (page_bytes v ps) @ take k buf" if "k \<le> PAGE_SIZE - ?r" for k
    unfolding up(3) using off(1) that long by (simp add: min_def)
  have same: "tpages ?v p = tpages v p" if "p \<notin> set ps" for p using that i by auto
  show ?case
  proof (cases "off + ?d < stop")
    case True
    have "?d \<le> length buf" using long by linarith
    then have "stop + PAGE_SIZE \<le> off + ?d + length (drop ?d buf)" using 1(4) by simp
    from 1(1) [OF 1(5) refl refl pa(1) refl up(1) ok 1(3) this True] obtain v' where
      v': "tmp_write_loop l (drop ?d buf) (off + ?d) stop ?v = Inr v'" "pages_ok v' l ps" "tnodes v' = tnodes ?v"
        "take stop (page_bytes v' ps) = take (off + ?d) (page_bytes ?v ps) @ take (stop - (off + ?d)) (drop ?d buf)"
        "page_junk v' = page_junk ?v" "\<forall>p. p \<notin> set ps \<longrightarrow> tpages v' p = tpages ?v p" by blast
    have "take (stop - off) buf = take ?d buf @ take (stop - (off + ?d)) (drop ?d buf)"
    proof -
      have "stop - off = ?d + (stop - (off + ?d))" using True by linarith
      then show ?thesis by (metis take_add)
    qed
    with v' F1 [of ?d] same show ?thesis unfolding step by simp
  next
    case False
    then have "tmp_write_loop l (drop ?d buf) (off + ?d) stop ?v = Inr ?v" by (subst tmp_write_loop.simps) simp
    moreover have "stop - off \<le> PAGE_SIZE - ?r" using False r by linarith
    then have "take stop (page_bytes ?v ps) = take off (page_bytes v ps) @ take (stop - off) buf"
      using F1 [of "stop - off"] 1(5) by simp
    ultimately show ?thesis unfolding step using ok same by (intro exI [of _ ?v]) simp
  qed
qed

lemma page_bytes_append [simp]: "page_bytes v (ps @ qs) = page_bytes v ps @ page_bytes v qs"
  by (simp add: page_bytes_def)

lemma tnodes_frame [simp]:
  "page_bytes (v\<lparr>tnodes := x\<rparr>) ps = page_bytes v ps" "pages_ok (v\<lparr>tnodes := x\<rparr>) l ps = pages_ok v l ps"
  by (simp_all add: page_bytes_def pages_ok_def)

lemma page_bytes_cong: "(\<And>p. p \<in> set ps \<Longrightarrow> tpages v' p = tpages v p) \<Longrightarrow> page_bytes v' ps = page_bytes v ps"
  unfolding page_bytes_def by (metis (mono_tags, lifting) map_eq_conv)

definition junk_ok :: "'a tmpvfs_scheme \<Rightarrow> bool" where
  "junk_ok v \<longleftrightarrow> (\<forall>p. length (page_junk v p) = PAGE_SIZE)"

lemma grow_ok:
  assumes "pages_ok v l ps" "junk_ok v" "length ps + k \<le> 2 ^ 31"
  shows "\<exists>l' v' qs. grow k l v = Inr (l', v') \<and> length qs = k \<and> pages_ok v' l' (ps @ qs) \<and> tnodes v' = tnodes v \<and>
    junk_ok v' \<and> (\<forall>p < next_page v. tpages v' p = tpages v p) \<and> (\<forall>q \<in> set qs. next_page v \<le> q)"
  using assms
proof (induction k arbitrary: l v ps)
  case (Suc k)
  let ?p = "next_page v"
  let ?v = "v\<lparr>tpages := (tpages v)(?p \<mapsto> page_junk v ?p), next_page := ?p + 1\<rparr>"
  have "lsize l = length ps" using Suc.prems(1) length_items [of l] by (simp add: pages_ok_def)
  then obtain l1 where l1: "list_append 0 l (Some ?p) = Inr l1" "klist_ok l1" "items l1 = items l @ [Some ?p]"
    using list_append_ok [of l 0 "Some ?p"] Suc.prems by (auto simp: pages_ok_def)
  have "pages_ok ?v l1 (ps @ [?p])"
    using Suc.prems(1,2) l1 by (fastforce simp: pages_ok_def junk_ok_def)
  moreover have "junk_ok ?v" using Suc.prems(2) by (simp add: junk_ok_def)
  ultimately obtain l' v' qs where r: "grow k l1 ?v = Inr (l', v')" "length qs = k" "pages_ok v' l' ((ps @ [?p]) @ qs)"
    "tnodes v' = tnodes ?v" "junk_ok v'" "\<forall>p < next_page ?v. tpages v' p = tpages ?v p" "\<forall>q \<in> set qs. next_page ?v \<le> q"
    using Suc.IH [of ?v l1 "ps @ [?p]"] Suc.prems(3) by auto
  then show ?case using l1(1)
    by (intro exI [of _ l'] exI [of _ v'] exI [of _ "?p # qs"]) (auto simp: Let_def)
qed (auto intro!: exI [of _ "[]"])

section \<open>Files as byte sequences\<close>

definition tmp_file :: "'a tmpvfs_scheme \<Rightarrow> nat \<Rightarrow> byte list \<Rightarrow> bool" where
  "tmp_file v i bs \<longleftrightarrow> (\<exists>nd l ps. tnodes v i = Some nd \<and> tn_contents nd = Pages l \<and> pages_ok v l ps \<and>
     length ps = CEIL (length bs) PAGE_SIZE \<and> isize (tn_inode nd) = length bs \<and> take (length bs) (page_bytes v ps) = bs)"

definition open_at :: "kfile \<Rightarrow> nat \<Rightarrow> nat \<Rightarrow> nat \<Rightarrow> bool" where
  "open_at f i len off \<longleftrightarrow> iftype (finode f) = FT_REGULAR \<and> inode_id (finode f) = i \<and> fsize f = int len \<and> foffset f = int off"

lemma CEIL_mono: "x \<le> y \<Longrightarrow> CEIL x PAGE_SIZE \<le> CEIL y PAGE_SIZE"
  unfolding CEIL_def by (intro div_le_mono) simp

lemma CEIL_le: "CEIL x PAGE_SIZE \<le> x"
proof (cases x)
  case 0
  then show ?thesis by (simp add: CEIL_def PAGE_SIZE_def)
next
  case (Suc y)
  have "x \<le> PAGE_SIZE * x" by (simp add: PAGE_SIZE_def)
  from ceil_bounds(2) [OF this] show ?thesis .
qed

lemma tmp_write_append:
  assumes "tmp_file v i bs" "junk_ok v" "open_at f i (length bs) (length bs)" "n + PAGE_SIZE \<le> length buf"
    "length bs + n < 2 ^ 31"
  shows "\<exists>f' v'. tmp_write f buf n v = Inr (int n, f', v') \<and> tmp_file v' i (bs @ take n buf) \<and> junk_ok v' \<and>
    open_at f' i (length bs + n) (length bs + n) \<and> (\<forall>j. j \<noteq> i \<longrightarrow> tnodes v' j = tnodes v j)"
proof -
  from assms(1) obtain nd l ps where nd: "tnodes v i = Some nd" "tn_contents nd = Pages l" "pages_ok v l ps"
    "length ps = CEIL (length bs) PAGE_SIZE" "isize (tn_inode nd) = length bs" "take (length bs) (page_bytes v ps) = bs"
    by (auto simp: tmp_file_def)
  note f = assms(3) [unfolded open_at_def]
  let ?len = "length bs" and ?need = "CEIL (length bs + n) PAGE_SIZE"
  define k where "k = ?need - length ps"
  have need: "length ps \<le> ?need" "?need < 2 ^ 31"
    using CEIL_mono [of ?len "?len + n"] CEIL_le [of "?len + n"] nd(4) assms(5) by simp_all
  have cnt: "unat (of_nat ?need - of_nat (CEIL ?len PAGE_SIZE) :: u32) = k"
  proof -
    have "(of_nat ?need - of_nat (CEIL ?len PAGE_SIZE) :: u32) = of_nat k"
      using need(1) nd(4) by (simp add: k_def)
    then show ?thesis using need(2) by (simp add: unat_of_nat_u32 k_def)
  qed
  from grow_ok [OF nd(3) assms(2), of k] need obtain l1 v1 qs where
    g: "grow k l v = Inr (l1, v1)" "length qs = k" "pages_ok v1 l1 (ps @ qs)" "tnodes v1 = tnodes v" "junk_ok v1"
      "\<forall>p < next_page v. tpages v1 p = tpages v p" by (auto simp: k_def)
  have "page_bytes v1 ps = page_bytes v ps"
    by (rule page_bytes_cong) (use g(6) nd(3) in \<open>auto simp: pages_ok_def\<close>)
  then have bytes: "take ?len (page_bytes v1 (ps @ qs)) = bs"
    using nd(3,4,6) length_page_bytes [OF nd(3)] ceil_bounds(3) [of ?len] by simp
  let ?nd = "nd\<lparr>tn_contents := Pages l1, tn_inode := (tn_inode nd)\<lparr>isize := ?len + n\<rparr>\<rparr>"
  let ?v2 = "v1\<lparr>tnodes := (tnodes v1)(i \<mapsto> ?nd)\<rparr>"
  let ?f = "f\<lparr>fsize := int (?len + n), foffset := int (?len + n)\<rparr>"
  have ok2: "pages_ok ?v2 l1 (ps @ qs)" "page_bytes ?v2 (ps @ qs) = page_bytes v1 (ps @ qs)"
    using g(3) by simp_all
  have tot: "length (ps @ qs) = ?need" using g(2) need(1) by (simp add: k_def)
  have "\<exists>v3. tmp_write_loop l1 buf ?len (?len + n) ?v2 = Inr v3 \<and> pages_ok v3 l1 (ps @ qs) \<and> tnodes v3 = tnodes ?v2 \<and>
      take (?len + n) (page_bytes v3 (ps @ qs)) = bs @ take n buf \<and> junk_ok v3"
  proof (cases "n = 0")
    case True
    then show ?thesis using ok2 bytes g(5) by (subst tmp_write_loop.simps) (simp add: junk_ok_def)
  next
    case False
    have "?len + n \<le> PAGE_SIZE * length (ps @ qs)" unfolding tot by (rule ceil_bounds(3))
    moreover have "?len + n + PAGE_SIZE \<le> ?len + length buf" using assms(4) by simp
    ultimately obtain v3 where "tmp_write_loop l1 buf ?len (?len + n) ?v2 = Inr v3" "pages_ok v3 l1 (ps @ qs)"
      "tnodes v3 = tnodes ?v2" "take (?len + n) (page_bytes v3 (ps @ qs)) = bs @ take n buf"
      "page_junk v3 = page_junk v1"
      using tmp_write_loop_ok [OF ok2(1), of "?len + n" ?len buf] False bytes ok2(2) by auto
    with g(5) show ?thesis by (auto simp: junk_ok_def)
  qed
  then obtain v3 where w: "tmp_write_loop l1 buf ?len (?len + n) ?v2 = Inr v3" "pages_ok v3 l1 (ps @ qs)"
    "tnodes v3 = tnodes ?v2" "take (?len + n) (page_bytes v3 (ps @ qs)) = bs @ take n buf" "junk_ok v3" by blast
  have "tmp_write f buf n v = Inr (int n, ?f, v3)"
    using f nd(1,2) g(1) w(1) cnt by (simp add: tmp_write_def deref_def Let_def nat_add_distrib max_def)
  moreover have "length (bs @ take n buf) = ?len + n" using assms(4) by simp
  then have "tmp_file v3 i (bs @ take n buf)"
    unfolding tmp_file_def using w(2,3,4) tot
    by (intro exI [of _ ?nd] exI [of _ l1] exI [of _ "ps @ qs"]) simp
  moreover have "open_at ?f i (?len + n) (?len + n)" using f by (simp add: open_at_def)
  ultimately show ?thesis using w(3,5) g(4) by (intro exI [of _ ?f] exI [of _ v3]) simp
qed

lemma tmp_read_slice:
  assumes "tmp_file v i bs" "open_at f i (length bs) q" "q \<le> length bs" "n < 2 ^ 31"
  shows "\<exists>out. tmp_read f n v = Inr (int (min n (length bs - q)), out, f\<lparr>foffset := int (q + min n (length bs - q))\<rparr>, v) \<and>
    take (min n (length bs - q)) out = take n (drop q bs) \<and>
    length out = (if min n (length bs - q) = 0 then 0 else PAGE_SIZE * CEIL (q + min n (length bs - q)) PAGE_SIZE - q)"
proof -
  from assms(1) obtain nd l ps where nd: "tnodes v i = Some nd" "tn_contents nd = Pages l" "pages_ok v l ps"
    "length ps = CEIL (length bs) PAGE_SIZE" "take (length bs) (page_bytes v ps) = bs" by (auto simp: tmp_file_def)
  note f = assms(2) [unfolded open_at_def]
  define m where "m = min n (length bs - q)"
  let ?F = "page_bytes v ps" and ?stp = "PAGE_SIZE * CEIL (q + m) PAGE_SIZE"
  have w: "unat (word_of_int (min (fsize f - foffset f) (int n)) :: u32) = m"
  proof -
    have "min (fsize f - foffset f) (int n) = int m" using f assms(3) by (auto simp: m_def)
    then show ?thesis using assms(4) by (simp add: unat_of_nat_u32 m_def del: of_nat_min)
  qed
  have stop: "q + m \<le> length bs" using assms(3) by (simp add: m_def)
  have ends: "?stp \<le> length ?F" "length bs \<le> length ?F" "q + m \<le> ?stp"
    using CEIL_mono [OF stop] ceil_bounds(3) [of "length bs"] ceil_bounds(3) [of "q + m"] nd(4) length_page_bytes [OF nd(3)]
    by simp_all
  let ?out = "if q < q + m then take (?stp - q) (drop q ?F) else []"
  have "q + m \<le> PAGE_SIZE * length ps" using stop ends(2) length_page_bytes [OF nd(3)] by linarith
  then have "tmp_read_loop l q (q + m) v = Inr ?out" by (rule tmp_read_loop_ok [OF nd(3)])
  moreover have "f\<lparr>foffset := foffset f + int m\<rparr> = f\<lparr>foffset := int (q + m)\<rparr>" using f by simp
  moreover have "nat (foffset f) = q" using f by simp
  ultimately have r: "tmp_read f n v = Inr (int m, ?out, f\<lparr>foffset := int (q + m)\<rparr>, v)"
    using f nd(1,2) unfolding tmp_read_def Let_def w by (simp add: deref_def)
  have "take m (drop q ?F) = take m (drop q bs)"
  proof -
    have "drop q bs = take (length bs - q) (drop q ?F)" by (subst nd(5) [symmetric]) (rule drop_take)
    then show ?thesis using stop by simp
  qed
  moreover have "take m (drop q bs) = take n (drop q bs)" by (simp add: m_def min_def)
  ultimately have "take m ?out = take n (drop q bs)" using ends(3) by (cases "m = 0") (simp_all add: min_absorb1)
  moreover have "length ?out = (if m = 0 then 0 else ?stp - q)" using ends stop by simp
  ultimately show ?thesis using r unfolding m_def by blast
qed

section \<open>Properties\<close>

text \<open>A sequence of writes through one open file, each with the memory behind the written bytes.\<close>

fun tmp_writes :: "(byte list \<times> nat) list \<Rightarrow> kfile \<Rightarrow> 'a tmpvfs_scheme \<Rightarrow> kerr + (kfile \<times> 'a tmpvfs_scheme)" where
  "tmp_writes [] f v = Inr (f, v)"
| "tmp_writes ((buf, n) # ws) f v = kbind (tmp_write f buf n v) (\<lambda>(_, f, v). tmp_writes ws f v)"

definition written :: "(byte list \<times> nat) list \<Rightarrow> byte list" where
  "written ws = concat (map (\<lambda>(buf, n). take n buf) ws)"

lemma tmp_writes_ok:
  assumes "tmp_file v i bs" "junk_ok v" "open_at f i (length bs) (length bs)"
    "\<forall>(buf, n) \<in> set ws. n + PAGE_SIZE \<le> length buf" "length bs + length (written ws) < 2 ^ 31"
  shows "\<exists>f' v'. tmp_writes ws f v = Inr (f', v') \<and> tmp_file v' i (bs @ written ws)"
  using assms
proof (induction ws arbitrary: bs f v)
  case (Cons w ws)
  obtain buf n where w: "w = (buf, n)" by force
  have n: "n + PAGE_SIZE \<le> length buf" "length (bs @ take n buf) = length bs + n" using Cons.prems(4) w by auto
  have tot: "length bs + n + length (written ws) < 2 ^ 31" using Cons.prems(5) n w by (simp add: written_def)
  from tmp_write_append [OF Cons.prems(1-3) n(1)] tot obtain f1 v1 where
    s: "tmp_write f buf n v = Inr (int n, f1, v1)" "tmp_file v1 i (bs @ take n buf)" "junk_ok v1"
      "open_at f1 i (length bs + n) (length bs + n)" by auto
  from Cons.IH [OF s(2,3), of f1] s(4) n(2) Cons.prems(4) tot w obtain f' v' where
    "tmp_writes ws f1 v1 = Inr (f', v')" "tmp_file v' i ((bs @ take n buf) @ written ws)" by auto
  with s(1) w show ?case by (simp add: written_def)
qed (simp add: written_def)


definition demo_tmp :: tmpvfs where
  "demo_tmp = \<lparr>devices = Map.empty, mount_root = MTree [] True 0 (Some []),
     insts = [0 \<mapsto> \<lparr>inst_file = None, inst_iops = Tmpfs, inst_private = Some 1\<rparr>], next_mnt = 1, initrd = [],
     tnodes = [1 \<mapsto> \<lparr>tn_inode = null_inode\<lparr>inode_id := 1, ifs := Some 0\<rparr>, tn_contents = Children new_dir\<rparr>,
       2 \<mapsto> \<lparr>tn_inode = null_inode\<lparr>iftype := FT_REGULAR, inode_id := 2, ifs := Some 0\<rparr>, tn_contents = Pages list_init\<rparr>],
     next_node = 3, tpages = Map.empty, next_page = 0, page_junk = (\<lambda>_. replicate PAGE_SIZE 7)\<rparr>"

lemma demo_tmp_ok: "tmp_file demo_tmp 2 []" "junk_ok demo_tmp"
proof -
  have "CEIL 0 PAGE_SIZE = 0" by (simp add: CEIL_def PAGE_SIZE_def)
  then show "tmp_file demo_tmp 2 []"
    by (auto simp: tmp_file_def demo_tmp_def pages_ok_def klist_init null_inode_def page_bytes_def)
  show "junk_ok demo_tmp" by (simp add: junk_ok_def demo_tmp_def)
qed

definition demo_file :: "nat \<Rightarrow> nat \<Rightarrow> kfile" where
  "demo_file len q = null_file\<lparr>finode := null_inode\<lparr>iftype := FT_REGULAR, inode_id := 2\<rparr>, fsize := int len, foffset := int q\<rparr>"

lemma demo_file_open: "open_at (demo_file len q) 2 len q"
  by (simp add: open_at_def demo_file_def)


text \<open>
  Claim C28. A read does not stop at the end of the caller's buffer: \<open>tmp_read\<close> of \<open>n > 0\<close> bytes
  stores everything up to the end of the page that holds the last byte, so reading \<open>n\<close> bytes at
  the start of a file of at least \<open>n\<close> bytes overruns the buffer unless \<open>n\<close> is a multiple of the
  page size.
\<close>

theorem tmp_read_overruns:
  assumes "tmp_file v i bs" "open_at f i (length bs) 0" "0 < n" "n \<le> length bs" "n < 2 ^ 31" "n mod PAGE_SIZE \<noteq> 0"
  shows "\<exists>out. tmp_read f n v = Inr (int n, out, f\<lparr>foffset := int n\<rparr>, v) \<and> n < length out"
proof -
  from tmp_read_slice [OF assms(1,2) _ assms(5)] obtain out where
    r: "tmp_read f n v = Inr (int n, out, f\<lparr>foffset := int n\<rparr>, v)" "length out = PAGE_SIZE * CEIL n PAGE_SIZE"
    using assms(3,4) by (auto simp: min_absorb1)
  have "n \<noteq> PAGE_SIZE * CEIL n PAGE_SIZE" using assms(6) by (metis mod_mult_self1_is_0)
  with r ceil_bounds(3) [of n] show ?thesis by auto
qed

definition hi_tmp :: tmpvfs where
  "hi_tmp = demo_tmp\<lparr>tnodes := [2 \<mapsto> \<lparr>tn_inode = null_inode\<lparr>iftype := FT_REGULAR, inode_id := 2, isize := 2\<rparr>,
       tn_contents = Pages \<lparr>lsize = 1, lcap = 32, ldata = Some 0 # replicate 31 None\<rparr>\<rparr>],
     tpages := [0 \<mapsto> [104, 105] @ replicate 4094 7], next_page := 1\<rparr>"

lemma hi_tmp_ok: "tmp_file hi_tmp 2 [104, 105]"
proof -
  have "CEIL 2 PAGE_SIZE = 1" by (simp add: CEIL_def PAGE_SIZE_def)
  moreover have "pages_ok hi_tmp \<lparr>lsize = 1, lcap = 32, ldata = Some 0 # replicate 31 None\<rparr> [0]"
    by (simp add: pages_ok_def hi_tmp_def klist_ok_def items_def PAGE_SIZE_def)
  ultimately show ?thesis
    unfolding tmp_file_def
    by (intro exI [of _ "the (tnodes hi_tmp 2)"] exI [of _ "\<lparr>lsize = 1, lcap = 32, ldata = Some 0 # replicate 31 None\<rparr>"] exI [of _ "[0]"])
      (simp add: hi_tmp_def page_bytes_def numeral_2_eq_2)
qed

theorem tmp_read_overruns_witness:
  "\<exists>out. tmp_read (demo_file 2 0) 1 hi_tmp = Inr (1, out, (demo_file 2 0)\<lparr>foffset := 1\<rparr>, hi_tmp) \<and> 1 < length out"
proof -
  have "open_at (demo_file 2 0) 2 (length [104 :: byte, 105]) 0" by (simp add: open_at_def demo_file_def)
  from tmp_read_overruns [OF hi_tmp_ok this, of 1] show ?thesis by (simp add: PAGE_SIZE_def)
qed

section \<open>Directories\<close>

definition tmp_dir :: "'a tmpvfs_scheme \<Rightarrow> nat \<Rightarrow> (byte list \<rightharpoonup> nat) \<Rightarrow> bool" where
  "tmp_dir v d m \<longleftrightarrow> (\<exists>nd h. tnodes v d = Some nd \<and> tn_contents nd = Children h \<and> strmap h m \<and> entries h < 2 ^ 28) \<and>
     d < next_node v \<and> (\<forall>n \<in> ran m. n < next_node v \<and> tnodes v n \<noteq> None)"

lemma tmp_lookup_eq:
  assumes "tnodes v d = Some nd" "tn_contents nd = Children h" "strmap h m" "\<forall>k n. m k = Some n \<longrightarrow> tnodes v n \<noteq> None"
    "terminated name" "iftype dir = FT_DIR" "inode_id dir = d"
  shows "tmp_lookup dir name out v = Inr (case m (cstr name) of None \<Rightarrow> (err ENOENT, out, v)
    | Some n \<Rightarrow> (0, tn_inode (the (tnodes v n)), v))"
proof (cases "m (cstr name)")
  case None
  with assms strmap_get [OF assms(3,5), of 0] show ?thesis by (simp add: tmp_lookup_def deref_def)
next
  case (Some n)
  with assms(4) obtain y where "tnodes v n = Some y" by blast
  with Some assms(1,2,6,7) strmap_get [OF assms(3,5), of 0] show ?thesis by (simp add: tmp_lookup_def deref_def)
qed

lemma tmp_add_dir:
  assumes "tmp_dir v d m" "terminated name" "iftype dir = FT_DIR" "inode_id dir = d"
  shows "\<exists>v'. tmp_add mk dir name v = Inr (if m (cstr name) = None then 0 else err EEXIST, v') \<and>
    tnodes v' (next_node v) = Some (mk (next_node v) (ifs (tn_inode (the (tnodes v d))))) \<and>
    (\<forall>n < next_node v. n \<noteq> d \<longrightarrow> tnodes v' n = tnodes v n) \<and>
    (\<exists>nd h. tnodes v' d = Some nd \<and> tn_contents nd = Children h \<and>
       strmap h (if m (cstr name) = None then m(cstr name \<mapsto> next_node v) else m))"
proof -
  from assms(1) obtain nd h where h: "tnodes v d = Some nd" "tn_contents nd = Children h" "strmap h m"
    "entries h < 2 ^ 28" "d < next_node v" by (auto simp: tmp_dir_def)
  have get: "hashmap_get 0 h name = Some (m (cstr name))" by (rule strmap_get [OF h(3) assms(2)])
  have "terminated (cstr name @ [0])" "cstr (cstr name @ [0]) = cstr name" by simp_all
  from strmap_insert [OF h(3) this(1) h(4), of "next_node v"] this(2) obtain h' where
    ins: "hashmap_insert h (cstr name @ [0]) (next_node v) = Some h'" "strmap h' (m(cstr name \<mapsto> next_node v))" by auto
  show ?thesis using h get ins assms(3,4) by (auto simp: tmp_add_def deref_def Let_def)
qed



text \<open>
  Listing a directory does not end cleanly: returning the last entry, \<open>tmp_getdent\<close>
  already looks for the next one and runs past the end of the table.
\<close>

theorem tmp_getdent_overruns:
  assumes "tnodes v (inode_id (finode f)) = Some nd" "tn_contents nd = Children h" "iftype (finode f) = FT_DIR"
    "hashmap_begin h = Some (Some b)" "b + nat (foffset f) < hashmap_end h" "length (data h) = buckets h"
    "data h ! (b + nat (foffset f)) = Entry e" "tnodes v (hvalue e) = Some child" "terminated (hkey e)"
    "length (d_name d) = FILE_NAME_LEN"
    "\<forall>j. b + nat (foffset f) < j \<and> j < length (data h) \<longrightarrow> data h ! j = Empty"
  shows "tmp_getdent f d v = Inl BadAccess"
proof -
  let ?e = "b + nat (foffset f)"
  have past: "real_entry_from bs i = None" if "\<forall>j. i \<le> j \<and> j < length bs \<longrightarrow> bs ! j = Empty"
    for bs :: "nat hashmap_entry bucket list" and i
    using that
  proof (induction bs i rule: real_entry_from.induct)
    case (1 bs i)
    then show ?case by (subst real_entry_from.simps) auto
  qed
  have "hashmap_next h ?e = None"
    using past [of "Suc ?e" "data h"] assms(11) by (auto simp: hashmap_next_def real_entry_def)
  moreover have "strncpy (d_name d) 0 (hkey e) FILE_NAME_LEN = Inr (take FILE_NAME_LEN (cstr (hkey e) @ replicate FILE_NAME_LEN 0))"
    using strncpy_eq [of "hkey e" FILE_NAME_LEN 0 "d_name d"] assms(9,10) by simp
  ultimately show ?thesis using assms(1-5,7,8) by (simp add: tmp_getdent_def deref_def)
qed

definition one_dir :: "nat hashmap_entry hashmap" where
  "one_dir = new_dir\<lparr>data := [Entry \<lparr>hkey = lit ''a'', hvalue = 2\<rparr>], buckets := 1, entries := 1\<rparr>"

theorem tmp_getdent_overruns_witness:
  "tmp_getdent (null_file\<lparr>finode := null_inode\<lparr>inode_id := 1\<rparr>\<rparr>)
     \<lparr>d_inode_id = 0, d_present = False, d_type = FT_DIR, d_name = replicate FILE_NAME_LEN 0\<rparr>
     (demo_tmp\<lparr>tnodes := (tnodes demo_tmp)(1 \<mapsto> \<lparr>tn_inode = null_inode, tn_contents = Children one_dir\<rparr>)\<rparr>) = Inl BadAccess"
  by (rule tmp_getdent_overruns [where nd = "\<lparr>tn_inode = null_inode, tn_contents = Children one_dir\<rparr>" and h = one_dir and
        b = 0 and e = "\<lparr>hkey = lit ''a'', hvalue = 2\<rparr>" and child = "the (tnodes demo_tmp 2)"])
    (auto simp: one_dir_def new_dir_def hashmap_init_def hashmap_begin_def real_entry_def real_entry_from.simps
      hashmap_end_def null_file_def null_inode_def demo_tmp_def)

end
