(* ===== verification/Syscall.thy ===== *)
theory Syscall
  imports Pipe Vfs
begin

unbundle bit_operations_syntax

text \<open>
  The system calls of \<open>kernel/syscall.c\<close>. They act on the kernel state of the processes and on the
  state \<open>'w\<close> of the file systems and drivers, which they reach through the tables of operations \<open>fo\<close>
  and \<open>io\<close>. A call of a driver is one step: what other processes do while a terminal or a pipe
  blocks is the subject of the theories of those drivers. \<open>i0\<close> is what a \<open>struct inode\<close> on the
  stack holds before it is written.
\<close>

section \<open>The source: descriptors\<close>

definition cur_pcb :: "ksys \<Rightarrow> kerr + nat" where
  "cur_pcb s = deref (get_pcb s (get_pid s))"

definition bad_fd :: "ksys \<Rightarrow> nat \<Rightarrow> int \<Rightarrow> bool" where
  "bad_fd s p fd \<longleftrightarrow> fd \<ge> int MAX_FDS \<or> fd < 0 \<or> sfile (fds (ptable s ! p) ! nat fd) = None"

text \<open>The file of a descriptor and the table of its operations, \<open>f->fops\<close>.\<close>

definition fd_file :: "ksys \<Rightarrow> nat \<Rightarrow> int \<Rightarrow> kerr + (nat \<times> kfile)" where
  "fd_file s p fd =
     kbind (deref (sfile (fds (ptable s ! p) ! nat fd))) (\<lambda>f.
     kbind (deref (files s f)) (\<lambda>fl. Inr (f, fl)))"

definition put_file :: "nat \<Rightarrow> kfile \<Rightarrow> ksys \<Rightarrow> ksys" where
  "put_file f fl s = s\<lparr>files := (files s)(f \<mapsto> fl)\<rparr>"

definition close_op :: "(fops \<Rightarrow> 'w file_ops) \<Rightarrow> fops \<Rightarrow> kfile \<Rightarrow> 'w \<Rightarrow> kerr + 'w" where
  "close_op fo op fl w =
     (case op_close (fo op) of None \<Rightarrow> Inr w | Some close \<Rightarrow> kbind (close fl w) (\<lambda>(_, _, w'). Inr w'))"

definition sys_read :: "(fops \<Rightarrow> 'w file_ops) \<Rightarrow> int \<Rightarrow> nat \<Rightarrow> ksys \<times> 'w \<Rightarrow> kerr + (int \<times> byte list \<times> ksys \<times> 'w)" where
  "sys_read fo fd cnt sw =
     (let (s, w) = sw in
      kbind (cur_pcb s) (\<lambda>p.
      if bad_fd s p fd then Inr (err EBADF, [], s, w)
      else
        kbind (fd_file s p fd) (\<lambda>(f, fl).
        kbind (deref (ffops fl)) (\<lambda>op.
        case op_read (fo op) of
          None \<Rightarrow> Inr (err EPERM, [], s, w)
        | Some rd_op \<Rightarrow> kbind (rd_op fl cnt w) (\<lambda>(ret, bs, fl', w').
            Inr (ret, bs, put_file f fl' s, w'))))))"

definition sys_write :: "(fops \<Rightarrow> 'w file_ops) \<Rightarrow> int \<Rightarrow> byte list \<Rightarrow> nat \<Rightarrow> ksys \<times> 'w \<Rightarrow> kerr + (int \<times> ksys \<times> 'w)" where
  "sys_write fo fd buf cnt sw =
     (let (s, w) = sw in
      kbind (cur_pcb s) (\<lambda>p.
      if bad_fd s p fd then Inr (err EBADF, s, w)
      else
        kbind (fd_file s p fd) (\<lambda>(f, fl).
        kbind (deref (ffops fl)) (\<lambda>op.
        case op_write (fo op) of
          None \<Rightarrow> Inr (err EPERM, s, w)
        | Some wr_op \<Rightarrow> kbind (wr_op fl buf cnt w) (\<lambda>(ret, fl', w').
            Inr (ret, put_file f fl' s, w'))))))"

definition sys_close :: "(fops \<Rightarrow> 'w file_ops) \<Rightarrow> int \<Rightarrow> ksys \<times> 'w \<Rightarrow> kerr + (int \<times> ksys \<times> 'w)" where
  "sys_close fo fd sw =
     (let (s, w) = sw in
      kbind (cur_pcb s) (\<lambda>p.
      if bad_fd s p fd then Inr (err EBADF, s, w)
      else kbind (release_fd (close_op fo) p (nat fd) (s, w)) (\<lambda>(s', w'). Inr (0, s', w'))))"

definition sys_dup2 :: "(fops \<Rightarrow> 'w file_ops) \<Rightarrow> int \<Rightarrow> int \<Rightarrow> ksys \<times> 'w \<Rightarrow> kerr + (int \<times> ksys \<times> 'w)" where
  "sys_dup2 fo fd fd2 sw =
     (let (s, w) = sw in
      kbind (cur_pcb s) (\<lambda>p.
      if bad_fd s p fd then Inr (err EBADF, s, w)
      else if fd2 \<ge> int MAX_FDS \<or> fd2 < 0 then Inr (err EBADF, s, w)
      else if fd = fd2 then Inr (fd, s, w)
      else
        kbind (if sfile (fds (ptable s ! p) ! nat fd2) \<noteq> None
               then kbind (sys_close fo fd2 (s, w)) (\<lambda>(_, s', w'). Inr (s', w')) else Inr (s, w)) (\<lambda>(s, w).
        kbind (dup_fd p (nat fd) s) (\<lambda>s.
        Inr (fd2, upd_pcb p (\<lambda>pcb. pcb\<lparr>fds := (fds pcb)[nat fd2 :=
               (fds pcb ! nat fd2)\<lparr>sfile := sfile (fds pcb ! nat fd)\<rparr>]\<rparr>) s, w)))))"

definition sys_getdent :: "(fops \<Rightarrow> 'w file_ops) \<Rightarrow> int \<Rightarrow> petix_dirent \<Rightarrow> ksys \<times> 'w \<Rightarrow>
    kerr + (int \<times> petix_dirent \<times> ksys \<times> 'w)" where
  "sys_getdent fo fd dent sw =
     (let (s, w) = sw in
      kbind (cur_pcb s) (\<lambda>p.
      if bad_fd s p fd then Inr (err EBADF, dent, s, w)
      else
        kbind (fd_file s p fd) (\<lambda>(f, fl).
        if iftype (finode fl) \<noteq> FT_DIR then Inr (err ENOTDIR, dent, s, w)
        else
          kbind (deref (ffops fl)) (\<lambda>op.
          case op_getdent (fo op) of
            None \<Rightarrow> Inr (err EPERM, dent, s, w)
          | Some g \<Rightarrow> kbind (g fl dent w) (\<lambda>(ret, dent', fl', w'). Inr (ret, dent', put_file f fl' s, w'))))))"

definition sys_ioctl :: "(fops \<Rightarrow> 'w file_ops) \<Rightarrow> int \<Rightarrow> ioctl_req \<Rightarrow> ioctl_arg \<Rightarrow> ksys \<times> 'w \<Rightarrow>
    kerr + (int \<times> ioctl_arg \<times> ksys \<times> 'w)" where
  "sys_ioctl fo fd req arg sw =
     (let (s, w) = sw in
      kbind (cur_pcb s) (\<lambda>p.
      if bad_fd s p fd then Inr (err EBADF, arg, s, w)
      else
        kbind (fd_file s p fd) (\<lambda>(f, fl).
        kbind (deref (ffops fl)) (\<lambda>op.
        case op_ioctl (fo op) of
          None \<Rightarrow> Inr (err ENOTTY, arg, s, w)
        | Some g \<Rightarrow> kbind (g fl req arg w) (\<lambda>(ret, arg', w'). Inr (ret, arg', s, w'))))))"

text \<open>\<open>sys_mmap\<close>: \<open>Inl\<close> is \<open>MAP_FAILED\<close> with the value stored at \<open>errno\<close>.\<close>

definition sys_mmap :: "(fops \<Rightarrow> 'w file_ops) \<Rightarrow> u32 \<Rightarrow> u32 \<Rightarrow> u32 \<Rightarrow> u32 \<Rightarrow> int \<Rightarrow> int \<Rightarrow> ksys \<times> 'w \<Rightarrow>
    kerr + ((errno + u32) \<times> ksys \<times> 'w)" where
  "sys_mmap fo addr len prot flags fd off sw =
     (let (s, w) = sw in
      if len = 0 then Inr (Inl EINVAL, s, w)
      else if addr AND 0xfff \<noteq> 0 then Inr (Inl EINVAL, s, w)
      else
        kbind (cur_pcb s) (\<lambda>p.
        if bad_fd s p fd then Inr (Inl EBADF, s, w)
        else
          kbind (fd_file s p fd) (\<lambda>(f, fl).
          kbind (deref (ffops fl)) (\<lambda>op.
          case op_mmap (fo op) of
            None \<Rightarrow> Inr (Inl ENODEV, s, w)
          | Some m \<Rightarrow> kbind (m fl addr len prot flags off w) (\<lambda>(r, w'). Inr (r, s, w'))))))"

section \<open>The source: paths\<close>

text \<open>The loop of \<open>split_dir_path\<close>: the offset behind the last slash so far, if any.\<close>

fun last_slash :: "byte list \<Rightarrow> nat \<Rightarrow> nat option \<Rightarrow> kerr + nat option" where
  "last_slash [] i r = Inl BadAccess"
| "last_slash (c # p) i r =
     (if c \<noteq> 0 then last_slash p (Suc i) (if c = 47 then Some (Suc i) else r) else Inr r)"

text \<open>
  The test \<open>if (empty_string)\<close> is true of every non-null pointer, so a byte before the name is
  always cleared: without a slash, the byte in front of the buffer.
\<close>

definition split_dir_path :: "byte list \<Rightarrow> kerr + (byte list \<times> byte list)" where
  "split_dir_path path =
     kbind (last_slash path 0 None) (\<lambda>r.
     case r of
       None \<Rightarrow> Inl BadAccess
     | Some n \<Rightarrow> kbind (wr path (n - 1) 0) (\<lambda>path'. Inr (path', drop n path')))"

definition sys_creat_with :: "('a vfs_scheme inode_ops \<Rightarrow> (inode \<Rightarrow> byte list \<Rightarrow> 'a vfs_scheme \<Rightarrow> kerr + (int \<times> 'a vfs_scheme)) option) \<Rightarrow>
    (fstype \<Rightarrow> 'a vfs_scheme inode_ops) \<Rightarrow> inode \<Rightarrow> byte list \<Rightarrow> 'a vfs_scheme \<Rightarrow> kerr + (int \<times> 'a vfs_scheme)" where
  "sys_creat_with sel io i0 path w =
     kbind (split_dir_path (cstr path @ [0])) (\<lambda>(dir, name).
     kbind (fs_lookup io dir i0 w) (\<lambda>(rc, i, w).
     if rc < 0 then Inr (rc, w)
     else if iftype i \<noteq> FT_DIR then Inr (err ENOTDIR, w)
     else kbind (get_inst (ifs i) w) (\<lambda>inst.
          case sel (io (inst_iops inst)) of
            None \<Rightarrow> Inr (err EPERM, w)
          | Some op \<Rightarrow> op i name w)))"

definition sys_creat :: "(fstype \<Rightarrow> 'a vfs_scheme inode_ops) \<Rightarrow> inode \<Rightarrow> byte list \<Rightarrow> 'a vfs_scheme \<Rightarrow> kerr + (int \<times> 'a vfs_scheme)" where
  "sys_creat = sys_creat_with op_creat"

definition sys_mkdir :: "(fstype \<Rightarrow> 'a vfs_scheme inode_ops) \<Rightarrow> inode \<Rightarrow> byte list \<Rightarrow> 'a vfs_scheme \<Rightarrow> kerr + (int \<times> 'a vfs_scheme)" where
  "sys_mkdir = sys_creat_with op_mkdir"

text \<open>The lookup of \<open>sys_open\<close>, which creates a missing file when \<open>O_CREAT\<close> is set.\<close>

definition open_lookup :: "(fstype \<Rightarrow> 'a vfs_scheme inode_ops) \<Rightarrow> inode \<Rightarrow> byte list \<Rightarrow> u32 \<Rightarrow> 'a vfs_scheme \<Rightarrow>
    kerr + (int \<times> inode \<times> 'a vfs_scheme)" where
  "open_lookup io i0 path flags w =
     kbind (fs_lookup io path i0 w) (\<lambda>(e, i, w).
     if e < 0
     then if e = err ENOENT \<and> flags AND O_CREAT \<noteq> 0
          then kbind (sys_creat io i0 path w) (\<lambda>(e, w).
               if e < 0 then Inr (e, i, w) else fs_lookup io path i w)
          else Inr (e, i, w)
     else Inr (e, i, w))"

definition sys_open :: "(fops \<Rightarrow> 'a vfs_scheme file_ops) \<Rightarrow> (fstype \<Rightarrow> 'a vfs_scheme inode_ops) \<Rightarrow> inode \<Rightarrow> byte list \<Rightarrow> u32 \<Rightarrow>
    ksys \<times> 'a vfs_scheme \<Rightarrow> kerr + (int \<times> ksys \<times> 'a vfs_scheme)" where
  "sys_open fo io i0 path flags sw =
     (let (s, w) = sw in
      kbind (cur_pcb s) (\<lambda>p.
      kbind (open_lookup io i0 path flags w) (\<lambda>(e, i, w).
      if e < 0 then Inr (e, s, w)
      else
        let (fd, s) = alloc_fd p s in
        if fd < 0 then Inr (fd, s, w)
        else
          let s = (if flags AND O_CLOEXEC \<noteq> 0
                   then upd_pcb p (\<lambda>pcb. pcb\<lparr>fds := (fds pcb)[nat fd := (fds pcb ! nat fd)\<lparr>cloexec := True\<rparr>]\<rparr>) s else s) in
          kbind (fd_file s p fd) (\<lambda>(f, fl).
          kbind (fs_open fo io i fl flags w) (\<lambda>(e, fl', w).
          let s = put_file f fl' s in
          if e < 0 then kbind (release_fd (close_op fo) p (nat fd) (s, w)) (\<lambda>(s, w). Inr (e, s, w))
          else Inr (fd, s, w))))))"

text \<open>
  \<open>sys_pipe\<close>: \<open>place\<close> is where \<open>kmalloc\<close> puts the pipe, \<open>put\<close> stores it there. The second result are the
  two descriptors stored at \<open>filedes\<close>.
\<close>

definition sys_pipe :: "('w \<Rightarrow> u32) \<Rightarrow> (u32 \<Rightarrow> pipe \<Rightarrow> 'w \<Rightarrow> 'w) \<Rightarrow> u32 \<Rightarrow> ksys \<times> 'w \<Rightarrow>
    kerr + (int \<times> (int \<times> int) option \<times> ksys \<times> 'w)" where
  "sys_pipe place put flags sw =
     (let (s, w) = sw in
      kbind (cur_pcb s) (\<lambda>p.
      let (fd1, s) = alloc_fd p s in
      if fd1 < 0 then Inr (fd1, None, s, w)
      else
        let (fd2, s) = alloc_fd p s in
        if fd2 < 0 then Inr (fd2, None, s, w)
        else
          kbind (fd_file s p fd1) (\<lambda>(f1, fl1).
          kbind (fd_file s p fd2) (\<lambda>(f2, fl2).
          let (pi, fl1, fl2) = open_pipe (place w) fl1 fl2;
              w = put (place w) pi w;
              s = put_file f2 fl2 (put_file f1 fl1 s);
              s = (if flags AND O_CLOEXEC \<noteq> 0
                   then upd_pcb p (\<lambda>pcb. pcb\<lparr>fds := (fds pcb)[nat fd1 := (fds pcb ! nat fd1)\<lparr>cloexec := True\<rparr>,
                          nat fd2 := (fds pcb ! nat fd2)\<lparr>cloexec := True\<rparr>]\<rparr>) s else s)
          in Inr (0, Some (fd1, fd2), s, w)))))"

section \<open>The source: processes\<close>

text \<open>
  \<open>sys_waitpid\<close>. A caller with a child that has not terminated blocks and gives up the processor;
  \<open>waitpid_reap\<close> is the rest of the function, which it runs once the child has set its
  \<open>wait_pid\<close> and made it ready. The results are the pid and the exit status.
\<close>

definition waitpid_reap :: "nat \<Rightarrow> ksys \<Rightarrow> kerr + (int \<times> byte \<times> ksys)" where
  "waitpid_reap p s =
     (let s = acquire_global s; pd = wait_pid (ptable s ! p) in
      kbind (deref (get_pcb s pd)) (\<lambda>c.
      let status = return_code (ptable s ! c);
          s = upd_pcb p (\<lambda>q. q\<lparr>wait_pid := NOT_WAITING\<rparr>) s
      in kbind (release_proc c s) (\<lambda>s.
         kbind (release_global s) (\<lambda>s. Inr (sint pd, status, s)))))"

datatype waited = Reaped int byte ksys | No_child int ksys | Sleeps ksys

definition sys_waitpid :: "u32 \<Rightarrow> ksys \<Rightarrow> kerr + waited" where
  "sys_waitpid pd s =
     kbind (cur_pcb s) (\<lambda>p.
     kbind (proc_get_terminated_child p pd s) (\<lambda>(ret, s).
     if ret = - 1
     then kbind (release_global (upd_pcb p (\<lambda>q. q\<lparr>rs := RS_BLOCKED, wait_pid := pd\<rparr>) (acquire_global s))) (\<lambda>s. Inr (Sleeps s))
     else if ret = 0 then kbind (waitpid_reap p s) (\<lambda>(r, st, s). Inr (Reaped r st s))
     else Inr (No_child ret s)))"

text \<open>The loop of \<open>sys_fork\<close> over the copied descriptors.\<close>

fun fork_dups :: "nat \<Rightarrow> nat list \<Rightarrow> ksys \<Rightarrow> kerr + ksys" where
  "fork_dups p [] s = Inr s"
| "fork_dups p (i # is) s =
     kbind (if sfile (fds (ptable s ! p) ! i) \<noteq> None then dup_fd p i s else Inr s) (fork_dups p is)"

text \<open>
  \<open>sys_fork\<close> up to \<open>fork_switchable\<close>, which copies the stack and the address space and returns in
  both processes, and the rest, which each of them runs.
\<close>

definition sys_fork :: "ksys \<Rightarrow> kerr + (int \<times> ksys + nat \<times> ksys)" where
  "sys_fork s =
     kbind (cur_pcb s) (\<lambda>old.
     kbind (alloc_proc s) (\<lambda>(new, s).
     case new of
       None \<Rightarrow> Inr (Inl (err EAGAIN, s))
     | Some n \<Rightarrow>
         let s = acquire_global s;
             s = upd_pcb n (\<lambda>q. q\<lparr>ppid := pid (ptable s ! old), rs := RS_READY, fds := fds (ptable s ! old)\<rparr>) s
         in kbind (fork_dups n [0..<MAX_FDS] s) (\<lambda>s. Inr (Inr (n, s)))))"

definition fork_return :: "nat \<Rightarrow> ksys \<Rightarrow> kerr + (int \<times> ksys)" where
  "fork_return n s =
     kbind (release_global s) (\<lambda>s'.
     Inr (if get_pid s = pid (ptable s ! n) then 0 else sint (pid (ptable s ! n)), s'))"

text \<open>Releasing all descriptors that satisfy a test, as \<open>sys_exit\<close> and \<open>sys_exec\<close> do.\<close>

fun release_fds :: "(fops \<Rightarrow> 'w file_ops) \<Rightarrow> (fd_slot \<Rightarrow> bool) \<Rightarrow> nat \<Rightarrow> nat list \<Rightarrow> ksys \<times> 'w \<Rightarrow> kerr + (ksys \<times> 'w)" where
  "release_fds fo P p [] sw = Inr sw"
| "release_fds fo P p (i # is) sw =
     kbind (let d = fds (ptable (fst sw) ! p) ! i in
            if sfile d \<noteq> None \<and> P d then release_fd (close_op fo) p i sw else Inr sw) (release_fds fo P p is)"

definition no_fds :: "fd_slot list" where
  "no_fds = replicate MAX_FDS \<lparr>sfile = None, cloexec = False\<rparr>"

text \<open>\<open>sys_exit\<close> up to the call of \<open>sched\<close>, which does not return.\<close>

definition sys_exit :: "(fops \<Rightarrow> 'w file_ops) \<Rightarrow> byte \<Rightarrow> ksys \<times> 'w \<Rightarrow> kerr + (ksys \<times> 'w)" where
  "sys_exit fo code sw =
     (let (s, w) = sw; s = acquire_global s in
      kbind (cur_pcb s) (\<lambda>p.
      let s = upd_pcb p (\<lambda>q. q\<lparr>return_code := code\<rparr>) s; me = ptable s ! p in
      kbind (if sint (ppid me) > 0
             then kbind (deref (get_pcb s (ppid me))) (\<lambda>pp.
                  let par = ptable s ! pp in
                  Inr (if rs par = RS_BLOCKED \<and> (wait_pid par = pid me \<or> wait_pid par = - 1)
                       then upd_pcb pp (\<lambda>q. q\<lparr>wait_pid := pid me, rs := RS_READY\<rparr>) s else s))
             else Inr s) (\<lambda>s.
      kbind (release_fds fo (\<lambda>_. True) p [0..<MAX_FDS] (s, w)) (\<lambda>(s, w).
      let s = upd_pcb p (\<lambda>q. q\<lparr>rs := RS_TERMINATED, fds := no_fds\<rparr>) s in
      kbind (release_global s) (\<lambda>s. Inr (s, w))))))"

section \<open>Reference counts\<close>

definition cnt :: "nat \<Rightarrow> fd_slot list \<Rightarrow> nat" where
  "cnt f ds = sum_list (map (\<lambda>d. if sfile d = Some f then 1 else 0) ds)"

definition refs :: "ksys \<Rightarrow> nat \<Rightarrow> nat" where
  "refs s f = sum_list (map (\<lambda>q. cnt f (fds q)) (ptable s))"

text \<open>
  Every open file is counted: its \<open>refcnt\<close> is the number of descriptors of all processes that refer to
  it, which is not zero, and no descriptor refers to a freed file. A slot that is free or whose process
  has terminated has no descriptors.
\<close>

definition dead :: "ready_state \<Rightarrow> bool" where
  "dead r \<longleftrightarrow> r = RS_NOPROC \<or> r = RS_TERMINATED"

definition fd_inv :: "ksys \<Rightarrow> bool" where
  "fd_inv s \<longleftrightarrow> proc_ok s \<and> (\<forall>f. files s f = None \<longrightarrow> refs s f = 0) \<and>
     (\<forall>f fl. files s f = Some fl \<longrightarrow> refcnt fl = int (refs s f) \<and> 0 < refs s f \<and> f < next_file s) \<and>
     (\<forall>p < PTABLE_SIZE. dead (rs (ptable s ! p)) \<longrightarrow> (\<forall>d \<in> set (fds (ptable s ! p)). sfile d = None))"

lemma sum_list_set:
  fixes xs :: "nat list"
  assumes "k < length xs"
  shows "sum_list (xs[k := x]) + xs ! k = sum_list xs + x"
  using sum_list_update [OF assms, of x] elem_le_sum_list [OF assms] by simp

lemma cnt_set:
  assumes "i < length ds"
  shows "cnt f (ds[i := d]) + (if sfile (ds ! i) = Some f then 1 else 0) = cnt f ds + (if sfile d = Some f then 1 else 0)"
  using sum_list_set [of i "map (\<lambda>d. if sfile d = Some f then 1 else 0) ds" "if sfile d = Some f then 1 else 0"] assms
  by (simp add: cnt_def map_update)

lemma refs_upd:
  assumes "p < length (ptable s)"
  shows "refs (upd_pcb p g s) f + cnt f (fds (ptable s ! p)) = refs s f + cnt f (fds (g (ptable s ! p)))"
  using sum_list_set [of p "map (\<lambda>q. cnt f (fds q)) (ptable s)" "cnt f (fds (g (ptable s ! p)))"] assms
  by (simp add: refs_def map_update)

lemma cnt_none: "\<forall>d \<in> set ds. sfile d = None \<Longrightarrow> cnt f ds = 0"
  by (simp add: cnt_def)

lemma cnt_pos: "i < length ds \<Longrightarrow> sfile (ds ! i) = Some f \<Longrightarrow> 0 < cnt f ds"
  using elem_le_sum_list [of i "map (\<lambda>d. if sfile d = Some f then 1 else 0 :: nat) ds"] by (simp add: cnt_def)

lemma cnt_le_refs: "p < length (ptable s) \<Longrightarrow> cnt f (fds (ptable s ! p)) \<le> refs s f"
  using elem_le_sum_list [of p "map (\<lambda>q. cnt f (fds q)) (ptable s)"] by (simp add: refs_def)

lemma fd_invD:
  assumes "fd_inv s"
  shows "length (ptable s) = PTABLE_SIZE" "p < PTABLE_SIZE \<Longrightarrow> length (fds (ptable s ! p)) = MAX_FDS"
    "files s f = None \<Longrightarrow> refs s f = 0" "files s f = Some fl \<Longrightarrow> refcnt fl = int (refs s f) \<and> 0 < refs s f \<and> f < next_file s"
  using assms by (auto simp: fd_inv_def proc_ok_def)

text \<open>A descriptor of a process leads to an open file.\<close>

lemma fd_inv_open:
  assumes "fd_inv s" "p < PTABLE_SIZE" "i < MAX_FDS" "sfile (fds (ptable s ! p) ! i) = Some f"
  shows "\<exists>fl. files s f = Some fl \<and> refcnt fl = int (refs s f) \<and> 0 < refs s f"
proof -
  note d = fd_invD [OF assms(1)]
  have "0 < cnt f (fds (ptable s ! p))" using assms(2-4) d(2) by (intro cnt_pos [of i]) simp_all
  then have "0 < refs s f" using cnt_le_refs [of p s f] d(1) assms(2) by simp
  then show ?thesis using d(3,4) by (cases "files s f") auto
qed

text \<open>The invariant does not depend on the lock, and on the state of a process only as far as it is free.\<close>

lemma refs_frame [simp]:
  "refs (s\<lparr>files := x\<rparr>) f = refs s f" "refs (s\<lparr>next_file := n\<rparr>) f = refs s f" "refs (s\<lparr>interrupts := b\<rparr>) f = refs s f"
  "refs (s\<lparr>acq_depth := a\<rparr>) f = refs s f" "refs (s\<lparr>curpid := c\<rparr>) f = refs s f" "refs (s\<lparr>pt_free := k\<rparr>) f = refs s f"
  "refs (acquire_global s) f = refs s f"
  by (simp_all add: refs_def acquire_global_def)

lemma fd_inv_acquire: "fd_inv s \<Longrightarrow> fd_inv (acquire_global s)"
  by (simp add: fd_inv_def proc_ok_def)

lemma release_globalD:
  "release_global s = Inr s' \<Longrightarrow> s' = s\<lparr>interrupts := (acq_depth s = 1), acq_depth := acq_depth s - 1\<rparr> \<and> 1 \<le> acq_depth s"
  by (auto simp: release_global_def Let_def kres split: if_splits)

lemma fd_inv_release: "release_global s = Inr s' \<Longrightarrow> fd_inv s \<Longrightarrow> fd_inv s'"
  by (drule release_globalD) (auto simp: fd_inv_def proc_ok_def)

lemma fd_inv_upd:
  assumes "fd_inv s" "p < PTABLE_SIZE" "length (fds (g (ptable s ! p))) = MAX_FDS" "pid (g (ptable s ! p)) = pid (ptable s ! p)"
    "\<forall>f. cnt f (fds (g (ptable s ! p))) = cnt f (fds (ptable s ! p))"
    "rs (ptable s ! p) = RS_NOPROC \<Longrightarrow> rs (g (ptable s ! p)) = RS_NOPROC"
    "dead (rs (g (ptable s ! p))) \<Longrightarrow> \<forall>d \<in> set (fds (g (ptable s ! p))). sfile d = None"
  shows "fd_inv (upd_pcb p g s)"
proof -
  have refs: "refs (upd_pcb p g s) f = refs s f" for f
    using refs_upd [of p s g f] fd_invD(1) [OF assms(1)] assms(2,5) by simp
  have "proc_ok (upd_pcb p g s)" using assms(1-4,6) by (auto simp: fd_inv_def proc_ok_def nth_list_update)
  with refs assms(1,2,7) show ?thesis by (auto simp: fd_inv_def proc_ok_def nth_list_update)
qed

lemma fd_inv_upd_same:
  assumes "fd_inv s" "p < PTABLE_SIZE" "fds (g (ptable s ! p)) = fds (ptable s ! p)" "pid (g (ptable s ! p)) = pid (ptable s ! p)"
    "rs (ptable s ! p) = RS_NOPROC \<Longrightarrow> rs (g (ptable s ! p)) = RS_NOPROC"
    "dead (rs (g (ptable s ! p))) \<Longrightarrow> dead (rs (ptable s ! p))"
  shows "fd_inv (upd_pcb p g s)"
  using assms by (intro fd_inv_upd) (auto simp: fd_inv_def proc_ok_def)

definition user_runs :: "ksys \<Rightarrow> bool" where
  "user_runs s \<longleftrightarrow> rs (ptable s ! pid_off (curpid s)) = RS_RUNNING"

lemma get_pcbD: "get_pcb s x = Some q \<Longrightarrow> q < PTABLE_SIZE \<and> q = pid_off x \<and> rs (ptable s ! q) \<noteq> RS_NOPROC \<and> pid (ptable s ! q) = x"
  by (auto simp: get_pcb_def Let_def pid_off_less split: if_splits)

lemma cur_pcbD: "cur_pcb s = Inr p \<Longrightarrow> p < PTABLE_SIZE \<and> p = pid_off (curpid s) \<and> (user_runs s \<longrightarrow> \<not> dead (rs (ptable s ! p)))"
  by (auto simp: cur_pcb_def get_pcb_def get_pid_def Let_def pid_off_less user_runs_def dead_def split: if_splits)

abbreviation set_slot :: "nat \<Rightarrow> nat \<Rightarrow> fd_slot \<Rightarrow> ksys \<Rightarrow> ksys" where
  "set_slot p i d s \<equiv> upd_pcb p (\<lambda>q. q\<lparr>fds := (fds q)[i := d]\<rparr>) s"

lemma slot_set:
  assumes "fd_inv s" "p < PTABLE_SIZE" "i < MAX_FDS"
  shows "refs (set_slot p i d s) f + (if sfile (fds (ptable s ! p) ! i) = Some f then 1 else 0) = refs s f + (if sfile d = Some f then 1 else 0)"
    "proc_ok (set_slot p i d s)"
proof -
  have len: "length (ptable s) = PTABLE_SIZE" "length (fds (ptable s ! p)) = MAX_FDS"
    using fd_invD [OF assms(1)] assms(2) by auto
  show "refs (set_slot p i d s) f + (if sfile (fds (ptable s ! p) ! i) = Some f then 1 else 0) =
      refs s f + (if sfile d = Some f then 1 else 0)"
    using refs_upd [of p s "\<lambda>q. q\<lparr>fds := (fds q)[i := d]\<rparr>" f] cnt_set [of i "fds (ptable s ! p)" f d] len assms(2,3)
    by simp
  show "proc_ok (set_slot p i d s)" using assms(1,2) len by (auto simp: fd_inv_def proc_ok_def nth_list_update)
qed

lemma nproc_slot:
  assumes "fd_inv s" "p < PTABLE_SIZE" "\<not> dead (rs (ptable s ! p)) \<or> sfile d = None" "q < PTABLE_SIZE"
    "dead (rs (ptable (set_slot p i d s) ! q))"
  shows "\<forall>x \<in> set (fds (ptable (set_slot p i d s) ! q)). sfile x = None"
proof (cases "p = q")
  case True
  with assms have "dead (rs (ptable s ! q))" "sfile d = None" "\<forall>x \<in> set (fds (ptable s ! q)). sfile x = None"
    by (auto simp: fd_inv_def proc_ok_def)
  with True assms(1,4) show ?thesis
    by (auto simp: fd_inv_def proc_ok_def dest!: set_update_subset_insert [THEN subsetD])
next
  case False
  with assms show ?thesis by (simp add: fd_inv_def)
qed

lemma alloc_fd_cases:
  assumes "fd_inv s" "p < PTABLE_SIZE" "\<not> dead (rs (ptable s ! p))" "alloc_fd p s = (fd, s')"
  obtains (full) "fd = err EMFILE" "s' = s"
  | (new) i where "fd = int i" "i < MAX_FDS" "fd_inv s'" "sfile (fds (ptable s ! p) ! i) = None"
      "fds (ptable s' ! p) = (fds (ptable s ! p))[i := \<lparr>sfile = Some (next_file s), cloexec = False\<rparr>]"
      "files s' = (files s)(next_file s \<mapsto> null_file\<lparr>refcnt := 1\<rparr>)" "files s (next_file s) = None"
      "rs (ptable s' ! p) = rs (ptable s ! p)" "curpid s' = curpid s" "next_file s' = Suc (next_file s)"
      "\<forall>q. rs (ptable s' ! q) = rs (ptable s ! q) \<and> pid (ptable s' ! q) = pid (ptable s ! q)"
proof (cases "first_free (fds (ptable s ! p))")
  case None
  with assms(4) show thesis by (intro full) (auto simp: alloc_fd_def)
next
  case (Some i)
  have len: "length (ptable s) = PTABLE_SIZE" "length (fds (ptable s ! p)) = MAX_FDS"
    using fd_invD [OF assms(1)] assms(2) by auto
  have free: "first_free ds = Some i \<Longrightarrow> i < length ds \<and> sfile (ds ! i) = None" for ds i
    by (induction ds arbitrary: i) (auto split: if_splits)
  let ?f = "next_file s" and ?d = "\<lparr>sfile = Some (next_file s), cloexec = False\<rparr>"
  let ?t = "set_slot p i ?d s"
  from free [OF Some] len have i: "i < MAX_FDS" "sfile (fds (ptable s ! p) ! i) = None" by auto
  have s': "s' = ?t\<lparr>files := (files s)(?f \<mapsto> null_file\<lparr>refcnt := 1\<rparr>), next_file := ?f + 1\<rparr>" "fd = int i"
    using assms(4) Some by (auto simp: alloc_fd_def upd_pcb_def)
  have none: "files s ?f = None" using fd_invD(4) [OF assms(1), of ?f] by (cases "files s ?f") auto
  note r = slot_set [OF assms(1,2) i(1), where d = ?d]
  have refs: "refs s' g = refs s g + (if g = ?f then 1 else 0)" for g
    using r(1) [of g] i(2) by (auto simp: s')
  have "fd_inv s'"
    unfolding fd_inv_def
  proof (intro conjI allI impI)
    show "proc_ok s'" using r(2) by (simp add: s' proc_ok_def)
    fix g
    show "files s' g = None \<Longrightarrow> refs s' g = 0" using fd_invD(3) [OF assms(1), of g] refs [of g] by (simp add: s' split: if_splits)
    fix fl assume "files s' g = Some fl"
    then show "refcnt fl = int (refs s' g)" "0 < refs s' g" "g < next_file s'"
      using fd_invD(4) [OF assms(1), of g fl] fd_invD(3) [OF assms(1) none] refs [of g] by (auto simp: s' split: if_splits)
  next
    fix q assume "q < PTABLE_SIZE" "dead (rs (ptable s' ! q))"
    then show "\<forall>x \<in> set (fds (ptable s' ! q)). sfile x = None"
      using nproc_slot [OF assms(1,2), of ?d q i] assms(3) by (simp add: s')
  qed
  with i len assms(2) none show thesis by (intro new [of i]) (auto simp: s' nth_list_update)
qed

text \<open>
  Releasing a descriptor trips no assertion and touches no freed file: it fails only if the driver's
  \<open>close\<close> does.
\<close>

lemma release_fd_cases:
  assumes "fd_inv s" "p < PTABLE_SIZE" "i < MAX_FDS" "sfile (fds (ptable s ! p) ! i) = Some f"
  obtains (failed) e where "release_fd close p i (s, w) = Inl e" "\<exists>op fl. close op fl w = Inl e"
  | (released) s' w' where "release_fd close p i (s, w) = Inr (s', w')" "fd_inv s'"
      "fds (ptable s' ! p) = (fds (ptable s ! p))[i := \<lparr>sfile = None, cloexec = False\<rparr>]"
      "\<forall>g. g \<noteq> f \<longrightarrow> files s' g = files s g" "files s' f = None \<longleftrightarrow> refs s f = 1"
      "\<forall>q. rs (ptable s' ! q) = rs (ptable s ! q) \<and> pid (ptable s' ! q) = pid (ptable s ! q)"
      "\<forall>q. q \<noteq> p \<longrightarrow> fds (ptable s' ! q) = fds (ptable s ! q)" "curpid s' = curpid s" "acq_depth s' = acq_depth s"
proof -
  let ?d = "\<lparr>sfile = None, cloexec = False\<rparr>"
  let ?t = "set_slot p i ?d s"
  have len: "length (ptable s) = PTABLE_SIZE" "length (fds (ptable s ! p)) = MAX_FDS"
    using fd_invD [OF assms(1)] assms(2) by auto
  from fd_inv_open [OF assms] obtain fl where fl: "files s f = Some fl" "refcnt fl = int (refs s f)" "0 < refs s f" by blast
  note r = slot_set [OF assms(1-3), where d = ?d]
  have refs: "refs ?t g = refs s g - (if g = f then 1 else 0)" for g
    using r(1) [of g] assms(4) by auto
  define fs' where "fs' = (if refs s f = 1 then (files s)(f := None) else (files s)(f \<mapsto> fl\<lparr>refcnt := refcnt fl - 1\<rparr>))"
  have inv: "fd_inv (?t\<lparr>files := fs'\<rparr>)"
    unfolding fd_inv_def
  proof (intro conjI allI impI)
    show "proc_ok (?t\<lparr>files := fs'\<rparr>)" using r(2) by (simp add: proc_ok_def)
    fix g
    show "files (?t\<lparr>files := fs'\<rparr>) g = None \<Longrightarrow> refs (?t\<lparr>files := fs'\<rparr>) g = 0"
      using fd_invD(3) [OF assms(1), of g] refs [of g] fl by (auto simp: fs'_def split: if_splits)
    fix fl' assume "files (?t\<lparr>files := fs'\<rparr>) g = Some fl'"
    then show "refcnt fl' = int (refs (?t\<lparr>files := fs'\<rparr>) g)" "0 < refs (?t\<lparr>files := fs'\<rparr>) g" "g < next_file (?t\<lparr>files := fs'\<rparr>)"
      using fd_invD(4) [OF assms(1), of g fl'] fd_invD(4) [OF assms(1) fl(1)] refs [of g] fl by (auto simp: fs'_def split: if_splits)
  next
    fix q assume "q < PTABLE_SIZE" "dead (rs (ptable (?t\<lparr>files := fs'\<rparr>) ! q))"
    then show "\<forall>x \<in> set (fds (ptable (?t\<lparr>files := fs'\<rparr>) ! q)). sfile x = None"
      using nproc_slot [OF assms(1,2), of ?d q i] by simp
  qed
  have t: "upd_pcb p (\<lambda>q. q\<lparr>fds := (fds q)[i := ?d]\<rparr>) (s\<lparr>files := fs'\<rparr>) = ?t\<lparr>files := fs'\<rparr>"
    by (simp add: upd_pcb_def)
  define s' where "s' = ?t\<lparr>files := fs'\<rparr>"
  have s': "fds (ptable s' ! p) = (fds (ptable s ! p))[i := ?d]"
    "\<forall>g. g \<noteq> f \<longrightarrow> files s' g = files s g" "files s' f = None \<longleftrightarrow> refs s f = 1"
    "\<forall>q. rs (ptable s' ! q) = rs (ptable s ! q) \<and> pid (ptable s' ! q) = pid (ptable s ! q)"
    "\<forall>q. q \<noteq> p \<longrightarrow> fds (ptable s' ! q) = fds (ptable s ! q)" "curpid s' = curpid s" "acq_depth s' = acq_depth s"
    using len assms(2) by (auto simp: s'_def fs'_def nth_list_update)
  show thesis
  proof (cases "refs s f = 1")
    case True
    let ?c = "case ffops fl of None \<Rightarrow> Inr w | Some fo \<Rightarrow> close fo (fl\<lparr>refcnt := refcnt fl - 1\<rparr>) w"
    show thesis
    proof (cases ?c)
      case (Inl e)
      with True assms(4) fl have "release_fd close p i (s, w) = Inl e" by (simp add: release_fd_def Let_def)
      moreover have "\<exists>op fl. close op fl w = Inl e" using Inl by (auto split: option.splits)
      ultimately show thesis by (rule failed)
    next
      case (Inr w')
      with True assms(4) fl t have "release_fd close p i (s, w) = Inr (s', w')"
        by (simp add: release_fd_def Let_def fs'_def s'_def)
      then show thesis by (rule released [OF _ inv [folded s'_def] s'])
    qed
  next
    case False
    with assms(4) fl t have "release_fd close p i (s, w) = Inr (s', w)"
      by (simp add: release_fd_def Let_def fs'_def s'_def)
    then show thesis by (rule released [OF _ inv [folded s'_def] s'])
  qed
qed

lemma put_file_simps [simp]:
  "ptable (put_file f fl s) = ptable s" "curpid (put_file f fl s) = curpid s" "next_file (put_file f fl s) = next_file s"
  "acq_depth (put_file f fl s) = acq_depth s" "files (put_file f fl s) = (files s)(f \<mapsto> fl)"
  "refs (put_file f fl s) g = refs s g"
  by (simp_all add: put_file_def)

lemma fd_inv_put:
  assumes "fd_inv s" "files s f = Some fl" "refcnt fl' = refcnt fl"
  shows "fd_inv (put_file f fl' s)"
  using assms fd_invD(4) [OF assms(1,2)] by (auto simp: fd_inv_def proc_ok_def put_file_def)

lemma fd_fileD: "fd_file s p fd = Inr (f, fl) \<Longrightarrow> sfile (fds (ptable s ! p) ! nat fd) = Some f \<and> files s f = Some fl"
  by (auto simp: fd_file_def kres)

lemma fd_inv_cloexec:
  assumes "fd_inv s" "p < PTABLE_SIZE" "i < MAX_FDS" "\<not> dead (rs (ptable s ! p))"
  shows "fd_inv (upd_pcb p (\<lambda>q. q\<lparr>fds := (fds q)[i := (fds q ! i)\<lparr>cloexec := b\<rparr>]\<rparr>) s)"
proof -
  let ?d = "(fds (ptable s ! p) ! i)\<lparr>cloexec := b\<rparr>"
  have eq: "upd_pcb p (\<lambda>q. q\<lparr>fds := (fds q)[i := (fds q ! i)\<lparr>cloexec := b\<rparr>]\<rparr>) s = set_slot p i ?d s"
    by (simp add: upd_pcb_def)
  have "refs (set_slot p i ?d s) f = refs s f" for f using slot_set(1) [OF assms(1-3), of ?d f] by simp
  then show ?thesis
    unfolding eq fd_inv_def using slot_set(2) [OF assms(1-3)] nproc_slot [OF assms(1,2), of ?d _ i] assms(1,4)
    by (auto simp: fd_inv_def)
qed

lemma bad_fdD:
  "\<not> bad_fd s p fd \<Longrightarrow> nat fd < MAX_FDS \<and> 0 \<le> fd \<and> (\<exists>f. sfile (fds (ptable s ! p) ! nat fd) = Some f)"
  by (auto simp: bad_fd_def)

lemma sys_close_inv:
  assumes "fd_inv s" "sys_close fo fd (s, w) = Inr (r, s', w')"
  shows "fd_inv s'"
proof -
  from assms(2) obtain p where p: "cur_pcb s = Inr p" by (auto simp: sys_close_def kres)
  show ?thesis
  proof (cases "bad_fd s p fd")
    case False
    then obtain f where f: "nat fd < MAX_FDS" "sfile (fds (ptable s ! p) ! nat fd) = Some f" using bad_fdD by blast
    have "p < PTABLE_SIZE" using cur_pcbD [OF p] by simp
    from assms(1) this f show ?thesis
      by (rule release_fd_cases [where close = "close_op fo" and w = w]) (use assms(2) p False in \<open>auto simp: sys_close_def\<close>)
  qed (use assms p in \<open>auto simp: sys_close_def\<close>)
qed

lemma dup_fd_inv:
  assumes "fd_inv s" "p < PTABLE_SIZE" "\<not> dead (rs (ptable s ! p))" "i < MAX_FDS" "j < MAX_FDS"
    "sfile (fds (ptable s ! p) ! i) = Some f" "sfile (fds (ptable s ! p) ! j) = None" "dup_fd p i s = Inr s1"
  shows "fd_inv (upd_pcb p (\<lambda>q. q\<lparr>fds := (fds q)[j := (fds q ! j)\<lparr>sfile := sfile (fds q ! i)\<rparr>]\<rparr>) s1)"
proof -
  from fd_inv_open [OF assms(1,2,4,6)] obtain fl where fl: "files s f = Some fl" by blast
  let ?d = "(fds (ptable s ! p) ! j)\<lparr>sfile := Some f\<rparr>"
  let ?s = "set_slot p j ?d s"
  let ?fs = "(files s)(f \<mapsto> fl\<lparr>refcnt := refcnt fl + 1\<rparr>)"
  have s1: "s1 = s\<lparr>files := ?fs\<rparr>" using assms(6,8) fl by (simp add: dup_fd_def)
  have eq: "upd_pcb p (\<lambda>q. q\<lparr>fds := (fds q)[j := (fds q ! j)\<lparr>sfile := sfile (fds q ! i)\<rparr>]\<rparr>) s1 = ?s\<lparr>files := ?fs\<rparr>"
    using assms(6) by (simp add: s1 upd_pcb_def)
  have refs: "refs ?s g = refs s g + (if g = f then 1 else 0)" for g
    using slot_set(1) [OF assms(1,2,5), of ?d g] assms(7) by auto
  have np: "\<forall>x \<in> set (fds (ptable ?s ! q)). sfile x = None" if "q < PTABLE_SIZE" "dead (rs (ptable ?s ! q))" for q
    using nproc_slot [OF assms(1,2), of ?d q j] assms(3) that by blast
  show ?thesis
    unfolding eq fd_inv_def
  proof (intro conjI allI impI)
    show "proc_ok (?s\<lparr>files := ?fs\<rparr>)" using slot_set(2) [OF assms(1,2,5), of ?d] by (simp add: proc_ok_def)
    fix g
    show "files (?s\<lparr>files := ?fs\<rparr>) g = None \<Longrightarrow> refs (?s\<lparr>files := ?fs\<rparr>) g = 0"
      using fd_invD(3) [OF assms(1), of g] refs [of g] by (auto split: if_splits)
    fix fl' assume "files (?s\<lparr>files := ?fs\<rparr>) g = Some fl'"
    then show "refcnt fl' = int (refs (?s\<lparr>files := ?fs\<rparr>) g)" "0 < refs (?s\<lparr>files := ?fs\<rparr>) g" "g < next_file (?s\<lparr>files := ?fs\<rparr>)"
      using fd_invD(4) [OF assms(1), of g fl'] fd_invD(4) [OF assms(1) fl] refs [of g] by (auto split: if_splits)
  next
    fix q assume "q < PTABLE_SIZE" "dead (rs (ptable (?s\<lparr>files := ?fs\<rparr>) ! q))"
    then show "\<forall>x \<in> set (fds (ptable (?s\<lparr>files := ?fs\<rparr>) ! q)). sfile x = None" using np [of q] by simp
  qed
qed

lemma sys_dup2_inv:
  assumes "fd_inv s" "sys_dup2 fo fd fd2 (s, w) = Inr (r, s', w')" "user_runs s"
  shows "fd_inv s'"
proof -
  from assms(2) obtain p where p: "cur_pcb s = Inr p" by (auto simp: sys_dup2_def kres)
  have pc: "p < PTABLE_SIZE \<and> \<not> dead (rs (ptable s ! p))" using cur_pcbD [OF p] assms(3) by blast
  show ?thesis
  proof (cases "bad_fd s p fd \<or> fd2 \<ge> int MAX_FDS \<or> fd2 < 0 \<or> fd = fd2")
    case True
    with assms p show ?thesis by (auto simp: sys_dup2_def split: if_splits)
  next
    case False
    then obtain f where f: "nat fd < MAX_FDS" "sfile (fds (ptable s ! p) ! nat fd) = Some f" using bad_fdD by blast
    have n2: "nat fd2 < MAX_FDS" "nat fd \<noteq> nat fd2" using False bad_fdD [of s p fd] by auto
    let ?fin = "\<lambda>s1. upd_pcb p (\<lambda>q. q\<lparr>fds := (fds q)[nat fd2 := (fds q ! nat fd2)\<lparr>sfile := sfile (fds q ! nat fd)\<rparr>]\<rparr>) s1"
    show ?thesis
    proof (cases "sfile (fds (ptable s ! p) ! nat fd2)")
      case None
      from assms(2) p False None obtain s1 where "dup_fd p (nat fd) s = Inr s1" "s' = ?fin s1"
        by (auto simp: sys_dup2_def kres)
      with dup_fd_inv [OF assms(1) _ _ f(1) n2(1) f(2) None] pc show ?thesis by simp
    next
      case (Some f2)
      from assms(2) p False Some obtain r1 sc wc s1 where c: "sys_close fo fd2 (s, w) = Inr (r1, sc, wc)"
        "dup_fd p (nat fd) sc = Inr s1" "s' = ?fin s1" by (auto simp: sys_dup2_def kres)
      have nb: "\<not> bad_fd s p fd2" using False Some by (simp add: bad_fd_def)
      from c(1) p nb have rel: "release_fd (close_op fo) p (nat fd2) (s, w) = Inr (sc, wc)" by (auto simp: sys_close_def kres)
      have inv: "fd_inv sc" by (rule sys_close_inv [OF assms(1) c(1)])
      from assms(1) pc [THEN conjunct1] n2(1) Some
      have "fds (ptable sc ! p) = (fds (ptable s ! p))[nat fd2 := \<lparr>sfile = None, cloexec = False\<rparr>]" "rs (ptable sc ! p) = rs (ptable s ! p)"
        by (rule release_fd_cases [where close = "close_op fo" and w = w]; use rel in auto)+
      with dup_fd_inv [OF inv _ _ f(1) n2(1), of p f s1] pc c f n2 fd_invD(2) [OF assms(1), of p] show ?thesis by simp
    qed
  qed
qed

section \<open>Processes and the count\<close>

lemma fork_dups_ok:
  assumes "\<forall>i \<in> set is. \<forall>f. sfile (fds (ptable s ! n) ! i) = Some f \<longrightarrow> files s f \<noteq> None"
  shows "fork_dups n is s = Inr (s\<lparr>files := \<lambda>f. map_option
    (\<lambda>fl. fl\<lparr>refcnt := refcnt fl + int (length (filter (\<lambda>i. sfile (fds (ptable s ! n) ! i) = Some f) is))\<rparr>) (files s f)\<rparr>)"
  using assms
proof (induction "is" arbitrary: s)
  case Nil
  have "(\<lambda>f. map_option (\<lambda>fl. fl) (files s f)) = files s" by (simp add: option.map_ident)
  then show ?case by simp
next
  case (Cons i "is")
  show ?case
  proof (cases "sfile (fds (ptable s ! n) ! i)")
    case None
    with Cons show ?thesis by simp
  next
    case (Some f)
    with Cons.prems obtain fl where fl: "files s f = Some fl" by auto
    let ?s = "s\<lparr>files := (files s)(f \<mapsto> fl\<lparr>refcnt := refcnt fl + 1\<rparr>)\<rparr>"
    have "fork_dups n (i # is) s = fork_dups n is ?s" using Some fl by (simp add: dup_fd_def)
    also have "\<dots> = Inr (?s\<lparr>files := \<lambda>f. map_option
        (\<lambda>fl. fl\<lparr>refcnt := refcnt fl + int (length (filter (\<lambda>i. sfile (fds (ptable ?s ! n) ! i) = Some f) is))\<rparr>) (files ?s f)\<rparr>)"
      by (rule Cons.IH) (use Cons.prems in auto)
    finally show ?thesis using Some fl by (simp add: fun_eq_iff)
  qed
qed

lemma cnt_filter: "length ds = MAX_FDS \<Longrightarrow> length (filter (\<lambda>i. sfile (ds ! i) = Some f) [0..<MAX_FDS]) = cnt f ds"
proof -
  assume len: "length ds = MAX_FDS"
  have "filter (\<lambda>d. sfile d = Some f) (map ((!) ds) [0..<length ds]) = map ((!) ds) (filter (\<lambda>i. sfile (ds ! i) = Some f) [0..<length ds])"
    by (simp add: filter_map comp_def)
  then have "length (filter (\<lambda>i. sfile (ds ! i) = Some f) [0..<length ds]) = length (filter (\<lambda>d. sfile d = Some f) ds)"
    by (simp add: map_nth)
  also have "\<dots> = cnt f ds" by (induction ds) (simp_all add: cnt_def)
  finally show ?thesis using len by simp
qed

text \<open>
  \<open>sys_fork\<close> always succeeds while a slot of the process table is free; the child has the parent's
  descriptors and the count of every file of the parent grows by the number of its descriptors.
\<close>

lemma sys_fork_ok:
  assumes "fd_inv s" "cur_pcb s = Inr old" "k < PTABLE_SIZE" "rs (ptable s ! k) = RS_NOPROC"
  shows "\<exists>n s'. sys_fork s = Inr (Inr (n, s')) \<and> n < PTABLE_SIZE \<and> rs (ptable s ! n) = RS_NOPROC \<and> fd_inv s' \<and>
    acq_depth s' = acq_depth s + 1 \<and> rs (ptable s' ! n) = RS_READY \<and> ppid (ptable s' ! n) = curpid s \<and>
    fds (ptable s' ! n) = fds (ptable s ! old) \<and> ptable s' = (ptable s)[n := ptable s' ! n]"
proof -
  have ok: "proc_ok s" using assms(1) by (simp add: fd_inv_def)
  have old: "old < PTABLE_SIZE" "rs (ptable s ! old) \<noteq> RS_NOPROC" "pid (ptable s ! old) = curpid s"
    using assms(2) by (auto simp: cur_pcb_def get_pcb_def get_pid_def Let_def pid_off_less split: if_splits)
  from alloc_proc_ok [OF ok assms(3,4)] obtain n s1 where n: "alloc_proc s = Inr (Some n, s1)" "n < PTABLE_SIZE" "rs (ptable s ! n) = RS_NOPROC"
    "ptable s1 = (ptable s)[n := (ptable s ! n)\<lparr>rs := RS_CREATED, pid := make_pid (pid_gen (pid (ptable s ! n)) + 1) n, ppid := - 1\<rparr>]"
    "acq_depth s1 = acq_depth s" "files s1 = files s" "next_file s1 = next_file s" "proc_ok s1" by blast
  have neq: "n \<noteq> old" using n(3) old by blast
  have len: "length (ptable s) = PTABLE_SIZE" "length (fds (ptable s ! old)) = MAX_FDS" "length (fds (ptable s ! n)) = MAX_FDS"
    using fd_invD [OF assms(1)] n(2) old by auto
  define c where "c = (ptable s ! n)\<lparr>pid := make_pid (pid_gen (pid (ptable s ! n)) + 1) n, ppid := curpid s,
    rs := RS_READY, fds := fds (ptable s ! old)\<rparr>"
  let ?g = "\<lambda>q. q\<lparr>ppid := pid (ptable (acquire_global s1) ! old), rs := RS_READY, fds := fds (ptable (acquire_global s1) ! old)\<rparr>"
  define s2 where "s2 = upd_pcb n ?g (acquire_global s1)"
  have s2: "ptable s2 = (ptable s)[n := c]" "files s2 = files s" "next_file s2 = next_file s" "acq_depth s2 = acq_depth s + 1"
    using n neq old len by (simp_all add: s2_def upd_pcb_def c_def)
  have ok2: "proc_ok s2"
    unfolding s2_def using n neq old len by (auto simp: proc_ok_def nth_list_update pid_off_make)
  have refs: "refs s2 f = refs s f + cnt f (fds (ptable s ! old))" for f
  proof -
    have "refs (upd_pcb n (\<lambda>_. c) s) f + cnt f (fds (ptable s ! n)) = refs s f + cnt f (fds c)"
      using refs_upd [of n s "\<lambda>_. c" f] n(2) len(1) by simp
    moreover have "cnt f (fds (ptable s ! n)) = 0" using assms(1) n(2,3) by (intro cnt_none) (simp add: fd_inv_def dead_def)
    moreover have "refs s2 f = refs (upd_pcb n (\<lambda>_. c) s) f" by (simp add: refs_def s2 upd_pcb_def)
    ultimately show ?thesis by (simp add: c_def)
  qed
  define bump where "bump f = map_option (\<lambda>fl. fl\<lparr>refcnt := refcnt fl + int (cnt f (fds (ptable s ! old)))\<rparr>) (files s f)" for f
  have fds2: "fds (ptable s2 ! n) = fds (ptable s ! old)" using n(2) len(1) by (simp add: s2 c_def)
  have bump: "bump = (\<lambda>f. map_option (\<lambda>fl. fl\<lparr>refcnt := refcnt fl + int (length (filter (\<lambda>i. sfile (fds (ptable s2 ! n) ! i) = Some f)
      [0..<MAX_FDS]))\<rparr>) (files s2 f))"
    by (simp add: bump_def fds2 s2(2) cnt_filter [OF len(2)] fun_eq_iff)
  have "\<forall>i \<in> set [0..<MAX_FDS]. \<forall>f. sfile (fds (ptable s2 ! n) ! i) = Some f \<longrightarrow> files s2 f \<noteq> None"
    using fd_inv_open [OF assms(1) old(1)] by (fastforce simp: fds2 s2(2))
  from fork_dups_ok [OF this, folded bump] have fork: "sys_fork s = Inr (Inr (n, s2\<lparr>files := bump\<rparr>))"
    using assms(2) n(1) by (simp add: sys_fork_def s2_def Let_def)
  have "fd_inv (s2\<lparr>files := bump\<rparr>)"
    unfolding fd_inv_def
  proof (intro conjI allI impI)
    show "proc_ok (s2\<lparr>files := bump\<rparr>)" using ok2 by (simp add: proc_ok_def)
    fix f
    have "cnt f (fds (ptable s ! old)) \<le> refs s f" using cnt_le_refs old len by simp
    then show "files (s2\<lparr>files := bump\<rparr>) f = None \<Longrightarrow> refs (s2\<lparr>files := bump\<rparr>) f = 0"
      using fd_invD(3) [OF assms(1), of f] by (simp add: bump_def refs)
    fix fl assume "files (s2\<lparr>files := bump\<rparr>) f = Some fl"
    then show "refcnt fl = int (refs (s2\<lparr>files := bump\<rparr>) f)" "0 < refs (s2\<lparr>files := bump\<rparr>) f" "f < next_file (s2\<lparr>files := bump\<rparr>)"
      using fd_invD(4) [OF assms(1), of f] by (auto simp: bump_def refs s2)
  next
    fix q assume "q < PTABLE_SIZE" "dead (rs (ptable (s2\<lparr>files := bump\<rparr>) ! q))"
    then show "\<forall>x \<in> set (fds (ptable (s2\<lparr>files := bump\<rparr>) ! q)). sfile x = None"
      using assms(1) n(2) len(1) by (cases "q = n") (auto simp: s2 c_def dead_def fd_inv_def)
  qed
  with fork n(2,3) s2 len(1) show ?thesis by (simp add: c_def)
qed

text \<open>Closing all descriptors that satisfy a test never trips an assertion either.\<close>

lemma release_fds_ok:
  assumes "fd_inv s" "p < PTABLE_SIZE" "\<forall>i \<in> set is. i < MAX_FDS" "release_fds fo P p is (s, w) = Inr (s', w')"
  shows "fd_inv s' \<and> curpid s' = curpid s \<and> acq_depth s' = acq_depth s \<and> (\<forall>q. rs (ptable s' ! q) = rs (ptable s ! q)) \<and>
    (\<forall>i < MAX_FDS. sfile (fds (ptable s' ! p) ! i) =
       (let d = fds (ptable s ! p) ! i in if i \<in> set is \<and> P d then None else sfile d))"
  using assms
proof (induction "is" arbitrary: s w)
  case (Cons i "is")
  have i: "i < MAX_FDS" using Cons.prems(3) by simp
  show ?case
  proof (cases "sfile (fds (ptable s ! p) ! i) \<noteq> None \<and> P (fds (ptable s ! p) ! i)")
    case False
    with Cons.prems(4) have "release_fds fo P p is (s, w) = Inr (s', w')" by (auto simp: Let_def)
    from Cons.IH [OF Cons.prems(1,2) _ this] Cons.prems(3) False show ?thesis by (auto simp: Let_def)
  next
    case True
    then obtain f where f: "sfile (fds (ptable s ! p) ! i) = Some f" by blast
    from Cons.prems(4) True obtain s1 w1 where r: "release_fd (close_op fo) p i (s, w) = Inr (s1, w1)" "release_fds fo P p is (s1, w1) = Inr (s', w')"
      by (auto simp: kres Let_def)
    from Cons.prems(1,2) i f have s1: "fd_inv s1 \<and> fds (ptable s1 ! p) = (fds (ptable s ! p))[i := \<lparr>sfile = None, cloexec = False\<rparr>] \<and>
        curpid s1 = curpid s \<and> acq_depth s1 = acq_depth s \<and> (\<forall>q. rs (ptable s1 ! q) = rs (ptable s ! q))"
      by (rule release_fd_cases [where close = "close_op fo" and w = w]) (use r(1) in auto)
    from Cons.IH [OF _ Cons.prems(2) _ r(2)] s1 Cons.prems(3) True fd_invD(2) [OF Cons.prems(1,2)] i show ?thesis
      by (auto simp: Let_def nth_list_update)
  qed
qed (simp add: Let_def)

lemma cnt_no_fds [simp]: "cnt f no_fds = 0"
  by (simp add: no_fds_def cnt_def sum_list_replicate)

lemma sys_exit_inv:
  assumes "fd_inv s" "user_runs s" "sys_exit fo code (s, w) = Inr (s', w')"
  shows "fd_inv s' \<and> rs (ptable s' ! pid_off (curpid s)) = RS_TERMINATED"
proof -
  let ?a = "acquire_global s"
  from assms(3) obtain p where p: "cur_pcb ?a = Inr p" by (auto simp: sys_exit_def kres Let_def)
  have ra: "user_runs ?a" using assms(2) by (simp add: user_runs_def)
  have pc: "p < PTABLE_SIZE" "\<not> dead (rs (ptable s ! p))" "p = pid_off (curpid s)" using cur_pcbD [OF p] ra by auto
  have len: "length (ptable s) = PTABLE_SIZE" using fd_invD(1) [OF assms(1)] .
  define s1 where "s1 = upd_pcb p (\<lambda>q. q\<lparr>return_code := code\<rparr>) ?a"
  have s1: "fd_inv s1" "\<not> dead (rs (ptable s1 ! p))" "length (ptable s1) = PTABLE_SIZE"
    using fd_inv_upd_same [OF fd_inv_acquire [OF assms(1)] pc(1), of "\<lambda>q. q\<lparr>return_code := code\<rparr>"] pc len by (auto simp: s1_def)
  let ?wake = "\<lambda>pp s. upd_pcb pp (\<lambda>q. q\<lparr>wait_pid := pid (ptable s1 ! p), rs := RS_READY\<rparr>) s"
  from assms(3) p obtain s2 s3 w3 where
    s2: "s2 = s1 \<or> (\<exists>pp. get_pcb s1 (ppid (ptable s1 ! p)) = Some pp \<and> s2 = ?wake pp s1 \<and> rs (ptable s1 ! pp) = RS_BLOCKED)" and
    s3: "release_fds fo (\<lambda>_. True) p [0..<MAX_FDS] (s2, w) = Inr (s3, w3)"
      "release_global (upd_pcb p (\<lambda>q. q\<lparr>rs := RS_TERMINATED, fds := no_fds\<rparr>) s3) = Inr s'"
    by (fastforce simp: sys_exit_def Let_def kres s1_def split: if_splits)
  have inv2: "fd_inv s2 \<and> \<not> dead (rs (ptable s2 ! p))"
    using s2
  proof
    assume "\<exists>pp. get_pcb s1 (ppid (ptable s1 ! p)) = Some pp \<and> s2 = ?wake pp s1 \<and> rs (ptable s1 ! pp) = RS_BLOCKED"
    then obtain pp where pp: "pp < PTABLE_SIZE" "s2 = ?wake pp s1" "rs (ptable s1 ! pp) = RS_BLOCKED"
      using get_pcbD by blast
    with s1 show ?thesis by (auto simp: dead_def nth_list_update intro!: fd_inv_upd_same)
  qed (use s1 in simp)
  from release_fds_ok [OF _ pc(1) _ s3(1)] inv2
  have inv3: "fd_inv s3" "\<not> dead (rs (ptable s3 ! p))" "\<forall>i < MAX_FDS. sfile (fds (ptable s3 ! p) ! i) = None"
    by (auto simp: Let_def)
  then have "\<forall>d \<in> set (fds (ptable s3 ! p)). sfile d = None" using fd_invD(2) [OF inv3(1) pc(1)] by (auto simp: in_set_conv_nth)
  then have "fd_inv (upd_pcb p (\<lambda>q. q\<lparr>rs := RS_TERMINATED, fds := no_fds\<rparr>) s3)"
    using inv3 pc(1) by (intro fd_inv_upd) (auto simp: cnt_none dead_def, auto simp: no_fds_def)
  from fd_inv_release [OF s3(2) this] release_globalD [OF s3(2)] fd_invD(1) [OF inv3(1)] pc show ?thesis by simp
qed

lemma scan_child_terminated:
  "scan_child cs parent x b = Inl c \<Longrightarrow> \<exists>i < length cs. rs (cs ! i) = RS_TERMINATED \<and> pid (cs ! i) = c \<and> ppid (cs ! i) = parent"
proof (induction cs arbitrary: b)
  case (Cons d cs)
  from Cons.prems consider "rs d = RS_TERMINATED" "pid d = c" "ppid d = parent" | b' where "scan_child cs parent x b' = Inl c"
    by (simp split: if_splits)
  then show ?case
  proof cases
    case 1
    then show ?thesis by (intro exI [of _ 0]) simp
  next
    case 2
    from Cons.IH [OF this] obtain i where "i < length cs \<and> rs (cs ! i) = RS_TERMINATED \<and> pid (cs ! i) = c \<and> ppid (cs ! i) = parent" by blast
    then show ?thesis by (intro exI [of _ "Suc i"]) simp
  qed
qed simp

lemma proc_get_terminated_child_inv:
  assumes "fd_inv s" "p < PTABLE_SIZE" "proc_get_terminated_child p x s = Inr (ret, s')"
  shows "fd_inv s' \<and> (\<forall>q. rs (ptable s' ! q) = rs (ptable s ! q)) \<and>
    (ret = 0 \<longrightarrow> (\<exists>c. get_pcb s' (wait_pid (ptable s' ! p)) = Some c \<and> rs (ptable s' ! c) = RS_TERMINATED))"
proof (cases "scan_child (ptable s) (pid (ptable s ! p)) x False")
  case (Inl c)
  let ?s = "upd_pcb p (\<lambda>q. q\<lparr>wait_pid := c\<rparr>) (acquire_global s)"
  have len: "length (ptable s) = PTABLE_SIZE" using fd_invD(1) [OF assms(1)] .
  from scan_child_terminated [OF Inl] obtain i where i: "i < PTABLE_SIZE" "rs (ptable s ! i) = RS_TERMINATED" "pid (ptable s ! i) = c"
    using len by auto
  then have off: "pid_off c = i" using assms(1) by (auto simp: fd_inv_def proc_ok_def)
  from Inl assms(3) have r: "release_global ?s = Inr s'" "ret = 0" by (auto simp: proc_get_terminated_child_def Let_def kres)
  have "fd_inv ?s" using fd_inv_acquire [OF assms(1)] assms(2) by (intro fd_inv_upd_same) auto
  from fd_inv_release [OF r(1) this] release_globalD [OF r(1)] i off len assms(2) show ?thesis
    by (auto simp: get_pcb_def Let_def nth_list_update)
next
  case (Inr b)
  with assms(3) have r: "release_global (acquire_global s) = Inr s'" "ret \<noteq> 0"
    by (auto simp: proc_get_terminated_child_def Let_def kres split: if_splits)
  from fd_inv_release [OF r(1) fd_inv_acquire [OF assms(1)]] release_globalD [OF r(1)] r(2) show ?thesis by auto
qed

lemma waitpid_reap_inv:
  assumes "fd_inv s" "p < PTABLE_SIZE" "get_pcb s (wait_pid (ptable s ! p)) = Some c" "rs (ptable s ! c) = RS_TERMINATED"
    "waitpid_reap p s = Inr (r, st, s')"
  shows "fd_inv s'"
proof -
  have len: "length (ptable s) = PTABLE_SIZE" using fd_invD(1) [OF assms(1)] .
  have c: "c < PTABLE_SIZE" using get_pcbD [OF assms(3)] by simp
  define s1 where "s1 = upd_pcb p (\<lambda>q. q\<lparr>wait_pid := NOT_WAITING\<rparr>) (acquire_global s)"
  have s1: "fd_inv s1" "rs (ptable s1 ! c) = RS_TERMINATED"
    using fd_inv_acquire [OF assms(1)] assms(2,4) len by (auto simp: s1_def nth_list_update intro!: fd_inv_upd_same)
  have get: "get_pcb (acquire_global s) (wait_pid (ptable s ! p)) = Some c" using assms(3) by (simp add: get_pcb_def)
  from assms(5) get obtain s2 where
    s2: "release_global (upd_pcb c (\<lambda>q. q\<lparr>rs := RS_NOPROC, ppid := 0, wait_pid := NOT_WAITING\<rparr>) (acquire_global s1)) = Inr s2"
      "release_global s2 = Inr s'"
    by (auto simp: waitpid_reap_def release_proc_def Let_def kres s1_def)
  have "fd_inv (upd_pcb c (\<lambda>q. q\<lparr>rs := RS_NOPROC, ppid := 0, wait_pid := NOT_WAITING\<rparr>) (acquire_global s1))"
    using fd_inv_acquire [OF s1(1)] s1(2) c by (intro fd_inv_upd_same) (auto simp: dead_def)
  with s2 show ?thesis using fd_inv_release by blast
qed

lemma sys_waitpid_inv:
  assumes "fd_inv s" "user_runs s" "sys_waitpid x s = Inr r"
  shows "case r of Reaped _ _ s' \<Rightarrow> fd_inv s' | No_child _ s' \<Rightarrow> fd_inv s' | Sleeps s' \<Rightarrow> fd_inv s'"
proof -
  from assms(3) obtain p ret s1 where p: "cur_pcb s = Inr p" and s1: "proc_get_terminated_child p x s = Inr (ret, s1)"
    by (auto simp: sys_waitpid_def kres)
  have pc: "p < PTABLE_SIZE" "\<not> dead (rs (ptable s ! p))" using cur_pcbD [OF p] assms(2) by auto
  note inv = proc_get_terminated_child_inv [OF assms(1) pc(1) s1]
  have blk: "fd_inv (upd_pcb p (\<lambda>q. q\<lparr>rs := RS_BLOCKED, wait_pid := x\<rparr>) (acquire_global s1))"
    using inv pc by (intro fd_inv_upd_same) (auto simp: fd_inv_acquire dead_def)
  show ?thesis
    using assms(3) p s1 inv fd_inv_release [OF _ blk] waitpid_reap_inv [OF _ pc(1)]
    by (fastforce simp: sys_waitpid_def kres split: if_splits)
qed

lemma scan_ready_less: "scan_ready n pt io off b = (Some k, b') \<Longrightarrow> off < PTABLE_SIZE \<Longrightarrow> k < PTABLE_SIZE \<and> rs (pt ! k) = RS_READY"
proof (induction n pt io off b rule: scan_ready.induct)
  case (2 n pt io off b)
  have "(off + 1) mod PTABLE_SIZE < PTABLE_SIZE" by (simp add: PTABLE_SIZE_def)
  with 2 show ?case by (auto simp: Let_def split: if_splits)
qed simp

lemma sched_inv:
  assumes "fd_inv s" "sched [] s = Inr (Some s')"
  shows "fd_inv s'"
proof (cases "nested s")
  case False
  let ?cur = "pid_off (curpid s)"
  define s2 where "s2 = (if rs (ptable (acquire_global s) ! ?cur) = RS_RUNNING
    then upd_pcb ?cur (\<lambda>p. p\<lparr>rs := RS_READY\<rparr>) (acquire_global s) else acquire_global s)"
  have inv2: "fd_inv s2"
    using fd_inv_acquire [OF assms(1)] pid_off_less by (auto simp: s2_def dead_def intro!: fd_inv_upd_same)
  from assms(2) False obtain off b s3 where
    off: "scan_ready PTABLE_SIZE (ptable s2) ((?cur + 1) mod PTABLE_SIZE) ((?cur + 1) mod PTABLE_SIZE) False = (Some off, b)" and
    s3: "s3 = upd_pcb off (\<lambda>p. p\<lparr>rs := RS_RUNNING\<rparr>) s2"
      "release_global s3 = Inr s' \<or> (\<exists>c. release_global (s3\<lparr>curpid := c\<rparr>) = Inr s')"
  proof -
    from assms(2) False have "kbind (sched_loop [] ((?cur + 1) mod PTABLE_SIZE) False s2) (\<lambda>r. case r of None \<Rightarrow> Inr None
       | Some (off, s3) \<Rightarrow> let s4 = upd_pcb off (\<lambda>p. p\<lparr>rs := RS_RUNNING\<rparr>) s3;
           s5 = (if off \<noteq> ?cur then s4\<lparr>curpid := pid (ptable s4 ! off)\<rparr> else s4)
         in kbind (release_global s5) (\<lambda>s6. Inr (Some s6))) = Inr (Some s')"
      by (simp only: sched_def s2_def Let_def acquire_global_simps if_False)
    then show thesis
      by (auto simp: Let_def sched_loop.simps kres split: if_splits prod.splits option.splits intro: that)
  qed
  have o: "off < PTABLE_SIZE" "rs (ptable s2 ! off) = RS_READY"
    using scan_ready_less [OF off] by (simp_all add: PTABLE_SIZE_def)
  have inv3: "fd_inv s3" unfolding s3(1) using inv2 o by (intro fd_inv_upd_same) (auto simp: dead_def)
  then have "fd_inv (s3\<lparr>curpid := c\<rparr>)" for c by (simp add: fd_inv_def proc_ok_def)
  with inv3 s3(2) show ?thesis using fd_inv_release by blast
qed (use assms in \<open>simp add: sched_def\<close>)

section \<open>The contract of the drivers and what the system calls keep\<close>

text \<open>A driver leaves the reference count of a file to the system calls.\<close>

definition keeps_refcnt :: "'w file_ops \<Rightarrow> bool" where
  "keeps_refcnt t \<longleftrightarrow>
     (\<forall>g i fl m w r fl' w'. op_open t = Some g \<longrightarrow> g i fl m w = Inr (r, fl', w') \<longrightarrow> refcnt fl' = refcnt fl) \<and>
     (\<forall>g fl n w r bs fl' w'. op_read t = Some g \<longrightarrow> g fl n w = Inr (r, bs, fl', w') \<longrightarrow> refcnt fl' = refcnt fl) \<and>
     (\<forall>g fl bs n w r fl' w'. op_write t = Some g \<longrightarrow> g fl bs n w = Inr (r, fl', w') \<longrightarrow> refcnt fl' = refcnt fl) \<and>
     (\<forall>g fl d w r d' fl' w'. op_getdent t = Some g \<longrightarrow> g fl d w = Inr (r, d', fl', w') \<longrightarrow> refcnt fl' = refcnt fl)"

text \<open>
  The steps of the kernel: the system calls of the running process, a switch of processes, a process
  that blocks in a driver, an interrupt that wakes one or changes the state of the drivers. A process
  that slept in \<open>sys_waitpid\<close> goes on once a child has terminated.
\<close>

inductive sys_step :: "(fops \<Rightarrow> 'a vfs_scheme file_ops) \<Rightarrow> (fstype \<Rightarrow> 'a vfs_scheme inode_ops) \<Rightarrow> ('a vfs_scheme \<Rightarrow> u32) \<Rightarrow>
    (u32 \<Rightarrow> pipe \<Rightarrow> 'a vfs_scheme \<Rightarrow> 'a vfs_scheme) \<Rightarrow> ksys \<times> 'a vfs_scheme \<Rightarrow> ksys \<times> 'a vfs_scheme \<Rightarrow> bool"
  for fo io place put where
  step_read: "user_runs s \<Longrightarrow> sys_read fo fd n (s, w) = Inr (r, bs, s', w') \<Longrightarrow> sys_step fo io place put (s, w) (s', w')"
| step_write: "user_runs s \<Longrightarrow> sys_write fo fd buf n (s, w) = Inr (r, s', w') \<Longrightarrow> sys_step fo io place put (s, w) (s', w')"
| step_getdent: "user_runs s \<Longrightarrow> sys_getdent fo fd d (s, w) = Inr (r, d', s', w') \<Longrightarrow> sys_step fo io place put (s, w) (s', w')"
| step_ioctl: "user_runs s \<Longrightarrow> sys_ioctl fo fd req arg (s, w) = Inr (r, arg', s', w') \<Longrightarrow> sys_step fo io place put (s, w) (s', w')"
| step_mmap: "user_runs s \<Longrightarrow> sys_mmap fo ad len prot m fd off (s, w) = Inr (r, s', w') \<Longrightarrow> sys_step fo io place put (s, w) (s', w')"
| step_open: "user_runs s \<Longrightarrow> sys_open fo io i0 path m (s, w) = Inr (r, s', w') \<Longrightarrow> sys_step fo io place put (s, w) (s', w')"
| step_mkdir: "user_runs s \<Longrightarrow> sys_mkdir io i0 path w = Inr (r, w') \<Longrightarrow> sys_step fo io place put (s, w) (s, w')"
| step_close: "user_runs s \<Longrightarrow> sys_close fo fd (s, w) = Inr (r, s', w') \<Longrightarrow> sys_step fo io place put (s, w) (s', w')"
| step_dup2: "user_runs s \<Longrightarrow> sys_dup2 fo fd fd2 (s, w) = Inr (r, s', w') \<Longrightarrow> sys_step fo io place put (s, w) (s', w')"
| step_pipe: "user_runs s \<Longrightarrow> sys_pipe place put m (s, w) = Inr (r, p, s', w') \<Longrightarrow> sys_step fo io place put (s, w) (s', w')"
| step_fork: "user_runs s \<Longrightarrow> sys_fork s = Inr (Inr (n, s1)) \<Longrightarrow> fork_return n s1 = Inr (r, s') \<Longrightarrow> sys_step fo io place put (s, w) (s', w)"
| step_fork_full: "user_runs s \<Longrightarrow> sys_fork s = Inr (Inl (r, s')) \<Longrightarrow> sys_step fo io place put (s, w) (s', w)"
| step_exec: "user_runs s \<Longrightarrow> cur_pcb s = Inr p \<Longrightarrow> release_fds fo cloexec p [0..<MAX_FDS] (s, w) = Inr (s', w') \<Longrightarrow>
    sys_step fo io place put (s, w) (s', w')"
| step_exit: "user_runs s \<Longrightarrow> sys_exit fo c (s, w) = Inr (s', w') \<Longrightarrow> sys_step fo io place put (s, w) (s', w')"
| step_wait: "user_runs s \<Longrightarrow> sys_waitpid x s = Inr (Reaped r st s') \<Longrightarrow> sys_step fo io place put (s, w) (s', w)"
| step_no_child: "user_runs s \<Longrightarrow> sys_waitpid x s = Inr (No_child r s') \<Longrightarrow> sys_step fo io place put (s, w) (s', w)"
| step_sleep: "user_runs s \<Longrightarrow> sys_waitpid x s = Inr (Sleeps s') \<Longrightarrow> sys_step fo io place put (s, w) (s', w)"
| step_woken: "user_runs s \<Longrightarrow> cur_pcb s = Inr p \<Longrightarrow> get_pcb s (wait_pid (ptable s ! p)) = Some c \<Longrightarrow>
    rs (ptable s ! c) = RS_TERMINATED \<Longrightarrow> waitpid_reap p s = Inr (r, st, s') \<Longrightarrow> sys_step fo io place put (s, w) (s', w)"
| step_block: "user_runs s \<Longrightarrow> cur_pcb s = Inr p \<Longrightarrow>
    sys_step fo io place put (s, w) (upd_pcb p (\<lambda>q. q\<lparr>rs := RS_BLOCKED\<rparr>) s, w)"
| step_wake: "p < PTABLE_SIZE \<Longrightarrow> rs (ptable s ! p) = RS_BLOCKED \<Longrightarrow>
    sys_step fo io place put (s, w) (upd_pcb p (\<lambda>q. q\<lparr>rs := RS_READY\<rparr>) s, w)"
| step_irq: "sys_step fo io place put (s, w) (s, w')"
| step_sched: "sched [] s = Inr (Some s') \<Longrightarrow> sys_step fo io place put (s, w) (s', w)"

lemma keeps_refcntD:
  assumes "keeps_refcnt t"
  shows "op_open t = Some go \<Longrightarrow> go i fl m w = Inr (r, fl', w') \<Longrightarrow> refcnt fl' = refcnt fl"
    "op_read t = Some gr \<Longrightarrow> gr fl n w = Inr (r, bs, fl', w') \<Longrightarrow> refcnt fl' = refcnt fl"
    "op_write t = Some gw \<Longrightarrow> gw fl bs n w = Inr (r, fl', w') \<Longrightarrow> refcnt fl' = refcnt fl"
    "op_getdent t = Some gd \<Longrightarrow> gd fl d w = Inr (r, d', fl', w') \<Longrightarrow> refcnt fl' = refcnt fl"
proof -
  note k = assms [unfolded keeps_refcnt_def]
  from k [THEN conjunct1, rule_format] k [THEN conjunct2, THEN conjunct1, rule_format]
    k [THEN conjunct2, THEN conjunct2, THEN conjunct1, rule_format] k [THEN conjunct2, THEN conjunct2, THEN conjunct2, rule_format]
  show "op_open t = Some go \<Longrightarrow> go i fl m w = Inr (r, fl', w') \<Longrightarrow> refcnt fl' = refcnt fl"
    "op_read t = Some gr \<Longrightarrow> gr fl n w = Inr (r, bs, fl', w') \<Longrightarrow> refcnt fl' = refcnt fl"
    "op_write t = Some gw \<Longrightarrow> gw fl bs n w = Inr (r, fl', w') \<Longrightarrow> refcnt fl' = refcnt fl"
    "op_getdent t = Some gd \<Longrightarrow> gd fl d w = Inr (r, d', fl', w') \<Longrightarrow> refcnt fl' = refcnt fl"
    by fast+
qed

lemma fd_inv_put_fd: "fd_inv s \<Longrightarrow> fd_file s p fd = Inr (f, fl) \<Longrightarrow> refcnt fl' = refcnt fl \<Longrightarrow> fd_inv (put_file f fl' s)"
  using fd_inv_put fd_fileD by blast

lemma release_fd_inv:
  assumes "fd_inv s" "p < PTABLE_SIZE" "i < MAX_FDS" "sfile (fds (ptable s ! p) ! i) = Some f" "release_fd close p i (s, w) = Inr (s', w')"
  shows "fd_inv s'"
  using assms(1-4) by (rule release_fd_cases [where close = close and w = w]) (use assms(5) in auto)

lemma fd_inv_cloexec2:
  assumes "fd_inv s" "p < PTABLE_SIZE" "i < MAX_FDS" "j < MAX_FDS" "i \<noteq> j" "\<not> dead (rs (ptable s ! p))"
  shows "fd_inv (upd_pcb p (\<lambda>q. q\<lparr>fds := (fds q)[i := (fds q ! i)\<lparr>cloexec := b\<rparr>, j := (fds q ! j)\<lparr>cloexec := b\<rparr>]\<rparr>) s)"
proof -
  let ?u = "\<lambda>k. upd_pcb p (\<lambda>q. q\<lparr>fds := (fds q)[k := (fds q ! k)\<lparr>cloexec := b\<rparr>]\<rparr>)"
  have "fd_inv (?u j (?u i s))"
    using fd_inv_cloexec [OF fd_inv_cloexec [OF assms(1,2,3,6), of b] assms(2,4), of b] assms fd_invD(1) [OF assms(1)] by simp
  then show ?thesis using assms(2,5) fd_invD(1) [OF assms(1)] by (simp add: upd_pcb_def)
qed

locale file_drivers =
  fixes fo :: "fops \<Rightarrow> 'a vfs_scheme file_ops"
  assumes drivers_keep: "keeps_refcnt (fo op)"
begin

lemma fs_open_keeps: "fs_open fo io i fl m w = Inr (r, fl', w') \<Longrightarrow> refcnt fl' = refcnt fl"
  using keeps_refcntD(1) [OF drivers_keep] unfolding fs_open_def
  by (fastforce simp: kres Let_def split: ftype.splits option.splits if_splits)

lemma sys_read_inv:
  assumes "fd_inv s" "sys_read fo fd n (s, w) = Inr (r, bs, s', w')"
  shows "fd_inv s'"
proof -
  from assms(2) consider "s' = s"
    | f fl op g fl' p where "fd_file s p fd = Inr (f, fl)" "op_read (fo op) = Some g" "g fl n w = Inr (r, bs, fl', w')" "s' = put_file f fl' s"
    by (auto simp: sys_read_def kres split: if_splits option.splits)
  then show ?thesis using assms(1) by cases (auto intro: fd_inv_put_fd keeps_refcntD(2) [OF drivers_keep])
qed

lemma sys_write_inv:
  assumes "fd_inv s" "sys_write fo fd buf n (s, w) = Inr (r, s', w')"
  shows "fd_inv s'"
proof -
  from assms(2) consider "s' = s"
    | f fl op g fl' p where "fd_file s p fd = Inr (f, fl)" "op_write (fo op) = Some g" "g fl buf n w = Inr (r, fl', w')" "s' = put_file f fl' s"
    by (auto simp: sys_write_def kres split: if_splits option.splits)
  then show ?thesis using assms(1) by cases (auto intro: fd_inv_put_fd keeps_refcntD(3) [OF drivers_keep])
qed

lemma sys_getdent_inv:
  assumes "fd_inv s" "sys_getdent fo fd d (s, w) = Inr (r, d', s', w')"
  shows "fd_inv s'"
proof -
  from assms(2) consider "s' = s"
    | f fl op g fl' p where "fd_file s p fd = Inr (f, fl)" "op_getdent (fo op) = Some g" "g fl d w = Inr (r, d', fl', w')" "s' = put_file f fl' s"
    by (auto simp: sys_getdent_def kres split: if_splits option.splits)
  then show ?thesis using assms(1) by cases (auto intro: fd_inv_put_fd keeps_refcntD(4) [OF drivers_keep])
qed

lemma sys_open_inv:
  assumes "fd_inv s" "user_runs s" "sys_open fo io i0 path m (s, w) = Inr (r, s', w')"
  shows "fd_inv s'"
proof -
  from assms(3) obtain p e i w1 where p: "cur_pcb s = Inr p" and l: "open_lookup io i0 path m w = Inr (e, i, w1)"
    by (auto simp: sys_open_def kres)
  have pc: "p < PTABLE_SIZE" "\<not> dead (rs (ptable s ! p))" using cur_pcbD [OF p] assms(2) by auto
  obtain fd s1 where al: "alloc_fd p s = (fd, s1)" by fastforce
  show ?thesis
  proof (cases "e < 0")
    case False
    from assms(1) pc al show ?thesis
    proof (cases rule: alloc_fd_cases)
      case (new k)
      let ?s2 = "if m AND O_CLOEXEC \<noteq> 0 then upd_pcb p (\<lambda>q. q\<lparr>fds := (fds q)[k := (fds q ! k)\<lparr>cloexec := True\<rparr>]\<rparr>) s1 else s1"
      have inv2: "fd_inv ?s2" using fd_inv_cloexec [OF new(3) pc(1) new(2), of True] pc(2) new(3,8) by simp
      from assms(3) p l False al new(1) obtain f fl fl' w2 e' where o: "fd_file ?s2 p fd = Inr (f, fl)" "fs_open fo io i fl m w1 = Inr (e', fl', w2)"
        "s' = put_file f fl' ?s2 \<or> (\<exists>w3. release_fd (close_op fo) p k (put_file f fl' ?s2, w2) = Inr (s', w3))"
        by (auto simp: sys_open_def kres Let_def split: if_splits)
      have inv3: "fd_inv (put_file f fl' ?s2)" by (rule fd_inv_put_fd [OF inv2 o(1) fs_open_keeps [OF o(2)]])
      have sl: "sfile (fds (ptable (put_file f fl' ?s2) ! p) ! k) = Some f"
        using fd_fileD [OF o(1)] new(1) by (simp only: put_file_simps nat_int)
      from o(3) show ?thesis
        by (elim disjE exE) (simp only: inv3, rule release_fd_inv [OF inv3 pc(1) new(2) sl])
    qed (use assms p l False al in \<open>auto simp: sys_open_def\<close>)
  qed (use assms p l in \<open>auto simp: sys_open_def\<close>)
qed

end

lemma sys_pipe_inv:
  assumes "fd_inv s" "user_runs s" "sys_pipe place put m (s, w) = Inr (r, fs, s', w')"
  shows "fd_inv s'"
proof -
  from assms(3) obtain p where p: "cur_pcb s = Inr p" by (auto simp: sys_pipe_def kres)
  have pc: "p < PTABLE_SIZE" "\<not> dead (rs (ptable s ! p))" using cur_pcbD [OF p] assms(2) by auto
  obtain fd1 s1 where a1: "alloc_fd p s = (fd1, s1)" by fastforce
  obtain fd2 s2 where a2: "alloc_fd p s1 = (fd2, s2)" by fastforce
  from assms(1) pc a1 show ?thesis
  proof (cases rule: alloc_fd_cases)
    case n1: (new i)
    have pc1: "\<not> dead (rs (ptable s1 ! p))" using n1(8) pc(2) by simp
    from n1(3) pc(1) pc1 a2 show ?thesis
    proof (cases rule: alloc_fd_cases)
      case n2: (new j)
      have ij: "i \<noteq> j" using n2(4) n1(2,5) fd_invD(2) [OF assms(1) pc(1)] by auto
      have pc2: "\<not> dead (rs (ptable s2 ! p))" using n2(8) pc1 by simp
      from assms(3) p a1 a2 n1(1) n2(1) obtain f1 fl1 f2 fl2 pi fl1' fl2' where o: "fd_file s2 p fd1 = Inr (f1, fl1)" "fd_file s2 p fd2 = Inr (f2, fl2)"
        "open_pipe (place w) fl1 fl2 = (pi, fl1', fl2')" and
        s': "s' = (let t = put_file f2 fl2' (put_file f1 fl1' s2) in if m AND O_CLOEXEC \<noteq> 0
          then upd_pcb p (\<lambda>q. q\<lparr>fds := (fds q)[i := (fds q ! i)\<lparr>cloexec := True\<rparr>, j := (fds q ! j)\<lparr>cloexec := True\<rparr>]\<rparr>) t else t)"
        by (auto simp: sys_pipe_def kres Let_def open_pipe_def)
      have rc: "refcnt fl1' = refcnt fl1" "refcnt fl2' = refcnt fl2" using o(3) by (auto simp: open_pipe_def)
      have "f1 \<noteq> f2"
        using fd_fileD [OF o(1)] fd_fileD [OF o(2)] n1 n2 ij fd_invD(2) [OF assms(1) pc(1)] fd_invD(2) [OF n1(3) pc(1)] by auto
      then have "fd_inv (put_file f2 fl2' (put_file f1 fl1' s2))"
        using fd_inv_put [OF fd_inv_put [OF n2(3) _ rc(1)] _ rc(2)] fd_fileD [OF o(1)] fd_fileD [OF o(2)] by simp
      with fd_inv_cloexec2 [OF _ pc(1) n1(2) n2(2) ij, of "put_file f2 fl2' (put_file f1 fl1' s2)" True] pc2 show ?thesis
        by (simp add: s' Let_def)
    qed (use assms n1 p a1 a2 in \<open>auto simp: sys_pipe_def\<close>)
  qed (use assms p a1 in \<open>auto simp: sys_pipe_def\<close>)
qed

text \<open>With such drivers every step keeps the count.\<close>

context file_drivers
begin

lemma sys_step_inv: "sys_step fo io place put x y \<Longrightarrow> fd_inv (fst x) \<Longrightarrow> fd_inv (fst y)"
proof (induction rule: sys_step.induct)
  case (step_fork s n s1 r s' w)
  then obtain p where p: "cur_pcb s = Inr p" by (auto simp: sys_fork_def kres)
  have "\<exists>k < PTABLE_SIZE. rs (ptable s ! k) = RS_NOPROC"
  proof (rule ccontr)
    assume "\<not> ?thesis"
    then have "scan_free PTABLE_SIZE (ptable s) (pt_free s) (pt_free s) = None"
      using step_fork.prems by (intro scan_free_none) (auto simp: fd_inv_def proc_ok_def)
    with step_fork.hyps(2) p show False by (simp add: sys_fork_def alloc_proc_def)
  qed
  with sys_fork_ok [OF _ p] step_fork have "fd_inv s1" by fastforce
  with step_fork.hyps(3) show ?case by (auto simp: fork_return_def kres intro: fd_inv_release)
next
  case (step_fork_full s r s' w)
  then show ?case
    by (auto simp: sys_fork_def alloc_proc_def Let_def kres intro: fd_inv_acquire split: option.splits)
next
  case (step_exec s p w s' w')
  with release_fds_ok [of s p "[0..<MAX_FDS]" fo cloexec w s' w'] cur_pcbD [of s p] show ?case by simp
next
  case (step_woken s p c r st s' w)
  with waitpid_reap_inv [of s p c r st s'] cur_pcbD [of s p] show ?case by fastforce
next
  case (step_block s p w)
  with cur_pcbD [of s p] show ?case by (auto simp: dead_def intro!: fd_inv_upd_same)
next
  case (step_wake p s w)
  then show ?case by (auto simp: dead_def intro!: fd_inv_upd_same)
qed (auto simp: sys_ioctl_def sys_mmap_def kres dest: sys_read_inv sys_write_inv sys_getdent_inv sys_open_inv sys_close_inv
    sys_dup2_inv sys_pipe_inv sys_exit_inv sys_waitpid_inv sched_inv split: if_splits option.splits)

lemma reachable_inv: "(sys_step fo io place put)\<^sup>*\<^sup>* x y \<Longrightarrow> fd_inv (fst x) \<Longrightarrow> fd_inv (fst y)"
  by (induction rule: rtranclp_induct) (auto intro: sys_step_inv)

end

section \<open>Properties\<close>

lemma demo_fd_inv: "fd_inv demo_sys"
proof -
  have none: "\<forall>d \<in> set (fds (ptable demo_sys ! i)). sfile d = None" if "i < PTABLE_SIZE" for i
    using that by (auto simp: demo_slots no_proc_def)
  have "refs demo_sys f = 0" for f
  proof -
    have "cnt f (fds q) = 0" if "q \<in> set (ptable demo_sys)" for q
    proof -
      from that obtain i where "i < PTABLE_SIZE" "q = ptable demo_sys ! i" by (metis in_set_conv_nth demo_len)
      with none show ?thesis by (simp add: cnt_none)
    qed
    then have "map (\<lambda>q. cnt f (fds q)) (ptable demo_sys) = map (\<lambda>_. 0) (ptable demo_sys)" by (intro map_cong) auto
    then show ?thesis by (simp only: refs_def sum_list_0)
  qed
  moreover have "files demo_sys = Map.empty" by (simp add: demo_sys_def)
  ultimately show ?thesis using none demo_ok by (simp add: fd_inv_def sched_ok_def)
qed

lemma demo_cur: "cur_pcb demo_sys = Inr 0" "user_runs demo_sys"
proof -
  have "(0::nat) < PTABLE_SIZE" by (simp add: PTABLE_SIZE_def)
  then show "cur_pcb demo_sys = Inr 0" "user_runs demo_sys"
    by (simp_all add: cur_pcb_def get_pid_def get_pcb_def demo_slots no_proc_def user_runs_def)
qed

text \<open>
  Claim C2. \<open>fork\<close>: as long as a slot of the process table is free, \<open>sys_fork\<close> creates a ready child of
  the caller that has all of its descriptors, changes no other process, and leaves every file with a
  count equal to the number of descriptors that refer to it.
\<close>

theorem fork_shares_descriptors:
  assumes "fd_inv s" "cur_pcb s = Inr old" "k < PTABLE_SIZE" "rs (ptable s ! k) = RS_NOPROC"
  shows "\<exists>n s'. sys_fork s = Inr (Inr (n, s')) \<and> n < PTABLE_SIZE \<and> rs (ptable s ! n) = RS_NOPROC \<and> fd_inv s' \<and>
    acq_depth s' = acq_depth s + 1 \<and> rs (ptable s' ! n) = RS_READY \<and> ppid (ptable s' ! n) = curpid s \<and>
    fds (ptable s' ! n) = fds (ptable s ! old) \<and> ptable s' = (ptable s)[n := ptable s' ! n]"
  by (rule sys_fork_ok [OF assms])

theorem fork_shares_descriptors_witness:
  "\<exists>n s'. sys_fork demo_sys = Inr (Inr (n, s')) \<and> ppid (ptable s' ! n) = 1024 \<and> fd_inv s'"
proof -
  have "(3::nat) < PTABLE_SIZE" by (simp add: PTABLE_SIZE_def)
  moreover from this have "rs (ptable demo_sys ! 3) = RS_NOPROC" by (simp add: demo_slots no_proc_def)
  ultimately show ?thesis using fork_shares_descriptors [OF demo_fd_inv demo_cur(1), of 3] by auto
qed

lemma first_free_only: "i < length ds \<Longrightarrow> sfile (ds ! i) = None \<Longrightarrow> \<forall>j < length ds. j \<noteq> i \<longrightarrow> sfile (ds ! j) \<noteq> None \<Longrightarrow> first_free ds = Some i"
proof (induction ds arbitrary: i)
  case (Cons d ds)
  show ?case
  proof (cases i)
    case (Suc k)
    from Cons.prems(3) Suc have "sfile d \<noteq> None" by fastforce
    moreover have "\<forall>j < length ds. j \<noteq> k \<longrightarrow> sfile (ds ! j) \<noteq> None"
    proof (intro allI impI)
      fix j assume "j < length ds" "j \<noteq> k"
      then show "sfile (ds ! j) \<noteq> None" using Cons.prems(3) [rule_format, of "Suc j"] Suc by simp
    qed
    ultimately show ?thesis using Cons Suc by simp
  qed (use Cons in simp)
qed simp

lemma first_free_full: "\<forall>d \<in> set ds. sfile d \<noteq> None \<Longrightarrow> first_free ds = None"
  by (induction ds) auto

text \<open>
  Claim C30. A defect: when only one descriptor is free, \<open>sys_pipe\<close> returns \<open>- EMFILE\<close> but leaves the first
  descriptor allocated with no operations; a \<open>read\<close> of it follows a null pointer in the kernel.
\<close>

theorem sys_pipe_leaks:
  assumes "fd_inv s" "cur_pcb s = Inr p" "i < MAX_FDS" "sfile (fds (ptable s ! p) ! i) = None"
    "\<forall>j < MAX_FDS. j \<noteq> i \<longrightarrow> sfile (fds (ptable s ! p) ! j) \<noteq> None"
  shows "\<exists>s'. sys_pipe place put m (s, w) = Inr (err EMFILE, None, s', w) \<and> fd_inv s' \<and> sys_read fo (int i) n (s', w) = Inl BadAccess"
proof -
  have pc: "p < PTABLE_SIZE" "p = pid_off (curpid s)" using cur_pcbD [OF assms(2)] by auto
  have rsp: "rs (ptable s ! p) \<noteq> RS_NOPROC" "pid (ptable s ! p) = curpid s"
    using assms(2) by (auto simp: cur_pcb_def get_pcb_def get_pid_def Let_def split: if_splits)
  note len = fd_invD(1) [OF assms(1)] fd_invD(2) [OF assms(1) pc(1)]
  have nd: "\<not> dead (rs (ptable s ! p))"
  proof
    assume "dead (rs (ptable s ! p))"
    then have none: "\<forall>d \<in> set (fds (ptable s ! p)). sfile d = None" using assms(1) pc(1) by (simp add: fd_inv_def)
    obtain j :: nat where "j < MAX_FDS" "j \<noteq> i" using that [of "if i = 0 then 1 else 0"] by (auto simp: MAX_FDS_def split: if_splits)
    with assms(5) none len show False by auto
  qed
  let ?ds = "(fds (ptable s ! p))[i := \<lparr>sfile = Some (next_file s), cloexec = False\<rparr>]"
  obtain fd s1 where a: "alloc_fd p s = (fd, s1)" by fastforce
  have ff: "first_free (fds (ptable s ! p)) = Some i" using assms(3-5) len by (intro first_free_only) auto
  then have fd: "fd = int i" using a by (simp add: alloc_fd_def)
  from assms(1) pc(1) nd a have s1: "fd_inv s1 \<and> fds (ptable s1 ! p) = ?ds \<and> files s1 (next_file s) = Some (null_file\<lparr>refcnt := 1\<rparr>) \<and>
      rs (ptable s1 ! p) = rs (ptable s ! p) \<and> curpid s1 = curpid s \<and> pid (ptable s1 ! p) = pid (ptable s ! p)"
    by (rule alloc_fd_cases) (use fd in auto)
  have "\<forall>d \<in> set ?ds. sfile d \<noteq> None" using assms(3-5) len by (auto simp: in_set_conv_nth nth_list_update)
  from first_free_full [OF this] s1 have "alloc_fd p s1 = (err EMFILE, s1)" by (simp add: alloc_fd_def)
  then have "sys_pipe place put m (s, w) = Inr (err EMFILE, None, s1, w)"
    using assms(2) a fd by (simp add: sys_pipe_def)
  moreover have "cur_pcb s1 = Inr p" using s1 rsp pc by (simp add: cur_pcb_def get_pcb_def get_pid_def)
  with s1 assms(3) len have "sys_read fo (int i) n (s1, w) = Inl BadAccess"
    by (simp add: sys_read_def bad_fd_def fd_file_def null_file_def)
  ultimately show ?thesis using s1 by blast
qed

definition full_fds :: "fd_slot list" where
  "full_fds = replicate 15 \<lparr>sfile = Some 1, cloexec = False\<rparr> @ [\<lparr>sfile = None, cloexec = False\<rparr>]"

definition full_sys :: ksys where
  "full_sys = (upd_pcb 0 (\<lambda>q. q\<lparr>fds := full_fds\<rparr>) demo_sys)\<lparr>files := [1 \<mapsto> null_file\<lparr>refcnt := 15\<rparr>], next_file := 2\<rparr>"

lemma full_fd_inv: "fd_inv full_sys"
proof -
  have p0: "(0::nat) < PTABLE_SIZE" by (simp add: PTABLE_SIZE_def)
  have c: "cnt f full_fds = (if f = 1 then 15 else 0)" for f
    by (simp add: full_fds_def cnt_def numeral_eq_Suc)
  have z: "refs demo_sys f = 0" for f using fd_invD(3) [OF demo_fd_inv, of f] by (simp add: demo_sys_def)
  have refs: "refs full_sys f = (if f = 1 then 15 else 0)" for f
    using refs_upd [of 0 demo_sys "\<lambda>q. q\<lparr>fds := full_fds\<rparr>" f] z p0 cnt_le_refs [of 0 demo_sys f]
    by (simp add: full_sys_def c demo_len)
  have "proc_ok full_sys"
    using demo_ok p0 by (auto simp: sched_ok_def proc_ok_def full_sys_def nth_list_update full_fds_def MAX_FDS_def)
  moreover have "\<forall>d \<in> set (fds (ptable full_sys ! q)). sfile d = None" if "q < PTABLE_SIZE" "dead (rs (ptable full_sys ! q))" for q
    using that p0 by (cases "q = 0") (auto simp: full_sys_def demo_slots demo_len no_proc_def dead_def)
  ultimately show ?thesis unfolding fd_inv_def by (auto simp: refs) (auto simp: full_sys_def split: if_splits)
qed

lemma full_cur: "cur_pcb full_sys = Inr 0" "ptable full_sys ! 0 = no_proc\<lparr>pid := 1024, rs := RS_RUNNING, fds := full_fds\<rparr>"
proof -
  have "(0::nat) < PTABLE_SIZE" by (simp add: PTABLE_SIZE_def)
  then show p: "ptable full_sys ! 0 = no_proc\<lparr>pid := 1024, rs := RS_RUNNING, fds := full_fds\<rparr>"
    by (simp add: full_sys_def demo_slots demo_len)
  then show "cur_pcb full_sys = Inr 0"
    by (simp add: cur_pcb_def get_pid_def get_pcb_def full_sys_def)
qed

theorem sys_pipe_leaks_witness:
  "\<exists>s'. sys_pipe (\<lambda>_. 0) (\<lambda>_ _ w. w) 0 (full_sys, ()) = Inr (err EMFILE, None, s', ()) \<and>
     sys_read (\<lambda>_. no_ops) 15 1 (s', ()) = Inl BadAccess"
proof -
  have "\<forall>j < MAX_FDS. j \<noteq> 15 \<longrightarrow> sfile (full_fds ! j) \<noteq> None" by (simp add: full_fds_def MAX_FDS_def nth_append)
  moreover have "sfile (full_fds ! 15) = None" "(15::nat) < MAX_FDS" by (simp_all add: full_fds_def MAX_FDS_def nth_append)
  ultimately show ?thesis
    using sys_pipe_leaks [OF full_fd_inv full_cur(1), where i = 15 and w = "()" and fo = "\<lambda>_. no_ops" and n = 1] full_cur(2) by fastforce
qed

end
