(* ===== verification/Exec.thy ===== *)
theory Exec
  imports Syscall
begin

unbundle bit_operations_syntax

text \<open>
  Loading a program: \<open>kernel/elf.c\<close>, \<open>sys_exec\<close> of \<open>kernel/syscall.c\<close> and the start of the new program in
  \<open>libc/sys/crt0.s\<close>. The user part of the address space, from \<open>0xc0000000\<close> to \<open>USER_STACK_TOP\<close>, is a
  function from addresses to bytes: a page fault maps a page wherever it is touched
  (\<open>kernel/arch/i686/paging.c\<close>). A write outside of it hits the kernel or its stack and is
  \<open>BadAccess\<close>. The image of the program is the heap buffer the file was read into.
\<close>

section \<open>User memory\<close>

type_synonym umem = "u32 \<Rightarrow> byte"

definition USER_BASE :: u32 where "USER_BASE = 0xc0000000"
definition KERNEL_STACK_SIZE :: u32 where "KERNEL_STACK_SIZE = 4096"
definition KERNEL_STACK_TOP :: u32 where "KERNEL_STACK_TOP = 0xffffffff"
definition USER_STACK_TOP :: u32 where "USER_STACK_TOP = KERNEL_STACK_TOP - KERNEL_STACK_SIZE"

definition store_bytes :: "umem \<Rightarrow> u32 \<Rightarrow> byte list \<Rightarrow> umem" where
  "store_bytes m a bs = (\<lambda>x. if unat (x - a) < length bs then bs ! unat (x - a) else m x)"

definition user_range :: "u32 \<Rightarrow> nat \<Rightarrow> bool" where
  "user_range a n \<longleftrightarrow> USER_BASE \<le> a \<and> unat a + n \<le> unat USER_STACK_TOP"

definition ustore :: "umem \<Rightarrow> u32 \<Rightarrow> byte list \<Rightarrow> kerr + umem" where
  "ustore m a bs = (if bs = [] \<or> user_range a (length bs) then Inr (store_bytes m a bs) else Inl BadAccess)"

text \<open>A little-endian 32-bit value.\<close>

definition le32 :: "u32 \<Rightarrow> byte list" where
  "le32 x = [ucast x, ucast (drop_bit 8 x), ucast (drop_bit 16 x), ucast (drop_bit 24 x)]"

definition of_le :: "byte list \<Rightarrow> u32" where
  "of_le bs = foldr (\<lambda>b acc. ucast b OR push_bit 8 acc) bs 0"

definition load_bytes :: "umem \<Rightarrow> u32 \<Rightarrow> nat \<Rightarrow> byte list" where
  "load_bytes m a n = map (\<lambda>i. m (a + of_nat i)) [0..<n]"

definition load32 :: "umem \<Rightarrow> u32 \<Rightarrow> u32" where
  "load32 m a = of_le (load_bytes m a 4)"

section \<open>The source: ELF files\<close>

text \<open>Fields of \<open>Elf32_Ehdr\<close> and of the \<open>Elf32_Phdr\<close> at offset \<open>ph\<close>, read from the image.\<close>

definition rd_le :: "byte list \<Rightarrow> nat \<Rightarrow> nat \<Rightarrow> kerr + u32" where
  "rd_le b off n = (if off + n \<le> length b then Inr (of_le (take n (drop off b))) else Inl BadAccess)"

definition e_type :: "byte list \<Rightarrow> kerr + u32" where "e_type b = rd_le b 16 2"
definition e_entry :: "byte list \<Rightarrow> kerr + u32" where "e_entry b = rd_le b 24 4"
definition e_phoff :: "byte list \<Rightarrow> kerr + u32" where "e_phoff b = rd_le b 28 4"
definition e_phnum :: "byte list \<Rightarrow> kerr + u32" where "e_phnum b = rd_le b 44 2"

definition PHDR_SIZE :: nat where "PHDR_SIZE = 32"

definition p_type :: "byte list \<Rightarrow> nat \<Rightarrow> kerr + u32" where "p_type b ph = rd_le b ph 4"
definition p_offset :: "byte list \<Rightarrow> nat \<Rightarrow> kerr + u32" where "p_offset b ph = rd_le b (ph + 4) 4"
definition p_vaddr :: "byte list \<Rightarrow> nat \<Rightarrow> kerr + u32" where "p_vaddr b ph = rd_le b (ph + 8) 4"
definition p_filesz :: "byte list \<Rightarrow> nat \<Rightarrow> kerr + u32" where "p_filesz b ph = rd_le b (ph + 16) 4"

definition ELF_NIDENT :: nat where "ELF_NIDENT = 16"
definition ET_EXEC :: u32 where "ET_EXEC = 2"
definition PT_LOAD :: u32 where "PT_LOAD = 1"

definition correct_e_ident :: "byte list" where
  "correct_e_ident = [0x7f, 0x45, 0x4c, 0x46, 1, 1, 1, 0, 0, 0, 0, 0, 0, 0, 0, 0]"

text \<open>\<open>memcmp\<close> reads one byte more than it compares; \<open>after\<close> is the memory behind \<open>correct_e_ident\<close>.\<close>

definition check_elf_header :: "byte list \<Rightarrow> byte list \<Rightarrow> kerr + bool" where
  "check_elf_header after b = kbind (memcmp b (correct_e_ident @ after) ELF_NIDENT) (\<lambda>r. Inr (r = 0))"

fun load_phdrs :: "byte list \<Rightarrow> nat \<Rightarrow> nat \<Rightarrow> umem \<Rightarrow> kerr + umem" where
  "load_phdrs b ph 0 m = Inr m"
| "load_phdrs b ph (Suc n) m =
     kbind (p_type b ph) (\<lambda>t.
     kbind (if t = PT_LOAD
            then
              kbind (p_vaddr b ph) (\<lambda>va.
              kbind (kassert (va \<ge> 0xc0000000)) (\<lambda>_.
              kbind (p_offset b ph) (\<lambda>off.
              kbind (p_filesz b ph) (\<lambda>sz.
              if unat off + unat sz \<le> length b then ustore m va (take (unat sz) (drop (unat off) b)) else Inl BadAccess))))
            else Inr m) (load_phdrs b (ph + PHDR_SIZE) n))"

definition load_elf_file :: "byte list \<Rightarrow> byte list \<Rightarrow> umem \<Rightarrow> kerr + (u32 \<times> umem)" where
  "load_elf_file after b m =
     kbind (check_elf_header after b) (\<lambda>ok.
     kbind (kassert ok) (\<lambda>_.
     kbind (e_type b) (\<lambda>t.
     kbind (kassert (t = ET_EXEC)) (\<lambda>_.
     kbind (e_phoff b) (\<lambda>phoff.
     kbind (e_phnum b) (\<lambda>n.
     kbind (load_phdrs b (unat phoff) (unat n) m) (\<lambda>m'.
     kbind (e_entry b) (\<lambda>entry. Inr (entry, m')))))))))"

section \<open>The source: arguments\<close>

text \<open>
  An argument vector in memory is a list of strings ended by \<open>NULL\<close>; the copies \<open>tmp_argv\<close> of the
  strings are cut at their length.
\<close>

fun copy_argv :: "byte list option list \<Rightarrow> kerr + byte list list" where
  "copy_argv [] = Inl BadAccess"
| "copy_argv (None # ps) = Inr []"
| "copy_argv (Some a # ps) =
     kbind (strlen a) (\<lambda>n. kbind (copy_argv ps) (\<lambda>as. Inr (take (n + 1) a # as)))"

fun push_strings :: "byte list list \<Rightarrow> u32 \<Rightarrow> umem \<Rightarrow> kerr + (u32 list \<times> u32 \<times> umem)" where
  "push_strings [] sp m = Inr ([], sp, m)"
| "push_strings (a # as) sp m =
     (let sp = sp - of_nat (length a) in
      kbind (ustore m sp a) (\<lambda>m.
      kbind (push_strings as sp m) (\<lambda>(ptrs, sp', m). Inr (sp # ptrs, sp', m))))"

definition push_args :: "byte list list \<Rightarrow> umem \<Rightarrow> kerr + (u32 \<times> umem)" where
  "push_args args m =
     kbind (push_strings args USER_STACK_TOP m) (\<lambda>(tmp_argv, sp, m).
     let sp = sp - 4 in
     kbind (ustore m sp (le32 0)) (\<lambda>m.
     let sp = sp - of_nat (4 * length args) in
     kbind (ustore m sp (concat (map le32 tmp_argv))) (\<lambda>m.
     let sp = sp - 4 in
     kbind (ustore m sp (le32 (of_nat (length args)))) (\<lambda>m. Inr (sp, m)))))"

text \<open>What \<open>_start\<close> hands to \<open>main\<close>: \<open>argc\<close> and \<open>argv\<close>.\<close>

definition crt0_start :: "umem \<Rightarrow> u32 \<Rightarrow> u32 \<times> u32" where
  "crt0_start m sp = (load32 m sp, sp + 4)"

section \<open>The source: \<open>sys_exec\<close>\<close>

definition SCBUFF_LEN :: nat where "SCBUFF_LEN = 128"

definition is_script :: "byte list \<Rightarrow> kerr + bool" where
  "is_script b = kbind (rd b 0) (\<lambda>c. if c = 35 then kbind (rd b 1) (\<lambda>d. Inr (d = 33)) else Inr False)"

text \<open>The loop that fills \<open>newargv\<close>.\<close>

fun shift_args :: "nat \<Rightarrow> nat \<Rightarrow> byte list option list \<Rightarrow> byte list option list \<Rightarrow> kerr + byte list option list" where
  "shift_args 0 i argv newargv = Inr newargv"
| "shift_args (Suc n) i argv newargv =
     kbind (rd argv i) (\<lambda>a.
     if a = None then Inr newargv
     else kbind (wr newargv (i + 1) a) (shift_args n (i + 1) argv))"

definition script_args :: "byte list \<Rightarrow> byte list \<Rightarrow> byte list option list option \<Rightarrow> kerr + (byte list \<times> byte list option list)" where
  "script_args sc0 b argv =
     kbind (strtok_r (Some 2) (map of_char '' '' @ [10, 9, 0]) 0 b) (\<lambda>(script, _, b').
     kbind (deref script) (\<lambda>p.
     kbind (strncpy sc0 0 (drop p b') SCBUFF_LEN) (\<lambda>scbuff.
     let newargv = (replicate 128 None)[0 := Some scbuff] in
     kbind (case argv of None \<Rightarrow> Inr newargv | Some ps \<Rightarrow> shift_args 128 0 ps newargv) (\<lambda>newargv.
     Inr (scbuff, newargv)))))"

datatype exec_result = Exec_error int | Enter u32 u32

text \<open>
  \<open>sys_exec\<close>. \<open>f0\<close>, \<open>i0\<close> and \<open>sc0\<close> are what the file, the inode and \<open>scbuff\<close> hold on the stack before they
  are written, \<open>junk n\<close> is a fresh heap block of \<open>n\<close> bytes. Scripts make the function call itself, at most \<open>fuel\<close> times.
\<close>

fun sys_exec :: "nat \<Rightarrow> (fops \<Rightarrow> 'a vfs_scheme file_ops) \<Rightarrow> (fstype \<Rightarrow> 'a vfs_scheme inode_ops) \<Rightarrow> inode \<Rightarrow> kfile \<Rightarrow> byte list \<Rightarrow> byte list \<Rightarrow>
    (nat \<Rightarrow> byte list) \<Rightarrow> byte list option \<Rightarrow> byte list option list option \<Rightarrow> ksys \<times> 'a vfs_scheme \<times> umem \<Rightarrow>
    kerr + (exec_result \<times> ksys \<times> 'a vfs_scheme \<times> umem)" where
  "sys_exec 0 fo io i0 f0 sc0 after junk path argv swm = Inl Spin"
| "sys_exec (Suc fuel) fo io i0 f0 sc0 after junk path argv (s, w, m) =
     kbind (cur_pcb s) (\<lambda>p.
     kbind (release_fds fo cloexec p [0..<MAX_FDS] (s, w)) (\<lambda>(s, w).
     case path of
       None \<Rightarrow> Inr (Exec_error (err EINVAL), s, w, m)
     | Some path \<Rightarrow>
         kbind (fs_lookup io path i0 w) (\<lambda>(e, i, w).
         if e < 0 then Inr (Exec_error e, s, w, m)
         else if \<not> iexec i then Inr (Exec_error (err EACCES), s, w, m)
         else
           kbind (fs_open fo io i f0 0 w) (\<lambda>(e, f, w).
           if e < 0 then Inr (Exec_error e, s, w, m)
           else
             kbind (deref (ffops f)) (\<lambda>op.
             case op_read (fo op) of
               None \<Rightarrow> Inr (Exec_error (err EPERM), s, w, m)
             | Some rd_op \<Rightarrow>
                 let n = unat (word_of_int (fsize f) :: u32) in
                 kbind (rd_op f n w) (\<lambda>(e, bs, f, w).
                 if e < 0 then Inr (Exec_error e, s, w, m)
                 else
                   kbind (memcpy (junk n) 0 bs (length bs)) (\<lambda>b.
                   kbind (close_op fo op f w) (\<lambda>w.
                   kbind (is_script b) (\<lambda>script.
                   if script
                   then kbind (script_args sc0 b argv) (\<lambda>(scbuff, newargv).
                        sys_exec fuel fo io i0 f0 sc0 after junk (Some scbuff) (Some newargv) (s, w, m))
                   else
                     kbind (check_elf_header after b) (\<lambda>ok.
                     if \<not> ok then Inr (Exec_error (err ENOEXEC), s, w, m)
                     else
                       kbind (case argv of None \<Rightarrow> Inr [] | Some ps \<Rightarrow> copy_argv ps) (\<lambda>args.
                       kbind (push_args args m) (\<lambda>(sp, m).
                       kbind (load_elf_file after b m) (\<lambda>(entry, m).
                       Inr (Enter entry sp, s, w, m))))))))))))))"

section \<open>Lemmas on memory\<close>

lemma length_le32 [simp]: "length (le32 x) = 4"
  by (simp add: le32_def)

lemma bit_le_Cons:
  "bit (of_le (b # bs)) n \<longleftrightarrow> (if n < 8 then bit b n else n < 32 \<and> bit (of_le bs) (n - 8))"
proof -
  have "of_le (b # bs) = ucast b OR push_bit 8 (of_le bs)" by (simp add: of_le_def)
  then show ?thesis by (auto simp: bit_or_iff bit_push_bit_iff bit_unsigned_iff dest: bit_imp_le_length)
qed

lemma of_le_le32 [simp]: "of_le (le32 x) = x"
proof (rule bit_word_eqI)
  fix n assume n: "n < LENGTH(32)"
  have "bit (of_le []) k = False" for k by (simp add: of_le_def)
  with n show "bit (of_le (le32 x)) n \<longleftrightarrow> bit x n"
    unfolding le32_def by (simp add: bit_le_Cons bit_unsigned_iff bit_drop_bit_eq) linarith
qed

lemma store_bytes_above: "unat a + length bs \<le> unat x \<Longrightarrow> store_bytes m a bs x = m x"
proof -
  assume "unat a + length bs \<le> unat x"
  then have "unat (x - a) = unat x - unat a" by (simp add: unat_sub word_le_nat_alt)
  with \<open>unat a + length bs \<le> unat x\<close> have "\<not> unat (x - a) < length bs" by linarith
  then show ?thesis by (simp add: store_bytes_def)
qed

lemma store_bytes_below:
  assumes "unat x < unat a" "unat a + length bs \<le> 2 ^ 32"
  shows "store_bytes m a bs x = m x"
proof -
  have "unat (x - a) = 2 ^ 32 - unat a + unat x"
    using assms(1) unat_u32_less [of a] by (simp add: unat_sub_if' word_le_nat_alt)
  with assms have "\<not> unat (x - a) < length bs" by linarith
  then show ?thesis by (simp add: store_bytes_def)
qed

lemma store_bytes_in: "i < length bs \<Longrightarrow> length bs \<le> 2 ^ 32 \<Longrightarrow> store_bytes m a bs (a + of_nat i) = bs ! i"
  by (simp add: store_bytes_def unat_of_nat_u32)

lemma length_load [simp]: "length (load_bytes m a n) = n"
  by (simp add: load_bytes_def)

lemma load_store_same: "length bs \<le> 2 ^ 32 \<Longrightarrow> load_bytes (store_bytes m a bs) a (length bs) = bs"
  by (rule nth_equalityI) (simp_all add: load_bytes_def store_bytes_in)

lemma load_store_part:
  assumes "i + n \<le> length bs" "length bs \<le> 2 ^ 32"
  shows "load_bytes (store_bytes m a bs) (a + of_nat i) n = take n (drop i bs)"
  using assms store_bytes_in [of "i + _" bs m a]
  by (intro nth_equalityI) (simp_all add: load_bytes_def add.assoc)

text \<open>Writes to lower addresses leave what is above.\<close>

lemma unat_add_u32: "unat (a::u32) + i < 2 ^ 32 \<Longrightarrow> unat (a + of_nat i) = unat a + i"
  by (simp add: unat_word_ariths unat_of_nat_u32)

lemma load_store_above:
  assumes "unat a + length bs \<le> unat x" "unat x + n \<le> 2 ^ 32"
  shows "load_bytes (store_bytes m a bs) x n = load_bytes m x n"
  unfolding load_bytes_def using assms by (intro map_cong refl store_bytes_above) (simp add: unat_add_u32)

lemma load_cong: "\<forall>y. unat x \<le> unat y \<longrightarrow> m' y = m y \<Longrightarrow> unat x + n \<le> 2 ^ 32 \<Longrightarrow> load_bytes m' x n = load_bytes m x n"
  unfolding load_bytes_def by (intro map_cong refl) (simp add: unat_add_u32)

section \<open>Arguments on the stack\<close>

definition args_size :: "byte list list \<Rightarrow> nat" where
  "args_size args = sum_list (map length args)"

text \<open>
  Room for the arguments between the start of user memory and a stack pointer. Below \<open>sp\<close> there are
  \<open>n\<close> free bytes.
\<close>

definition room :: "u32 \<Rightarrow> nat \<Rightarrow> bool" where
  "room sp n \<longleftrightarrow> unat USER_BASE + n \<le> unat sp \<and> unat sp \<le> unat USER_STACK_TOP"

lemma unat_bounds: "unat USER_BASE = 0xc0000000" "unat USER_STACK_TOP = 0xffffefff"
  by (simp_all add: USER_BASE_def USER_STACK_TOP_def KERNEL_STACK_TOP_def KERNEL_STACK_SIZE_def)

lemma room_sub: "room sp n \<Longrightarrow> k \<le> n \<Longrightarrow> unat (sp - of_nat k) = unat sp - k"
proof -
  assume r: "room sp n" "k \<le> n"
  then have "k \<le> unat sp" "k < 2 ^ 32" using unat_u32_less [of sp] by (auto simp: room_def)
  then show ?thesis by (simp add: unat_sub word_le_nat_alt unat_of_nat_u32)
qed

lemma ustore_room:
  assumes "room sp n" "length bs \<le> n"
  shows "ustore m (sp - of_nat (length bs)) bs = Inr (store_bytes m (sp - of_nat (length bs)) bs)"
    "room (sp - of_nat (length bs)) (n - length bs)"
    "unat (sp - of_nat (length bs)) + length bs = unat sp"
  using assms room_sub [OF assms]
  by (auto simp: ustore_def user_range_def room_def word_le_nat_alt)

lemma push_strings_ok:
  assumes "room sp n" "args_size args \<le> n"
  shows "\<exists>ptrs m'. push_strings args sp m = Inr (ptrs, sp - of_nat (args_size args), m') \<and> length ptrs = length args \<and>
    room (sp - of_nat (args_size args)) (n - args_size args) \<and>
    (\<forall>y. unat sp \<le> unat y \<longrightarrow> m' y = m y) \<and> (\<forall>y. unat y < unat sp - args_size args \<longrightarrow> m' y = m y) \<and>
    (\<forall>i < length args. unat (sp - of_nat (args_size args)) \<le> unat (ptrs ! i) \<and> unat (ptrs ! i) + length (args ! i) \<le> unat sp \<and>
       load_bytes m' (ptrs ! i) (length (args ! i)) = args ! i)"
  using assms
proof (induction args arbitrary: sp n m)
  case Nil
  then show ?case by (simp add: args_size_def)
next
  case (Cons a as)
  let ?sp = "sp - of_nat (length a)"
  have sz: "args_size (a # as) = length a + args_size as" by (simp add: args_size_def)
  have la: "length a \<le> n" using Cons.prems(2) sz by simp
  note u = ustore_room [OF Cons.prems(1) la]
  let ?m = "store_bytes m ?sp a"
  have "args_size as \<le> n - length a" using Cons.prems(2) sz by simp
  from Cons.IH [OF u(2) this, of ?m] obtain ptrs m' where
    p: "push_strings as ?sp ?m = Inr (ptrs, ?sp - of_nat (args_size as), m')" "length ptrs = length as"
    "room (?sp - of_nat (args_size as)) (n - length a - args_size as)"
    "\<forall>y. unat ?sp \<le> unat y \<longrightarrow> m' y = ?m y" "\<forall>y. unat y < unat ?sp - args_size as \<longrightarrow> m' y = ?m y"
    "\<forall>i < length as. unat (?sp - of_nat (args_size as)) \<le> unat (ptrs ! i) \<and> unat (ptrs ! i) + length (as ! i) \<le> unat ?sp \<and>
       load_bytes m' (ptrs ! i) (length (as ! i)) = as ! i" by blast
  have fin: "?sp - of_nat (args_size as) = sp - of_nat (args_size (a # as))" by (simp add: sz)
  have le: "unat (?sp - of_nat (args_size as)) = unat ?sp - args_size as"
    using room_sub [OF u(2), of "args_size as"] Cons.prems(2) sz by simp
  have top: "unat sp < 2 ^ 32" by (rule unat_u32_less)
  have "load_bytes m' ?sp (length a) = load_bytes ?m ?sp (length a)"
    using p(4) u(3) top by (intro load_cong) auto
  also have "\<dots> = a" using u(3) top by (intro load_store_same) simp
  finally have first: "load_bytes m' ?sp (length a) = a" .
  have above: "m' y = m y" if "unat sp \<le> unat y" for y
    using that p(4) u(3) store_bytes_above [of ?sp a y m] by simp
  have below: "m' y = m y" if "unat y < unat sp - args_size (a # as)" for y
  proof -
    have "unat y < unat ?sp - args_size as" using that u(3) sz by simp
    then show ?thesis using p(5) store_bytes_below [of y ?sp a m] u(3) top by simp
  qed
  have "push_strings (a # as) sp m = Inr (?sp # ptrs, sp - of_nat (args_size (a # as)), m')"
    using u(1) p(1) by (simp add: Let_def fin)
  moreover have "\<forall>i < length (a # as). unat (sp - of_nat (args_size (a # as))) \<le> unat ((?sp # ptrs) ! i) \<and>
      unat ((?sp # ptrs) ! i) + length ((a # as) ! i) \<le> unat sp \<and> load_bytes m' ((?sp # ptrs) ! i) (length ((a # as) ! i)) = (a # as) ! i"
    using p(6) first le u(3) by (auto simp: less_Suc_eq_0_disj fin simp flip: fin)
  ultimately show ?case using p(2,3) above below
    by (intro exI [of _ "?sp # ptrs"] exI [of _ m']) (simp add: fin sz)
qed

lemma length_concat_le32 [simp]: "length (concat (map le32 xs)) = 4 * length xs"
  by (induction xs) simp_all

lemma take_concat_le32: "i < length xs \<Longrightarrow> take 4 (drop (4 * i) (concat (map le32 xs))) = le32 (xs ! i)"
proof (induction xs arbitrary: i)
  case (Cons x xs)
  show ?case
  proof (cases i)
    case (Suc k)
    have "drop (4 * Suc k) (le32 x @ concat (map le32 xs)) = drop (4 * k) (concat (map le32 xs))" by simp
    with Cons Suc show ?thesis by simp
  qed simp
qed simp

text \<open>
  The layout: from the stack pointer up, the number of arguments, the pointers to them, a null
  pointer and the strings.
\<close>

lemma push_args_ok:
  assumes "args_size args + 4 * length args + 8 \<le> 0x3fffefff"
  shows "\<exists>sp m'. push_args args m = Inr (sp, m') \<and> load32 m' sp = of_nat (length args) \<and>
    (\<forall>i < length args. load_bytes m' (load32 m' (sp + 4 + of_nat (4 * i))) (length (args ! i)) = args ! i) \<and>
    load32 m' (sp + 4 + of_nat (4 * length args)) = 0 \<and> (\<forall>y. unat y < unat sp \<longrightarrow> m' y = m y)"
proof -
  define N where "N = args_size args + 4 * length args + 8"
  have r0: "room USER_STACK_TOP N" using assms by (simp add: room_def unat_bounds N_def)
  have sz: "args_size args \<le> N" by (simp add: N_def)
  define sp1 where "sp1 = USER_STACK_TOP - of_nat (args_size args)"
  from push_strings_ok [OF r0 sz, of m] obtain ptrs m1 where
    p: "push_strings args USER_STACK_TOP m = Inr (ptrs, sp1, m1)" "length ptrs = length args" "room sp1 (N - args_size args)"
    "\<forall>y. unat y < unat USER_STACK_TOP - args_size args \<longrightarrow> m1 y = m y"
    "\<forall>i < length args. unat sp1 \<le> unat (ptrs ! i) \<and> unat (ptrs ! i) + length (args ! i) \<le> unat USER_STACK_TOP \<and>
       load_bytes m1 (ptrs ! i) (length (args ! i)) = args ! i" unfolding sp1_def by blast
  have n1: "N - args_size args = 4 * length args + 8" by (simp add: N_def)
  define sp2 m2 where "sp2 = sp1 - 4" and "m2 = store_bytes m1 sp2 (le32 0)"
  have r2: "ustore m1 sp2 (le32 0) = Inr m2" "room sp2 (4 * length args + 4)" "unat sp2 + 4 = unat sp1"
    using ustore_room [OF p(3), of "le32 0"] n1 by (simp_all add: sp2_def m2_def add.commute)
  define vec where "vec = concat (map le32 ptrs)"
  have lv: "length vec = 4 * length args" by (simp add: vec_def p(2))
  define sp3 m3 where "sp3 = sp2 - of_nat (4 * length args)" and "m3 = store_bytes m2 sp3 vec"
  have r3: "ustore m2 sp3 vec = Inr m3" "room sp3 4" "unat sp3 + 4 * length args = unat sp2"
    using ustore_room [OF r2(2), of vec] by (simp_all only: sp3_def m3_def lv) simp_all
  define sp4 m4 where "sp4 = sp3 - 4" and "m4 = store_bytes m3 sp4 (le32 (of_nat (length args)))"
  have r4: "ustore m3 sp4 (le32 (of_nat (length args))) = Inr m4" "unat sp4 + 4 = unat sp3"
    using ustore_room [OF r3(2), of "le32 (of_nat (length args))"] by (simp_all add: sp4_def m4_def)
  have push: "push_args args m = Inr (sp4, m4)"
    using p(1) r2(1) r3(1) r4(1)
    by (simp only: push_args_def Let_def kbind.simps prod.case vec_def sp2_def [symmetric] sp3_def [symmetric] sp4_def [symmetric])
  have top: "unat USER_STACK_TOP < 2 ^ 32" "unat sp1 \<le> unat USER_STACK_TOP" using p(3) by (simp_all add: room_def unat_bounds)
  have argc: "load32 m4 sp4 = of_nat (length args)"
    using load_store_same [of "le32 (of_nat (length args))" m3 sp4] by (simp add: load32_def m4_def)
  have sp3: "sp4 + 4 = sp3" by (simp add: sp4_def)
  have vec4: "load32 m4 (sp3 + of_nat (4 * i)) = ptrs ! i" if i: "i < length args" for i
  proof -
    have "unat (sp3 + of_nat (4 * i)) = unat sp3 + 4 * i" using i r2(3) r3(3) top by (intro unat_add_u32) simp
    then have "load_bytes m4 (sp3 + of_nat (4 * i)) 4 = load_bytes m3 (sp3 + of_nat (4 * i)) 4"
      using i r2(3) r3(3) r4(2) top unfolding m4_def by (intro load_store_above) simp_all
    also have "\<dots> = take 4 (drop (4 * i) vec)"
      unfolding m3_def using i lv r2(3) r3(3) top by (intro load_store_part) simp_all
    finally show ?thesis using i p(2) by (simp add: load32_def vec_def take_concat_le32)
  qed
  have null: "load32 m4 (sp3 + of_nat (4 * length args)) = 0"
  proof -
    have sp2: "sp3 + of_nat (4 * length args) = sp2" by (simp add: sp3_def)
    have "load_bytes m4 sp2 4 = load_bytes m3 sp2 4"
      using r2(3) r3(3) r4(2) top unfolding m4_def by (intro load_store_above) simp_all
    also have "\<dots> = load_bytes m2 sp2 4"
      using r2(3) r3(3) lv top unfolding m3_def by (intro load_store_above) simp_all
    also have "\<dots> = le32 0" using load_store_same [of "le32 0" m1 sp2] by (simp add: m2_def)
    finally show ?thesis unfolding load32_def sp2 by simp
  qed
  have strs: "load_bytes m4 (ptrs ! i) (length (args ! i)) = args ! i" if i: "i < length args" for i
  proof -
    have b: "unat sp1 \<le> unat (ptrs ! i)" "unat (ptrs ! i) + length (args ! i) \<le> unat USER_STACK_TOP" using p(5) i by auto
    have "load_bytes m4 (ptrs ! i) (length (args ! i)) = load_bytes m3 (ptrs ! i) (length (args ! i))"
      using b r2(3) r3(3) r4(2) top unfolding m4_def by (intro load_store_above) simp_all
    also have "\<dots> = load_bytes m2 (ptrs ! i) (length (args ! i))"
      using b r2(3) r3(3) lv top unfolding m3_def by (intro load_store_above) simp_all
    also have "\<dots> = load_bytes m1 (ptrs ! i) (length (args ! i))"
      using b r2(3) top unfolding m2_def by (intro load_store_above) simp_all
    finally show ?thesis using p(5) i by simp
  qed
  have below: "m4 y = m y" if "unat y < unat sp4" for y
    using that p(4) r2(3) r3(3) r4(2) lv top room_sub [OF r0 sz] unfolding m4_def m3_def m2_def
    by (simp add: store_bytes_below sp1_def [symmetric])
  show ?thesis using push argc vec4 null strs below
    by (intro exI [of _ sp4] exI [of _ m4]) (simp add: sp3)
qed

lemma strlen_cstr: "terminated a \<Longrightarrow> strlen a = Inr (length (cstr a))"
  by (induction a) (auto simp: cstr_def)

lemma copy_argv_ok:
  "\<forall>a \<in> set bufs. terminated a \<Longrightarrow> copy_argv (map Some bufs @ None # rest) = Inr (map (\<lambda>a. cstr a @ [0]) bufs)"
proof (induction bufs)
  case (Cons a bufs)
  have "take (length (cstr a) + 1) a = cstr a @ [0]"
    using terminated_decomp [of a] Cons.prems by (metis append_Cons append_Nil append_assoc append_eq_conv_conj length_append_singleton list.set_intros(1) Suc_eq_plus1)
  with Cons show ?case by (simp add: strlen_cstr)
qed simp

section \<open>Executables\<close>

text \<open>
  The reference: an executable with the entry point \<open>entry\<close> and the segments \<open>segs\<close>, each an address and its
  contents, as a linker writes it.
\<close>

type_synonym segments = "(u32 \<times> byte list) list"

definition elf_header :: "u32 \<Rightarrow> nat \<Rightarrow> byte list" where
  "elf_header entry n =
     correct_e_ident @ [2, 0, 3, 0] @ le32 1 @ le32 entry @ le32 52 @ le32 0 @ le32 0 @ [52, 0, 32, 0] @ take 2 (le32 (of_nat n)) @
     [0, 0, 0, 0, 0, 0]"

definition phdr :: "nat \<Rightarrow> u32 \<Rightarrow> nat \<Rightarrow> byte list" where
  "phdr off va n = le32 1 @ le32 (of_nat off) @ le32 va @ le32 va @ le32 (of_nat n) @ le32 (of_nat n) @ le32 5 @ le32 0x1000"

fun phdrs :: "nat \<Rightarrow> segments \<Rightarrow> byte list" where
  "phdrs off [] = []"
| "phdrs off ((va, bs) # segs) = phdr off va (length bs) @ phdrs (off + length bs) segs"

definition elf_image :: "u32 \<Rightarrow> segments \<Rightarrow> byte list" where
  "elf_image entry segs =
     elf_header entry (length segs) @ phdrs (52 + 32 * length segs) segs @ concat (map snd segs)"

fun put_segs :: "segments \<Rightarrow> umem \<Rightarrow> umem" where
  "put_segs [] m = m"
| "put_segs ((va, bs) # segs) m = put_segs segs (store_bytes m va bs)"

fun segs_ok :: "segments \<Rightarrow> bool" where
  "segs_ok [] \<longleftrightarrow> True"
| "segs_ok ((va, bs) # segs) \<longleftrightarrow> user_range va (length bs) \<and>
     (\<forall>s \<in> set segs. unat va + length bs \<le> unat (fst s) \<or> unat (fst s) + length (snd s) \<le> unat va) \<and> segs_ok segs"

lemma length_phdr [simp]: "length (phdr off va n) = 32" "length (phdrs off segs) = 32 * length segs"
proof -
  show l: "length (phdr off va n) = 32" for off va n by (simp add: phdr_def)
  show "length (phdrs off segs) = 32 * length segs"
    by (induction off segs rule: phdrs.induct) (simp_all add: l)
qed

lemma rd_le_drop: "drop ph b = xs @ ys \<Longrightarrow> i + n \<le> length xs \<Longrightarrow> 0 < n \<Longrightarrow> rd_le b (ph + i) n = Inr (of_le (take n (drop i xs)))"
proof -
  assume d: "drop ph b = xs @ ys" "i + n \<le> length xs" "0 < n"
  then have "length b - ph = length xs + length ys" by (metis length_append length_drop)
  moreover have "drop (ph + i) b = drop i xs @ drop (i - length xs) ys"
    using d(1) by (metis add.commute drop_append drop_drop)
  ultimately show ?thesis using d(2,3) by (auto simp: rd_le_def)
qed

lemma phdr_fields:
  assumes "drop ph b = phdr off va n @ ys"
  shows "p_type b ph = Inr PT_LOAD" "p_offset b ph = Inr (of_nat off)" "p_vaddr b ph = Inr va" "p_filesz b ph = Inr (of_nat n)"
  using rd_le_drop [OF assms, of 0 4] rd_le_drop [OF assms, of 4 4] rd_le_drop [OF assms, of 8 4] rd_le_drop [OF assms, of 16 4]
  by (simp_all add: p_type_def p_offset_def p_vaddr_def p_filesz_def phdr_def PT_LOAD_def)

lemma load_phdrs_ok:
  assumes "drop ph b = phdrs off segs @ ys" "drop off b = concat (map snd segs) @ zs" "segs_ok segs" "off \<le> length b" "length b < 2 ^ 32"
  shows "load_phdrs b ph (length segs) m = Inr (put_segs segs m)"
  using assms(1-4)
proof (induction segs arbitrary: ph off m)
  case (Cons seg segs)
  obtain va bs where seg: "seg = (va, bs)" by fastforce
  have f: "p_type b ph = Inr PT_LOAD" "p_offset b ph = Inr (of_nat off)" "p_vaddr b ph = Inr va" "p_filesz b ph = Inr (of_nat (length bs))"
    using phdr_fields [of ph b off va "length bs" "phdrs (off + length bs) segs @ ys"] Cons.prems(1) by (simp_all add: seg)
  have d: "drop (ph + PHDR_SIZE) b = phdrs (off + length bs) segs @ ys" "drop (off + length bs) b = concat (map snd segs) @ zs"
  proof -
    have "drop (ph + PHDR_SIZE) b = drop 32 (drop ph b)" "drop (off + length bs) b = drop (length bs) (drop off b)"
      by (simp_all add: PHDR_SIZE_def add.commute)
    then show "drop (ph + PHDR_SIZE) b = phdrs (off + length bs) segs @ ys" "drop (off + length bs) b = concat (map snd segs) @ zs"
      unfolding Cons.prems(1,2) by (simp_all add: seg)
  qed
  have "length b - off = length bs + length (concat (map snd segs) @ zs)"
    unfolding length_drop [symmetric] Cons.prems(2) by (simp add: seg)
  then have l: "off + length bs \<le> length b" using Cons.prems(4) by linarith
  have t: "take (length bs) (drop off b) = bs" unfolding Cons.prems(2) by (simp add: seg)
  have u: "unat (of_nat off :: u32) = off" "unat (of_nat (length bs) :: u32) = length bs"
    using assms(5) l by (auto intro!: unat_of_nat_u32)
  have "0xc0000000 \<le> va" using Cons.prems(3) by (simp add: seg user_range_def USER_BASE_def)
  moreover have "ustore m va bs = Inr (store_bytes m va bs)" using Cons.prems(3) by (simp add: seg ustore_def)
  ultimately show ?case using f l t u Cons.IH [OF d] Cons.prems(3) by (simp add: seg)
qed simp

lemma load_store_other:
  assumes "unat va + n \<le> unat a \<or> unat a + length bs \<le> unat va" "unat va + n \<le> 2 ^ 32" "unat a + length bs \<le> 2 ^ 32"
  shows "load_bytes (store_bytes m a bs) va n = load_bytes m va n"
  unfolding load_bytes_def
proof (intro map_cong refl)
  fix i assume "i \<in> set [0..<n]"
  then have "unat (va + of_nat i) = unat va + i" using assms(2) by (intro unat_add_u32) simp
  with \<open>i \<in> set [0..<n]\<close> assms show "store_bytes m a bs (va + of_nat i) = m (va + of_nat i)"
    using store_bytes_above [of a bs "va + of_nat i" m] store_bytes_below [of "va + of_nat i" a bs m] by auto
qed

lemma user_range_top: "user_range va n \<Longrightarrow> unat va + n \<le> 2 ^ 32"
  by (simp add: user_range_def unat_bounds)

lemma segs_ok_mem: "segs_ok segs \<Longrightarrow> s \<in> set segs \<Longrightarrow> user_range (fst s) (length (snd s))"
  by (induction segs rule: segs_ok.induct) auto

lemma put_segs_other:
  "segs_ok segs \<Longrightarrow> unat va + n \<le> 2 ^ 32 \<Longrightarrow>
   \<forall>s \<in> set segs. unat va + n \<le> unat (fst s) \<or> unat (fst s) + length (snd s) \<le> unat va \<Longrightarrow>
   load_bytes (put_segs segs m) va n = load_bytes m va n"
proof (induction segs arbitrary: m)
  case (Cons seg segs)
  obtain a bs where seg: "seg = (a, bs)" by fastforce
  with Cons.prems have "load_bytes (store_bytes m a bs) va n = load_bytes m va n"
    by (intro load_store_other) (auto dest: user_range_top)
  with Cons seg show ?case by simp
qed simp

lemma put_segs_loaded:
  "segs_ok segs \<Longrightarrow> s \<in> set segs \<Longrightarrow> load_bytes (put_segs segs m) (fst s) (length (snd s)) = snd s"
proof (induction segs arbitrary: m)
  case (Cons seg segs)
  obtain a bs where seg: "seg = (a, bs)" by fastforce
  show ?case
  proof (cases "s = seg")
    case True
    have r: "user_range a (length bs)" using Cons.prems(1) seg by simp
    have "load_bytes (put_segs segs (store_bytes m a bs)) a (length bs) = load_bytes (store_bytes m a bs) a (length bs)"
      using Cons.prems(1) seg user_range_top [OF r] by (intro put_segs_other) auto
    also have "\<dots> = bs" using user_range_top [OF r] by (intro load_store_same) simp
    finally show ?thesis using True seg by simp
  qed (use Cons seg in auto)
qed simp

lemma elf_fields:
  assumes "n < 2 ^ 16" "b = elf_header entry n @ ys"
  shows "after \<noteq> [] \<Longrightarrow> check_elf_header after b = Inr True" "e_type b = Inr ET_EXEC" "e_phoff b = Inr 52"
    "e_phnum b = Inr (of_nat n)" "e_entry b = Inr entry"
proof -
  show "check_elf_header after b = Inr True" if "after \<noteq> []"
    using that unfolding assms(2) by (cases after) (simp_all add: check_elf_header_def elf_header_def correct_e_ident_def ELF_NIDENT_def)
  have d: "drop 0 b = elf_header entry n @ ys" by (simp add: assms(2))
  have len: "length (elf_header entry n) = 52" by (simp add: elf_header_def correct_e_ident_def)
  have n: "of_le (take 2 (le32 (of_nat n))) = of_nat n"
  proof (rule bit_word_eqI)
    fix k assume k: "k < LENGTH(32)"
    have "bit (of_le []) j = False" for j by (simp add: of_le_def)
    moreover have "\<not> bit (of_nat n :: u32) k" if "16 \<le> k"
    proof -
      have "(2::nat) ^ 16 \<le> 2 ^ k" using that by (intro power_increasing) simp_all
      then have "n div 2 ^ k = 0" using assms(1) by (intro div_less) linarith
      then have "\<not> bit n k" by (simp add: bit_iff_odd)
      then show ?thesis by (simp add: bit_of_nat_iff)
    qed
    ultimately show "bit (of_le (take 2 (le32 (of_nat n)))) k \<longleftrightarrow> bit (of_nat n :: u32) k"
      using k unfolding le32_def by (auto simp: bit_le_Cons bit_unsigned_iff bit_drop_bit_eq numeral_2_eq_2)
  qed
  have two: "of_le [2, 0] = 2" by (simp add: of_le_def)
  show "e_type b = Inr ET_EXEC" "e_phoff b = Inr 52" "e_phnum b = Inr (of_nat n)" "e_entry b = Inr entry"
    using rd_le_drop [OF d, of 16 2] rd_le_drop [OF d, of 28 4] rd_le_drop [OF d, of 44 2] rd_le_drop [OF d, of 24 4] n len two
    by (simp_all add: e_type_def e_phoff_def e_phnum_def e_entry_def elf_header_def correct_e_ident_def ET_EXEC_def)
qed

section \<open>Properties\<close>

text \<open>
  Claim C31. Arguments arrive: the strings of an argument vector that fits above \<open>0xc0000000\<close> are copied by
  \<open>sys_exec\<close> to the top of the user stack, and what \<open>_start\<close> passes to \<open>main\<close> is their number and a vector of
  pointers to exactly these strings, ended by a null pointer. Below the stack pointer memory is
  unchanged.
\<close>

theorem exec_args_roundtrip:
  assumes "\<forall>a \<in> set bufs. terminated a"
    "sum_list (map (\<lambda>a. length (cstr a) + 1) bufs) + 4 * length bufs + 8 \<le> 0x3fffefff"
  shows "\<exists>args sp m' argc argv. copy_argv (map Some bufs @ None # rest) = Inr args \<and> push_args args m = Inr (sp, m') \<and>
    crt0_start m' sp = (argc, argv) \<and> argc = of_nat (length bufs) \<and> load32 m' (argv + of_nat (4 * length bufs)) = 0 \<and>
    (\<forall>i < length bufs. load_bytes m' (load32 m' (argv + of_nat (4 * i))) (length (cstr (bufs ! i)) + 1) = cstr (bufs ! i) @ [0]) \<and>
    (\<forall>y. unat y < unat sp \<longrightarrow> m' y = m y)"
proof -
  let ?args = "map (\<lambda>a. cstr a @ [0]) bufs"
  have "args_size ?args = sum_list (map (\<lambda>a. length (cstr a) + 1) bufs)" by (simp add: args_size_def comp_def)
  then have "args_size ?args + 4 * length ?args + 8 \<le> 0x3fffefff" using assms(2) by simp
  from push_args_ok [OF this, of m] obtain sp m' where
    p: "push_args ?args m = Inr (sp, m')" "load32 m' sp = of_nat (length bufs)"
    "\<forall>i < length bufs. load_bytes m' (load32 m' (sp + 4 + of_nat (4 * i))) (length (?args ! i)) = ?args ! i"
    "load32 m' (sp + 4 + of_nat (4 * length bufs)) = 0" "\<forall>y. unat y < unat sp \<longrightarrow> m' y = m y"
    by (auto simp only: length_map)
  from p(3) have "\<forall>i < length bufs. load_bytes m' (load32 m' (sp + 4 + of_nat (4 * i))) (length (cstr (bufs ! i)) + 1) = cstr (bufs ! i) @ [0]"
    by simp
  with p copy_argv_ok [OF assms(1), of rest] show ?thesis
    by (intro exI [of _ ?args] exI [of _ sp] exI [of _ m'] exI [of _ "load32 m' sp"] exI [of _ "sp + 4"])
      (simp add: crt0_start_def)
qed

theorem exec_args_roundtrip_witness:
  "\<exists>args sp m'. copy_argv [Some (lit ''ls''), Some (lit ''-l''), None] = Inr args \<and> push_args args (\<lambda>_. 0) = Inr (sp, m') \<and>
     load32 m' sp = 2 \<and> load_bytes m' (load32 m' (sp + 4 + 4)) 3 = lit ''-l'' \<and> load32 m' (sp + 4 + 8) = 0"
proof -
  have c: "cstr (lit ''ls'') = [108, 115]" "cstr (lit ''-l'') = [45, 108]" "lit ''-l'' = [45, 108, 0]" by (simp_all add: cstr_def lit_def)
  have "\<forall>a \<in> set [lit ''ls'', lit ''-l'']. terminated a" by (simp add: lit_def)
  moreover have "sum_list (map (\<lambda>a. length (cstr a) + 1) [lit ''ls'', lit ''-l'']) + 4 * length [lit ''ls'', lit ''-l''] + 8 \<le> 0x3fffefff"
    by (simp add: c)
  ultimately obtain args sp m' argc argv where e: "copy_argv (map Some [lit ''ls'', lit ''-l''] @ None # []) = Inr args"
    "push_args args (\<lambda>_. 0) = Inr (sp, m')" "crt0_start m' sp = (argc, argv)" "argc = of_nat (length [lit ''ls'', lit ''-l''])"
    "load32 m' (argv + of_nat (4 * length [lit ''ls'', lit ''-l''])) = 0"
    "\<forall>i < length [lit ''ls'', lit ''-l'']. load_bytes m' (load32 m' (argv + of_nat (4 * i))) (length (cstr ([lit ''ls'', lit ''-l''] ! i)) + 1) =
       cstr ([lit ''ls'', lit ''-l''] ! i) @ [0]"
    using exec_args_roundtrip [of "[lit ''ls'', lit ''-l'']" "[]" "\<lambda>_. 0"] by blast
  have "load_bytes m' (load32 m' (argv + 4)) 3 = lit ''-l''" using e(6) [rule_format, of 1] c by (simp add: numeral_3_eq_3)
  with e(1-5) show ?thesis by (auto simp: crt0_start_def)
qed



text \<open>
  Claim C32. A failed \<open>exec\<close> leaves the calling program intact: whenever \<open>sys_exec\<close> returns an error, through
  any number of script interpreters, no byte of user memory has changed.
\<close>

theorem exec_error_keeps_memory:
  assumes "sys_exec fuel fo io i0 f0 sc0 after junk path argv (s, w, m) = Inr (Exec_error e, s', w', m')"
  shows "m' = m"
  using assms
proof (induction fuel arbitrary: path argv s w)
  case (Suc fuel)
  note IH = Suc.IH
  from Suc.prems show ?case
    by (auto simp: kres Let_def split: option.splits if_splits dest: IH)
qed simp

theorem exec_error_keeps_memory_witness:
  "\<exists>s' w' m'. sys_exec 1 (\<lambda>_. no_ops) (\<lambda>_. \<lparr>reg_ops = Devfs_fops, op_getroot = None, op_lookup = None, op_lookup_all = None, op_creat = None, op_mkdir = None\<rparr>)
     null_inode null_file [] [] (\<lambda>_. []) None None (demo_sys, boot_vfs, \<lambda>_. 7) = Inr (Exec_error (err EINVAL), s', w', m') \<and> m' = (\<lambda>_. 7)"
proof -
  let ?io = "\<lambda>_. \<lparr>reg_ops = Devfs_fops, op_getroot = None, op_lookup = None, op_lookup_all = None, op_creat = None, op_mkdir = None\<rparr>"
  have "sfile (fds (ptable demo_sys ! 0) ! i) = None" if "i < MAX_FDS" for i
  proof -
    have "(0::nat) < PTABLE_SIZE" by (simp add: PTABLE_SIZE_def)
    with that show ?thesis by (simp add: demo_slots no_proc_def)
  qed
  then have "\<forall>i \<in> set is. i < MAX_FDS \<Longrightarrow> release_fds (\<lambda>_. no_ops) cloexec 0 is (demo_sys, boot_vfs) = Inr (demo_sys, boot_vfs)" for "is"
    by (induction "is") (auto simp: Let_def)
  from this [of "[0..<MAX_FDS]"] demo_cur(1)
  have "sys_exec (Suc 0) (\<lambda>_. no_ops) ?io null_inode null_file [] [] (\<lambda>_. []) None None (demo_sys, boot_vfs, \<lambda>_. 7) =
      Inr (Exec_error (err EINVAL), demo_sys, boot_vfs, \<lambda>_. 7)" by simp
  with exec_error_keeps_memory [OF this] show ?thesis by auto
qed

end
