(* ===== verification/Printf.thy ===== *)
theory Printf
  imports CString
begin

unbundle bit_operations_syntax

text \<open>
  Formatted output and numbers: \<open>libc/bits/baseprintf.c\<close>, \<open>libc/stdio/sprintf.c\<close>, \<open>libc/stdlib/atoi.c\<close>.
  A \<open>putfn\<close> gets a character as \<open>int\<close> and converts it back to \<open>char\<close>; it is a function from the byte and a
  state. A \<open>va_list\<close> is the list of its 32-bit slots: \<open>int\<close>, \<open>long\<close> and pointers take one,
  \<open>long long\<close> two, the low half first.
\<close>

section \<open>The source\<close>

datatype va_slot = VWord u32 | VStr "byte list"

fun va_word :: "va_slot list \<Rightarrow> kerr + (u32 \<times> va_slot list)" where
  "va_word (VWord w # ap) = Inr (w, ap)"
| "va_word _ = Inl BadAccess"

fun va_str :: "va_slot list \<Rightarrow> kerr + (byte list \<times> va_slot list)" where
  "va_str (VStr s # ap) = Inr (s, ap)"
| "va_str _ = Inl BadAccess"

text \<open>A \<open>long long\<close>, converted to the parameter type \<open>unsigned long\<close> of \<open>putuint\<close>.\<close>

definition va_llong :: "va_slot list \<Rightarrow> kerr + (u32 \<times> va_slot list)" where
  "va_llong ap =
     kbind (va_word ap) (\<lambda>(lo, ap). kbind (va_word ap) (\<lambda>(hi, ap).
     Inr (ucast (push_bit 32 (ucast hi) OR ucast lo :: u64), ap)))"

fun puts :: "(byte \<Rightarrow> 's \<Rightarrow> kerr + 's) \<Rightarrow> byte list \<Rightarrow> 's \<Rightarrow> kerr + 's" where
  "puts put [] s = Inl BadAccess"
| "puts put (c # str) s = (if c \<noteq> 0 then kbind (put c s) (puts put str) else Inr s)"

function putuintnz :: "(byte \<Rightarrow> 's \<Rightarrow> kerr + 's) \<Rightarrow> u32 \<Rightarrow> 's \<Rightarrow> kerr + 's" where
  "putuintnz put num s =
     (if num \<noteq> 0 then kbind (putuintnz put (num div 10) s) (put (ucast (num mod 10) + 48)) else Inr s)"
  by pat_completeness auto
termination
proof (relation "measure (\<lambda>(put, num, s). unat num)", simp)
  fix put :: "byte \<Rightarrow> 's \<Rightarrow> kerr + 's" and num :: u32 and s :: 's
  assume "num \<noteq> 0"
  then have "unat num div 10 < unat num" by (intro div_less_dividend) (simp_all add: unat_gt_0)
  then show "((put, num div 10, s), put, num, s) \<in> measure (\<lambda>(put, num, s). unat num)" by (simp add: unat_div_distrib)
qed

definition putuint :: "(byte \<Rightarrow> 's \<Rightarrow> kerr + 's) \<Rightarrow> u32 \<Rightarrow> 's \<Rightarrow> kerr + 's" where
  "putuint put num s = (if num = 0 then put 48 s else putuintnz put num s)"

definition putint :: "(byte \<Rightarrow> 's \<Rightarrow> kerr + 's) \<Rightarrow> u32 \<Rightarrow> 's \<Rightarrow> kerr + 's" where
  "putint put num s = (if sint num < 0 then kbind (put 45 s) (putuint put (- num)) else putuint put num s)"

fun puthex_loop :: "nat \<Rightarrow> (byte \<Rightarrow> 's \<Rightarrow> kerr + 's) \<Rightarrow> u32 \<Rightarrow> 's \<Rightarrow> kerr + 's" where
  "puthex_loop 0 put n s = Inr s"
| "puthex_loop (Suc i) put n s =
     (let dig = drop_bit (i * 4) n AND 0xf in
      kbind (put (if dig < 10 then ucast dig + 48 else ucast (dig - 10) + 65) s) (puthex_loop i put n))"

definition puthex :: "(byte \<Rightarrow> 's \<Rightarrow> kerr + 's) \<Rightarrow> u32 \<Rightarrow> 's \<Rightarrow> kerr + 's" where
  "puthex put n s = kbind (put 48 s) (\<lambda>s. kbind (put 120 s) (puthex_loop 8 put n))"

text \<open>The innermost switches: the conversions of \<open>%l\<close> and \<open>%ll\<close>, and of \<open>%\<close> alone.\<close>

definition conv_num :: "(va_slot list \<Rightarrow> kerr + (u32 \<times> va_slot list)) \<Rightarrow> (byte \<Rightarrow> 's \<Rightarrow> kerr + 's) \<Rightarrow> byte \<Rightarrow>
    va_slot list \<Rightarrow> 's \<Rightarrow> kerr + (va_slot list \<times> 's)" where
  "conv_num arg put c ap s =
     (if c = 100 \<or> c = 105 then kbind (arg ap) (\<lambda>(w, ap). kbind (putint put w s) (\<lambda>s. Inr (ap, s)))
      else if c = 117 then kbind (arg ap) (\<lambda>(w, ap). kbind (putuint put w s) (\<lambda>s. Inr (ap, s)))
      else if c = 120 \<or> c = 88 then kbind (arg ap) (\<lambda>(w, ap). kbind (puthex put w s) (\<lambda>s. Inr (ap, s)))
      else Inr (ap, s))"

definition conv :: "(byte \<Rightarrow> 's \<Rightarrow> kerr + 's) \<Rightarrow> byte \<Rightarrow> va_slot list \<Rightarrow> 's \<Rightarrow> kerr + (va_slot list \<times> 's)" where
  "conv put c ap s =
     (if c = 37 then kbind (put c s) (\<lambda>s. Inr (ap, s))
      else if c = 115 then kbind (va_str ap) (\<lambda>(str, ap). kbind (puts put str s) (\<lambda>s. Inr (ap, s)))
      else if c = 99 then kbind (va_word ap) (\<lambda>(w, ap). kbind (put (ucast w) s) (\<lambda>s. Inr (ap, s)))
      else if c = 112 then kbind (va_word ap) (\<lambda>(w, ap). kbind (puthex put w s) (\<lambda>s. Inr (ap, s)))
      else conv_num va_word put c ap s)"

fun base_vprintf :: "(byte \<Rightarrow> 's \<Rightarrow> kerr + 's) \<Rightarrow> byte list \<Rightarrow> va_slot list \<Rightarrow> 's \<Rightarrow> kerr + 's" where
  "base_vprintf put [] ap s = Inl BadAccess"
| "base_vprintf put (c # fmt) ap s =
     (if c = 0 then Inr s
      else if c = 37
      then (case fmt of
              [] \<Rightarrow> Inl BadAccess
            | d # fmt1 \<Rightarrow>
                if d = 108
                then (case fmt1 of
                        [] \<Rightarrow> Inl BadAccess
                      | e # fmt2 \<Rightarrow>
                          if e = 108
                          then (case fmt2 of
                                  [] \<Rightarrow> Inl BadAccess
                                | f # fmt3 \<Rightarrow> kbind (conv_num va_llong put f ap s) (\<lambda>(ap, s). base_vprintf put fmt3 ap s))
                          else kbind (conv_num va_word put e ap s) (\<lambda>(ap, s). base_vprintf put fmt2 ap s))
                else kbind (conv put d ap s) (\<lambda>(ap, s). base_vprintf put fmt1 ap s))
      else kbind (put c s) (base_vprintf put fmt ap))"

text \<open>\<open>sprintf\<close>: the state of \<open>sputc\<close> is the buffer and the position in it.\<close>

definition sputc :: "byte \<Rightarrow> byte list \<times> nat \<Rightarrow> kerr + (byte list \<times> nat)" where
  "sputc c st = (let (buf, i) = st in kbind (wr buf i c) (\<lambda>buf. kbind (wr buf (i + 1) 0) (\<lambda>buf. Inr (buf, i + 1))))"

definition sprintf :: "byte list \<Rightarrow> byte list \<Rightarrow> va_slot list \<Rightarrow> kerr + byte list" where
  "sprintf buf fmt ap = kbind (base_vprintf sputc fmt ap (buf, 0)) (\<lambda>(buf, _). Inr buf)"

fun atou :: "byte list \<Rightarrow> u32 \<Rightarrow> kerr + u32" where
  "atou [] n = Inl BadAccess"
| "atou (c # s) n = (if c \<noteq> 0 then atou s (n * 10 + (char_to_u32 c - 48)) else Inr n)"

definition atoi :: "byte list \<Rightarrow> kerr + u32" where
  "atoi nptr = kbind (rd nptr 0) (\<lambda>c. if c = 45 then kbind (atou (drop 1 nptr) 0) (\<lambda>n. Inr (- n)) else atou nptr 0)"

declare putuintnz.simps [simp del]

section \<open>What the output should be\<close>

fun dec :: "nat \<Rightarrow> byte list" where
  "dec n = (if n < 10 then [of_nat (48 + n)] else dec (n div 10) @ [of_nat (48 + n mod 10)])"

definition dec_int :: "int \<Rightarrow> byte list" where
  "dec_int n = (if n < 0 then 45 # dec (nat (- n)) else dec (nat n))"

definition hex_digit :: "nat \<Rightarrow> byte" where
  "hex_digit d = (if d < 10 then of_nat (48 + d) else of_nat (55 + d))"

definition hex8 :: "nat \<Rightarrow> byte list" where
  "hex8 n = map (\<lambda>i. hex_digit (n div 16 ^ i mod 16)) (rev [0..<8])"

declare dec.simps [simp del]

lemma hex_digit_code:
  assumes "j < 16"
  shows "(if of_nat j < (10::u32) then ucast (of_nat j :: u32) + 48 else ucast (of_nat j - 10 :: u32) + 65) = hex_digit j"
proof -
  have "\<forall>j \<in> set [0..<16]. (if of_nat j < (10::u32) then ucast (of_nat j :: u32) + 48 else ucast (of_nat j - 10 :: u32) + 65) = hex_digit j"
    by (simp add: upt_rec hex_digit_def)
  with assms show ?thesis by simp
qed

text \<open>A format as the list of its parts, each with its argument.\<close>

datatype fmt_item = Lit byte | Percent | Dec bool u32 | Udec bool u32 | Hex bool u32 | Ptr u32 | Chr u32 | Str "byte list"

definition long_fmt :: "bool \<Rightarrow> byte \<Rightarrow> byte list" where
  "long_fmt l c = (if l then [37, 108, c] else [37, c])"

fun item_fmt :: "fmt_item \<Rightarrow> byte list" where
  "item_fmt (Lit c) = [c]"
| "item_fmt Percent = [37, 37]"
| "item_fmt (Dec l w) = long_fmt l 105"
| "item_fmt (Udec l w) = long_fmt l 117"
| "item_fmt (Hex l w) = long_fmt l 120"
| "item_fmt (Ptr w) = [37, 112]"
| "item_fmt (Chr w) = [37, 99]"
| "item_fmt (Str str) = [37, 115]"

fun item_args :: "fmt_item \<Rightarrow> va_slot list" where
  "item_args (Dec l w) = [VWord w]"
| "item_args (Udec l w) = [VWord w]"
| "item_args (Hex l w) = [VWord w]"
| "item_args (Ptr w) = [VWord w]"
| "item_args (Chr w) = [VWord w]"
| "item_args (Str str) = [VStr str]"
| "item_args _ = []"

fun item_out :: "fmt_item \<Rightarrow> byte list" where
  "item_out (Lit c) = [c]"
| "item_out Percent = [37]"
| "item_out (Dec l w) = dec_int (sint w)"
| "item_out (Udec l w) = dec (unat w)"
| "item_out (Hex l w) = [48, 120] @ hex8 (unat w)"
| "item_out (Ptr w) = [48, 120] @ hex8 (unat w)"
| "item_out (Chr w) = [ucast w]"
| "item_out (Str str) = cstr str"

fun item_ok :: "fmt_item \<Rightarrow> bool" where
  "item_ok (Lit c) \<longleftrightarrow> c \<noteq> 0 \<and> c \<noteq> 37"
| "item_ok (Str str) \<longleftrightarrow> terminated str"
| "item_ok _ \<longleftrightarrow> True"

definition fmt_string :: "fmt_item list \<Rightarrow> byte list" where
  "fmt_string its = concat (map item_fmt its) @ [0]"

definition fmt_args :: "fmt_item list \<Rightarrow> va_slot list" where
  "fmt_args its = concat (map item_args its)"

definition fmt_out :: "fmt_item list \<Rightarrow> byte list" where
  "fmt_out its = concat (map item_out its)"

section \<open>Where the output goes\<close>

text \<open>
  An action that appends \<open>bs\<close> to what has been written so far, \<open>out s\<close>. \<open>fits s n\<close> says that \<open>n\<close> more characters
  fit, \<open>ok\<close> is an invariant of the destination.
\<close>

definition appends :: "('s \<Rightarrow> bool) \<Rightarrow> ('s \<Rightarrow> byte list) \<Rightarrow> ('s \<Rightarrow> nat \<Rightarrow> bool) \<Rightarrow> byte list \<Rightarrow> ('s \<Rightarrow> kerr + 's) \<Rightarrow> bool" where
  "appends ok out fits bs f \<longleftrightarrow>
     (\<forall>s n. ok s \<and> fits s (length bs + n) \<longrightarrow> (\<exists>s'. f s = Inr s' \<and> ok s' \<and> out s' = out s @ bs \<and> fits s' n))"

text \<open>
  The contract of a \<open>putfn\<close>: while there is room it appends the character to what has been written.
\<close>

locale sink =
  fixes put :: "byte \<Rightarrow> 's \<Rightarrow> kerr + 's" and ok :: "'s \<Rightarrow> bool" and out :: "'s \<Rightarrow> byte list" and fits :: "'s \<Rightarrow> nat \<Rightarrow> bool"
  assumes put_ok: "ok s \<Longrightarrow> fits s (Suc n) \<Longrightarrow> \<exists>s'. put c s = Inr s' \<and> ok s' \<and> out s' = out s @ [c] \<and> fits s' n"
begin

abbreviation writes :: "byte list \<Rightarrow> ('s \<Rightarrow> kerr + 's) \<Rightarrow> bool" where
  "writes \<equiv> appends ok out fits"

lemma writes_put: "writes [c] (put c)"
  using put_ok [of _ _ c] by (simp add: appends_def)

lemma writes_Nil: "writes [] Inr"
  by (simp add: appends_def)

lemma writes_bind:
  assumes "writes xs f" "writes ys g"
  shows "writes (xs @ ys) (\<lambda>s. kbind (f s) g)"
  unfolding appends_def
proof (intro allI impI)
  fix s n assume s: "ok s \<and> fits s (length (xs @ ys) + n)"
  then have "fits s (length xs + (length ys + n))" by (simp add: add.assoc)
  with s assms(1) obtain s1 where 1: "f s = Inr s1" "ok s1" "out s1 = out s @ xs" "fits s1 (length ys + n)"
    unfolding appends_def by blast
  with assms(2) obtain s2 where "g s1 = Inr s2" "ok s2" "out s2 = out s1 @ ys" "fits s2 n" unfolding appends_def by blast
  with 1 show "\<exists>s'. kbind (f s) g = Inr s' \<and> ok s' \<and> out s' = out s @ xs @ ys \<and> fits s' n" by simp
qed

lemma writes_Cons: "writes ys g \<Longrightarrow> writes (c # ys) (\<lambda>s. kbind (put c s) g)"
  using writes_bind [OF writes_put] by simp

lemma writes_puts: "terminated str \<Longrightarrow> writes (cstr str) (puts put str)"
proof (induction str)
  case (Cons c str)
  show ?case
  proof (cases "c = 0")
    case True
    then have "puts put (c # str) = Inr" by (simp add: fun_eq_iff)
    with True show ?thesis by (simp add: cstr_def writes_Nil)
  next
    case False
    then have "puts put (c # str) = (\<lambda>s. kbind (put c s) (puts put str))" by (simp add: fun_eq_iff)
    with False Cons writes_Cons show ?thesis by (simp add: cstr_def)
  qed
qed simp

lemma writes_putuintnz: "num \<noteq> 0 \<Longrightarrow> writes (dec (unat num)) (putuintnz put num)"
proof (induction num rule: measure_induct_rule [of unat])
  case (less num)
  have d: "unat (num div 10) = unat num div 10" "unat (num mod 10) = unat num mod 10"
    by (simp_all add: unat_div_distrib unat_mod_distrib)
  have c: "ucast (num mod 10) + 48 = (of_nat (48 + unat num mod 10) :: byte)"
    using d(2) by (metis add.commute of_nat_add of_nat_numeral of_nat_unat)
  have eq: "putuintnz put num = (\<lambda>s. kbind (putuintnz put (num div 10) s) (put (of_nat (48 + unat num mod 10))))"
    using less.prems by (auto simp: fun_eq_iff putuintnz.simps [of put num] c)
  show ?case
  proof (cases "unat num < 10")
    case True
    then have "num div 10 = 0" by (simp add: word_unat_eq_iff d)
    then have "putuintnz put num = put (of_nat (48 + unat num))"
      using eq True by (simp add: fun_eq_iff putuintnz.simps [of put 0])
    with True show ?thesis using writes_put by (simp add: dec.simps [of "unat num"])
  next
    case False
    then have "num div 10 \<noteq> 0" "unat (num div 10) < unat num" using d by (auto simp: word_unat_eq_iff)
    from writes_bind [OF less.IH [OF this(2,1)] writes_put] show ?thesis
      unfolding eq using False d by (simp add: dec.simps [of "unat num"])
  qed
qed

lemma writes_putuint: "writes (dec (unat num)) (putuint put num)"
proof (cases "num = 0")
  case True
  then have "putuint put num = put 48" by (simp add: fun_eq_iff putuint_def)
  with True show ?thesis using writes_put [of 48] by (simp add: dec.simps [of 0])
next
  case False
  then have "putuint put num = putuintnz put num" by (simp add: fun_eq_iff putuint_def)
  with writes_putuintnz [OF False] show ?thesis by simp
qed

lemma writes_putint: "writes (dec_int (sint num)) (putint put num)"
proof (cases "sint num < 0")
  case True
  then have "putint put num = (\<lambda>s. kbind (put 45 s) (putuint put (- num)))" by (simp add: fun_eq_iff putint_def)
  moreover have "unat (- num) = nat (- sint num)"
  proof -
    have b: "- sint num < 2 ^ LENGTH(32)" "0 \<le> - sint num" using True sint_ge [of num] by simp_all
    have "- num = word_of_int (- sint num)" by simp
    then have "uint (- num) = (- sint num) mod 2 ^ LENGTH(32)" by (simp only: uint_word_of_int)
    also have "\<dots> = - sint num" using b by (intro mod_pos_pos_trivial)
    finally show ?thesis by (metis nat_uint_eq)
  qed
  ultimately show ?thesis using writes_Cons [OF writes_putuint [of "- num"], of 45] True by (simp add: dec_int_def)
next
  case False
  then have "putint put num = putuint put num" by (simp add: fun_eq_iff putint_def)
  moreover have "nat (sint num) = unat num"
  proof -
    have b: "sint num < 2 ^ LENGTH(32)" "0 \<le> sint num" using False sint_less [of num] by simp_all
    have "num = word_of_int (sint num)" by simp
    then have "uint num = sint num mod 2 ^ LENGTH(32)" by (metis uint_word_of_int)
    also have "\<dots> = sint num" using b by (intro mod_pos_pos_trivial)
    finally show ?thesis by (metis nat_uint_eq)
  qed
  ultimately show ?thesis using writes_putuint False by (simp add: dec_int_def)
qed

lemma writes_puthex_loop: "writes (map (\<lambda>i. hex_digit (unat n div 16 ^ i mod 16)) (rev [0..<k])) (puthex_loop k put n)"
proof (induction k)
  case 0
  have "puthex_loop 0 put n = Inr" by (simp add: fun_eq_iff)
  then show ?case using writes_Nil by simp
next
  case (Suc k)
  define d where "d = drop_bit (k * 4) n AND 0xf"
  have "d = take_bit 4 (drop_bit (k * 4) n)" by (simp add: d_def take_bit_eq_mask mask_eq_decr_exp)
  then have "unat d = take_bit 4 (drop_bit (k * 4) (unat n))" by (simp only: unsigned_take_bit_eq unat_drop_bit_eq)
  then have ud: "unat d = unat n div 16 ^ k mod 16"
    by (simp add: drop_bit_eq_div take_bit_eq_mod power_mult mult.commute [of k])
  then have "unat d < 16" by simp
  then have "(if d < 10 then ucast d + 48 else ucast (d - 10) + 65) = hex_digit (unat d)"
    using hex_digit_code [of "unat d"] by (simp only: of_nat_unat ucast_id)
  then have "puthex_loop (Suc k) put n = (\<lambda>s. kbind (put (hex_digit (unat n div 16 ^ k mod 16)) s) (puthex_loop k put n))"
    by (simp add: fun_eq_iff Let_def d_def [symmetric] ud)
  with writes_Cons [OF Suc] show ?case by simp
qed

lemma writes_puthex: "writes ([48, 120] @ hex8 (unat n)) (puthex put n)"
proof -
  have "puthex put n = (\<lambda>s. kbind (put 48 s) (\<lambda>s. kbind (put 120 s) (puthex_loop 8 put n)))" by (simp add: fun_eq_iff puthex_def)
  then show ?thesis using writes_Cons [OF writes_Cons [OF writes_puthex_loop [of n 8]]] by (simp add: hex8_def)
qed

text \<open>One part of a format.\<close>

lemma writes_item:
  assumes "item_ok it"
  shows "\<exists>g. writes (item_out it) g \<and> (\<forall>s. base_vprintf put (item_fmt it @ fmt) (item_args it @ ap) s = kbind (g s) (base_vprintf put fmt ap))"
proof (cases it)
  case (Lit c)
  then show ?thesis using assms writes_put [of c] by (intro exI [of _ "put c"]) simp
next
  case Percent
  then show ?thesis using writes_put [of 37] by (intro exI [of _ "put 37"]) (simp add: conv_def kbind_assoc)
next
  case (Dec l w)
  then show ?thesis using writes_putint
    by (intro exI [of _ "putint put w"]) (simp add: long_fmt_def conv_def conv_num_def kbind_assoc)
next
  case (Udec l w)
  then show ?thesis using writes_putuint
    by (intro exI [of _ "putuint put w"]) (simp add: long_fmt_def conv_def conv_num_def kbind_assoc)
next
  case (Hex l w)
  then show ?thesis using writes_puthex
    by (intro exI [of _ "puthex put w"]) (simp add: long_fmt_def conv_def conv_num_def kbind_assoc)
next
  case (Ptr w)
  then show ?thesis using writes_puthex by (intro exI [of _ "puthex put w"]) (simp add: conv_def kbind_assoc)
next
  case (Chr w)
  then show ?thesis using writes_put by (intro exI [of _ "put (ucast w)"]) (simp add: conv_def kbind_assoc)
next
  case (Str str)
  then show ?thesis using assms writes_puts by (intro exI [of _ "puts put str"]) (simp add: conv_def kbind_assoc)
qed

lemma vprintf_writes: "\<forall>it \<in> set its. item_ok it \<Longrightarrow> writes (fmt_out its) (base_vprintf put (fmt_string its) (fmt_args its @ ap))"
proof (induction its)
  case Nil
  have "base_vprintf put (fmt_string []) (fmt_args [] @ ap) = Inr" by (simp add: fun_eq_iff fmt_string_def)
  then show ?case using writes_Nil by (simp add: fmt_out_def)
next
  case (Cons it its)
  from Cons.prems have "item_ok it" by simp
  from writes_item [OF this] obtain g where g: "writes (item_out it) g"
    "\<And>s. base_vprintf put (item_fmt it @ fmt_string its) (item_args it @ fmt_args its @ ap) s =
       kbind (g s) (base_vprintf put (fmt_string its) (fmt_args its @ ap))" by blast
  then have "base_vprintf put (fmt_string (it # its)) (fmt_args (it # its) @ ap) =
      (\<lambda>s. kbind (g s) (base_vprintf put (fmt_string its) (fmt_args its @ ap)))"
    by (simp add: fun_eq_iff fmt_string_def fmt_args_def)
  with writes_bind [OF g(1) Cons.IH] Cons.prems show ?case by (simp add: fmt_out_def)
qed

end

section \<open>Strings in a buffer\<close>

text \<open>
  The characters before the position, and how many more fit in front of the final NUL, which follows
  them as soon as there is one.
\<close>

definition sput_inv :: "byte list \<times> nat \<Rightarrow> bool" where
  "sput_inv st \<longleftrightarrow> 0 < snd st \<longrightarrow> snd st < length (fst st) \<and> fst st ! snd st = 0"

definition sput_out :: "byte list \<times> nat \<Rightarrow> byte list" where
  "sput_out st = take (snd st) (fst st)"

definition sput_fits :: "byte list \<times> nat \<Rightarrow> nat \<Rightarrow> bool" where
  "sput_fits st n \<longleftrightarrow> snd st + n < length (fst st)"

interpretation sput: sink sputc sput_inv sput_out sput_fits
proof
  fix s :: "byte list \<times> nat" and c n
  assume "sput_fits s (Suc n)"
  then show "\<exists>s'. sputc c s = Inr s' \<and> sput_inv s' \<and> sput_out s' = sput_out s @ [c] \<and> sput_fits s' n"
    by (cases s) (auto simp: sputc_def sput_inv_def sput_out_def sput_fits_def take_Suc_conv_app_nth)
qed

text \<open>
  The buffer after \<open>sprintf\<close> holds the output as a string. (An empty output does not even terminate
  the buffer.)
\<close>

lemma sprintf_ok:
  assumes "\<forall>it \<in> set its. item_ok it" "length (fmt_out its) < length buf" "fmt_out its \<noteq> []" "0 \<notin> set (fmt_out its)"
  shows "\<exists>buf'. sprintf buf (fmt_string its) (fmt_args its) = Inr buf' \<and> cstr buf' = fmt_out its \<and> terminated buf'"
proof -
  have "sput_fits (buf, 0) (length (fmt_out its) + 0)" "sput_inv (buf, 0)" using assms(2) by (simp_all add: sput_fits_def sput_inv_def)
  with sput.vprintf_writes [OF assms(1), of "[]", unfolded appends_def, THEN spec, THEN spec, of "(buf, 0)" 0] obtain st where st: "base_vprintf sputc (fmt_string its) (fmt_args its) (buf, 0) = Inr st"
    "sput_inv st" "sput_out st = fmt_out its" by (auto simp: sput_out_def)
  obtain buf' i where i: "st = (buf', i)" by fastforce
  have "0 < i" using st(3) assms(3) i by (cases i) (auto simp: sput_out_def)
  then have n: "i < length buf'" "buf' ! i = 0" "take i buf' = fmt_out its" using st(2,3) i by (simp_all add: sput_inv_def sput_out_def)
  then have "buf' = fmt_out its @ 0 # drop (Suc i) buf'" by (metis id_take_nth_drop)
  moreover have "cstr (fmt_out its @ 0 # drop (Suc i) buf') = fmt_out its" "terminated (fmt_out its @ 0 # drop (Suc i) buf')"
    using assms(4) by (simp_all add: cstr_append terminated_def)
  ultimately have "cstr buf' = fmt_out its" "terminated buf'" by simp_all
  with st(1) i show ?thesis by (simp add: sprintf_def)
qed

section \<open>Reading numbers back\<close>

lemma digit_char:
  assumes "d < 10"
  shows "(of_nat (48 + d) :: byte) \<noteq> 0 \<and> (of_nat (48 + d) :: byte) \<noteq> 45 \<and> char_to_u32 (of_nat (48 + d)) - 48 = of_nat d"
proof -
  have "\<forall>d \<in> set [0..<10]. (of_nat (48 + d) :: byte) \<noteq> 0 \<and> (of_nat (48 + d) :: byte) \<noteq> 45 \<and> char_to_u32 (of_nat (48 + d)) - 48 = of_nat d"
    by (simp add: upt_rec)
  with assms show ?thesis by simp
qed

lemma atou_dec: "atou (dec n @ ys) a = atou ys (a * 10 ^ length (dec n) + of_nat n)"
proof (induction n arbitrary: a ys rule: dec.induct)
  case (1 n)
  show ?case
  proof (cases "n < 10")
    case True
    then show ?thesis using digit_char [OF True] by (simp add: dec.simps [of n])
  next
    case False
    have d: "n mod 10 < 10" by simp
    have n: "of_nat n = (of_nat (n div 10) * 10 + of_nat (n mod 10) :: u32)"
      by (metis div_mult_mod_eq of_nat_add of_nat_mult of_nat_numeral)
    have "atou (dec n @ ys) a = atou (dec (n div 10) @ [of_nat (48 + n mod 10)] @ ys) a" using False by (simp add: dec.simps [of n])
    also have "\<dots> = atou ([of_nat (48 + n mod 10)] @ ys) (a * 10 ^ length (dec (n div 10)) + of_nat (n div 10))"
      using 1 [OF False, of "[of_nat (48 + n mod 10)] @ ys" a] .
    also have "\<dots> = atou ys ((a * 10 ^ length (dec (n div 10)) + of_nat (n div 10)) * 10 + of_nat (n mod 10))"
      using digit_char [OF d] by simp
    also have "(a * 10 ^ length (dec (n div 10)) + of_nat (n div 10)) * 10 + of_nat (n mod 10) = a * 10 ^ length (dec n) + of_nat n"
      using False by (simp add: dec.simps [of n] n algebra_simps)
    finally show ?thesis .
  qed
qed

lemma dec_chars: "c \<in> set (dec n) \<Longrightarrow> c \<noteq> 0 \<and> c \<noteq> 45"
proof (induction n rule: dec.induct)
  case (1 n)
  then show ?case using digit_char [of "n mod 10"] digit_char [of n]
    by (cases "n < 10") (auto simp: dec.simps [of n])
qed

lemma dec_nonempty: "dec n \<noteq> []"
  by (subst dec.simps) simp

lemma length_dec: "n < 10 ^ k \<Longrightarrow> 0 < k \<Longrightarrow> length (dec n) \<le> k"
proof (induction n arbitrary: k rule: dec.induct)
  case (1 n)
  show ?case
  proof (cases "n < 10")
    case False
    then have "k \<noteq> 1" using 1(2) by auto
    then have "1 < k" using 1(3) by simp
    then obtain j where j: "k = Suc j" "0 < j" by (cases k) auto
    then have "n div 10 < 10 ^ j" using 1(2) by (simp add: less_mult_imp_div_less mult.commute)
    with 1(1) [OF False this j(2)] j False show ?thesis by (simp add: dec.simps [of n])
  qed (use 1 in \<open>simp add: dec.simps [of n]\<close>)
qed

lemma atoi_dec_int:
  assumes "cstr buf = dec_int (sint w)" "terminated buf"
  shows "atoi buf = Inr w"
proof -
  obtain r where b: "buf = dec_int (sint w) @ 0 # r" using terminated_decomp [OF assms(2)] assms(1) by metis
  show ?thesis
  proof (cases "sint w < 0")
    case True
    then have "atoi buf = kbind (atou (dec (nat (- sint w)) @ 0 # r) 0) (\<lambda>n. Inr (- n))" by (simp add: b dec_int_def atoi_def)
    also have "\<dots> = Inr (- of_nat (nat (- sint w)))" by (simp add: atou_dec)
    also have "- of_nat (nat (- sint w)) = w" using True by (simp add: of_nat_nat)
    finally show ?thesis .
  next
    case False
    let ?d = "dec (nat (sint w))"
    have "?d ! 0 \<noteq> 45" using dec_chars dec_nonempty by (metis length_greater_0_conv nth_mem)
    then have "atoi buf = atou (?d @ 0 # r) 0" using False dec_nonempty by (simp add: b dec_int_def atoi_def nth_append)
    also have "\<dots> = Inr (of_nat (nat (sint w)))" by (simp add: atou_dec)
    also have "of_nat (nat (sint w)) = w" using False by (simp add: of_nat_nat)
    finally show ?thesis .
  qed
qed

section \<open>Properties\<close>





text \<open>The parameters of \<open>putint\<close> and \<open>putuint\<close> are \<open>long\<close>: only the low half of a \<open>long long\<close> is printed.\<close>

lemma printf_ll_truncates:
  "base_vprintf put (37 # 108 # 108 # 117 # fmt) (VWord lo # VWord hi # ap) s = kbind (putuint put lo s) (base_vprintf put fmt ap)"
proof -
  have "ucast (push_bit 32 (ucast hi) OR ucast lo :: u64) = lo"
    by (rule bit_word_eqI) (auto simp: bit_simps)
  then show ?thesis by (simp add: conv_num_def va_llong_def kbind_assoc)
qed

end
