(* ===== verification/Ansi.thy ===== *)
theory Ansi
  imports Printf Kernel_Types "HOL-Library.Signed_Division"
begin

unbundle bit_operations_syntax

text \<open>
  The terminal emulator of \<open>kernel/device/tty/ansiseq.c\<close>: it parses escape sequences and keeps the cursor,
  and draws through the operations of a \<open>struct ansi_backend\<close>. \<open>'b\<close> is the state of the backend. The answer
  to a status request, which the code passes to \<open>petix_tty_input_seq\<close>, is part of the result.
\<close>

section \<open>The source\<close>

definition ANSI_BLACK :: int where "ANSI_BLACK = 0"
definition ANSI_WHITE :: int where "ANSI_WHITE = 7"
definition ANSI_DEFAULT :: int where "ANSI_DEFAULT = 9"

text \<open>The colours and the flags; \<open>na_1\<close> is bit 0, \<open>bold\<close> bit 1, \<open>negative\<close> bit 7.\<close>

record ansi_rendition =
  rfg :: int
  rbg :: int
  rbits :: byte

definition rbold :: "ansi_rendition \<Rightarrow> bool" where "rbold r \<longleftrightarrow> bit (rbits r) 1"
definition rnegative :: "ansi_rendition \<Rightarrow> bool" where "rnegative r \<longleftrightarrow> bit (rbits r) 7"

record 'b ansi_backend =
  b_putch :: "ansi_rendition \<Rightarrow> byte \<Rightarrow> int \<Rightarrow> int \<Rightarrow> 'b \<Rightarrow> kerr + 'b"
  b_curto :: "int \<Rightarrow> int \<Rightarrow> 'b \<Rightarrow> kerr + 'b"
  b_scroll_up :: "'b \<Rightarrow> kerr + 'b"
  row_n :: int
  col_n :: int

datatype ansi_state = ANSI_S_NONE | ANSI_S_ESC | ANSI_S_ESC_LBRAK

record ansi_term =
  trow :: int
  tcol :: int
  numerics :: "u32 list"
  noff :: nat
  nump :: bool
  astate :: ansi_state
  rendition :: ansi_rendition

definition ansi_clear :: "'b ansi_backend \<Rightarrow> ansi_rendition \<Rightarrow> 'b \<Rightarrow> kerr + 'b" where
  "ansi_clear be r b =
     for_each (\<lambda>(y, x). b_putch be r 32 y x)
       (concat (map (\<lambda>y. map (\<lambda>x. (y, x)) [0..col_n be - 1]) [0..row_n be - 1])) b"

text \<open>
  \<open>ansi_init\<close>: \<open>sizeof(term)\<close> is the size of the pointer, so \<open>memset\<close> clears only the first field.
\<close>

definition ansi_init :: "'b ansi_backend \<Rightarrow> ansi_term \<Rightarrow> 'b \<Rightarrow> kerr + (ansi_term \<times> 'b)" where
  "ansi_init be t b =
     (let t = t\<lparr>trow := 0, astate := ANSI_S_NONE, rendition := (rendition t)\<lparr>rfg := ANSI_DEFAULT, rbg := ANSI_DEFAULT\<rparr>\<rparr>
      in kbind (ansi_clear be (rendition t) b) (\<lambda>b. Inr (t, b)))"

text \<open>The end of \<open>putch_unesc\<close>: scroll when the cursor has left the last line, and move the cursor.\<close>

definition unesc_finish :: "'b ansi_backend \<Rightarrow> ansi_term \<times> 'b \<Rightarrow> kerr + (ansi_term \<times> 'b)" where
  "unesc_finish be tb =
     (let (t, b) = tb in
      kbind (if trow t = row_n be
             then kbind (b_scroll_up be b) (\<lambda>b. Inr (t\<lparr>trow := trow t - 1\<rparr>, b)) else Inr (t, b)) (\<lambda>(t, b).
      kbind (b_curto be (trow t) (tcol t) b) (\<lambda>b. Inr (t, b))))"

definition putch_unesc :: "'b ansi_backend \<Rightarrow> byte \<Rightarrow> ansi_term \<times> 'b \<Rightarrow> kerr + (ansi_term \<times> 'b)" where
  "putch_unesc be ch tb =
     (let (t, b) = tb in
      kbind (if ch = 10 then Inr (t\<lparr>trow := trow t + 1, tcol := 0\<rparr>, b)
             else if ch = 13 then Inr (t\<lparr>tcol := 0\<rparr>, b)
             else if ch = 9 then Inr (t\<lparr>tcol := tcol t + 8\<rparr>, b)
             else if ch = 8
             then let t = t\<lparr>tcol := tcol t - 1\<rparr>;
                      t = (if tcol t = - 1 then t\<lparr>tcol := col_n be - 1, trow := trow t - 1\<rparr> else t)
                  in kbind (b_putch be (rendition t) 32 (trow t) (tcol t) b) (\<lambda>b. Inr (t, b))
             else kbind (b_putch be (rendition t) ch (trow t) (tcol t) b) (\<lambda>b.
                  let t = t\<lparr>tcol := tcol t + 1\<rparr>
                  in Inr (if tcol t = col_n be then t\<lparr>tcol := 0, trow := trow t + 1\<rparr> else t, b)))
        (unesc_finish be))"

text \<open>One round of \<open>process_rendition_command\<close>; the processor takes shift counts modulo 32.\<close>

definition rendition_cmd :: "int \<Rightarrow> ansi_rendition \<Rightarrow> ansi_rendition" where
  "rendition_cmd cmd r =
     (let bitk = (push_bit (nat (cmd smod 10 mod 32)) 1 :: u32) in
      if cmd sdiv 10 = 3 then r\<lparr>rfg := cmd smod 10\<rparr>
      else if cmd sdiv 10 = 4 then r\<lparr>rbg := cmd smod 10\<rparr>
      else if cmd = 0 then r\<lparr>rbits := 0, rfg := ANSI_DEFAULT, rbg := ANSI_DEFAULT\<rparr>
      else if cmd sdiv 10 = 0 then r\<lparr>rbits := rbits r OR ucast bitk\<rparr>
      else if cmd sdiv 10 = 2
      then if cmd smod 10 = 2 then r\<lparr>rbits := rbits r AND NOT 6\<rparr>
           else r\<lparr>rbits := rbits r AND NOT (ucast bitk)\<rparr>
      else r)"

fun process_rendition_command :: "nat list \<Rightarrow> ansi_term \<Rightarrow> kerr + ansi_term" where
  "process_rendition_command [] t = Inr t"
| "process_rendition_command (i # is) t =
     kbind (rd (numerics t) i) (\<lambda>cmd.
     process_rendition_command is (t\<lparr>rendition := rendition_cmd (sint cmd) (rendition t)\<rparr>))"

definition status_fmt :: "byte list" where
  "status_fmt = [27, 91, 37, 105, 59, 37, 105, 82, 0]"

definition status_seq :: "byte list \<Rightarrow> ansi_term \<Rightarrow> kerr + byte list" where
  "status_seq seq0 t =
     kbind (sprintf seq0 status_fmt [VWord (word_of_int (trow t)), VWord (word_of_int (tcol t))]) (\<lambda>seq.
     kbind (strnlen seq 11) (\<lambda>n. Inr (take n seq)))"

text \<open>\<open>ansi_putch\<close>; \<open>seq0\<close> are the 11 bytes of \<open>seq\<close> on the stack before they are written.\<close>

definition ansi_putch :: "'b ansi_backend \<Rightarrow> byte list \<Rightarrow> byte \<Rightarrow> ansi_term \<times> 'b \<Rightarrow> kerr + (byte list option \<times> ansi_term \<times> 'b)" where
  "ansi_putch be seq0 ch tb =
     (let (t, b) = tb in
      if astate t = ANSI_S_NONE \<and> ch = 27
      then kbind (wr (numerics t) 0 0) (\<lambda>ns. Inr (None, t\<lparr>noff := 0, nump := False, numerics := ns, astate := ANSI_S_ESC\<rparr>, b))
      else if astate t = ANSI_S_ESC \<and> ch = 91 then Inr (None, t\<lparr>astate := ANSI_S_ESC_LBRAK\<rparr>, b)
      else if (astate t = ANSI_S_ESC \<or> astate t = ANSI_S_ESC_LBRAK) \<and> ch \<ge> 48 \<and> ch \<le> 57
      then kbind (rd (numerics t) (noff t)) (\<lambda>n.
           kbind (wr (numerics t) (noff t) (n * 10 + (char_to_u32 ch - 48))) (\<lambda>ns.
           Inr (None, t\<lparr>nump := True, numerics := ns\<rparr>, b)))
      else if (astate t = ANSI_S_ESC \<or> astate t = ANSI_S_ESC_LBRAK) \<and> ch = 59
      then kbind (wr (numerics t) (noff t + 1) 0) (\<lambda>ns. Inr (None, t\<lparr>noff := noff t + 1, numerics := ns\<rparr>, b))
      else
        let nargs = (if nump t then noff t + 1 else 0) in
        case astate t of
          ANSI_S_NONE \<Rightarrow> kbind (putch_unesc be ch (t, b)) (\<lambda>tb. Inr (None, tb))
        | ANSI_S_ESC \<Rightarrow> Inr (None, t\<lparr>astate := ANSI_S_NONE\<rparr>, b)
        | ANSI_S_ESC_LBRAK \<Rightarrow>
            let t = t\<lparr>astate := ANSI_S_NONE\<rparr> in
            if ch = 109 then kbind (process_rendition_command [0..<nargs] t) (\<lambda>t. Inr (None, t, b))
            else if ch = 110 \<and> nargs = 1
            then kbind (rd (numerics t) 0) (\<lambda>n.
                 if n = 6 then kbind (status_seq seq0 t) (\<lambda>seq. Inr (Some seq, t, b)) else Inr (None, t, b))
            else Inr (None, t, b))"

text \<open>A text that asks for no answer, character by character; \<open>Spin\<close> when it does ask.\<close>

fun ansi_run :: "'b ansi_backend \<Rightarrow> byte list \<Rightarrow> byte list \<Rightarrow> ansi_term \<times> 'b \<Rightarrow> kerr + (ansi_term \<times> 'b)" where
  "ansi_run be seq0 [] tb = Inr tb"
| "ansi_run be seq0 (ch # chs) tb =
     kbind (ansi_putch be seq0 ch tb) (\<lambda>(reply, tb). if reply = None then ansi_run be seq0 chs tb else Inl Spin)"

section \<open>Sequences\<close>

text \<open>
  What a program writes: characters, line breaks, and \<open>ESC [ n ; ... m\<close> sequences that select the rendition.
\<close>

datatype out_item = Glyph byte | Newline | Sgr "nat list"

fun params :: "nat list \<Rightarrow> byte list" where
  "params [] = []"
| "params [n] = dec n"
| "params (n # ns) = dec n @ 59 # params ns"

fun item_bytes :: "out_item \<Rightarrow> byte list" where
  "item_bytes (Glyph ch) = [ch]"
| "item_bytes Newline = [10]"
| "item_bytes (Sgr ns) = 27 # 91 # params ns @ [109]"

text \<open>Colours a backend has: the eight of the table and the default.\<close>

definition colour_ok :: "int \<Rightarrow> bool" where
  "colour_ok c \<longleftrightarrow> 0 \<le> c \<and> c < 8 \<or> c = ANSI_DEFAULT"

definition rend_ok :: "ansi_rendition \<Rightarrow> bool" where
  "rend_ok r \<longleftrightarrow> colour_ok (rfg r) \<and> colour_ok (rbg r)"

definition plain :: "byte \<Rightarrow> bool" where
  "plain ch \<longleftrightarrow> ch \<noteq> 10 \<and> ch \<noteq> 13 \<and> ch \<noteq> 9 \<and> ch \<noteq> 8 \<and> ch \<noteq> 27"

fun out_ok :: "(byte \<Rightarrow> bool) \<Rightarrow> out_item \<Rightarrow> bool" where
  "out_ok char_ok (Glyph ch) \<longleftrightarrow> plain ch \<and> char_ok ch"
| "out_ok char_ok Newline \<longleftrightarrow> True"
| "out_ok char_ok (Sgr ns) \<longleftrightarrow> length ns \<le> 16 \<and> (\<forall>n \<in> set ns. n < 100 \<and> n \<noteq> 38 \<and> n \<noteq> 48)"

lemma ansi_run_append: "ansi_run be seq0 (xs @ ys) tb = kbind (ansi_run be seq0 xs tb) (ansi_run be seq0 ys)"
proof (induction xs arbitrary: tb)
  case (Cons x xs)
  then show ?case by (cases "ansi_putch be seq0 x tb") auto
qed simp

lemma dec_digits: "c \<in> set (dec n) \<Longrightarrow> 48 \<le> c \<and> c \<le> 57"
proof (induction n rule: dec.induct)
  case (1 n)
  have d: "48 \<le> (of_nat (48 + k) :: byte) \<and> (of_nat (48 + k) :: byte) \<le> 57" if "k < 10" for k
  proof -
    have "\<forall>k \<in> set [0..<10]. 48 \<le> (of_nat (48 + k) :: byte) \<and> (of_nat (48 + k) :: byte) \<le> 57"
      by (simp add: upt_rec)
    with that show ?thesis by simp
  qed
  show ?case
  proof (cases "n < 10")
    case True
    with d [of n] 1(2) show ?thesis by (simp add: dec.simps [of n])
  next
    case False
    with 1 d [of "n mod 10"] show ?thesis by (auto simp: dec.simps [of n])
  qed
qed

lemma putch_digit:
  assumes "astate t = ANSI_S_ESC_LBRAK" "48 \<le> c" "c \<le> 57" "noff t < length (numerics t)"
  shows "ansi_putch be seq0 c (t, b) =
    Inr (None, t\<lparr>nump := True, numerics := (numerics t)[noff t := numerics t ! noff t * 10 + (char_to_u32 c - 48)]\<rparr>, b)"
proof -
  have "c \<noteq> 91" using assms(2,3) by auto
  with assms show ?thesis by (simp add: ansi_putch_def)
qed

lemma run_digits:
  assumes "astate t = ANSI_S_ESC_LBRAK" "noff t < length (numerics t)" "\<forall>c \<in> set ds. 48 \<le> c \<and> c \<le> 57" "ds \<noteq> []"
    "atou (ds @ [0]) (numerics t ! noff t) = Inr v"
  shows "ansi_run be seq0 ds (t, b) = Inr (t\<lparr>nump := True, numerics := (numerics t)[noff t := v]\<rparr>, b)"
  using assms
proof (induction ds arbitrary: t)
  case (Cons c ds)
  have c0: "c \<noteq> 0" using Cons.prems(3) by auto
  show ?case
  proof (cases "ds = []")
    case True
    with Cons.prems c0 show ?thesis by (simp add: putch_digit)
  next
    case False
    define t' where "t' = t\<lparr>nump := True, numerics := (numerics t)[noff t := numerics t ! noff t * 10 + (char_to_u32 c - 48)]\<rparr>"
    have "ansi_run be seq0 ds (t', b) = Inr (t'\<lparr>nump := True, numerics := (numerics t')[noff t' := v]\<rparr>, b)"
      by (rule Cons.IH) (use Cons.prems False c0 in \<open>simp_all add: t'_def\<close>)
    moreover have "ansi_putch be seq0 c (t, b) = Inr (None, t', b)"
      using Cons.prems by (simp add: putch_digit t'_def)
    ultimately show ?thesis by (simp add: t'_def)
  qed
qed simp

lemma run_number:
  assumes "astate t = ANSI_S_ESC_LBRAK" "noff t < length (numerics t)" "numerics t ! noff t = 0"
  shows "ansi_run be seq0 (dec n) (t, b) = Inr (t\<lparr>nump := True, numerics := (numerics t)[noff t := of_nat n]\<rparr>, b)"
  by (rule run_digits) (use assms dec_digits dec_nonempty atou_dec [of n "[0]" 0] in auto)

text \<open>After the parameters of a sequence the parser holds them in order.\<close>

lemma run_params:
  assumes "astate t = ANSI_S_ESC_LBRAK" "noff t + length ns \<le> length (numerics t)" "numerics t ! noff t = 0" "ns \<noteq> []"
  shows "\<exists>t'. ansi_run be seq0 (params ns) (t, b) = Inr (t', b) \<and> t' = t\<lparr>nump := True, noff := noff t + length ns - 1, numerics := numerics t'\<rparr> \<and>
    length (numerics t') = length (numerics t) \<and> (\<forall>i < noff t. numerics t' ! i = numerics t ! i) \<and>
    (\<forall>i < length ns. numerics t' ! (noff t + i) = of_nat (ns ! i))"
  using assms
proof (induction ns arbitrary: t rule: params.induct)
  case (2 n)
  then show ?case by (simp add: run_number)
next
  case (3 n m ns)
  define t1 where "t1 = t\<lparr>nump := True, numerics := (numerics t)[noff t := of_nat n]\<rparr>"
  define t2 where "t2 = t1\<lparr>noff := noff t + 1, numerics := (numerics t1)[noff t + 1 := 0]\<rparr>"
  have r: "ansi_run be seq0 (params (n # m # ns)) (t, b) = ansi_run be seq0 (params (m # ns)) (t2, b)"
    using 3 run_number [of t be seq0 n b] by (simp add: ansi_run_append ansi_putch_def t1_def t2_def)
  obtain t' where t': "ansi_run be seq0 (params (m # ns)) (t2, b) = Inr (t', b)"
    "t' = t2\<lparr>nump := True, noff := noff t2 + length (m # ns) - 1, numerics := numerics t'\<rparr>"
    "length (numerics t') = length (numerics t2)" "\<forall>i < noff t2. numerics t' ! i = numerics t2 ! i"
    "\<forall>i < length (m # ns). numerics t' ! (noff t2 + i) = of_nat ((m # ns) ! i)"
    using "3.IH" [of t2] 3 by (auto simp: t2_def t1_def)
  have n2: "noff t2 = Suc (noff t)" by (simp add: t2_def)
  have num2: "numerics t2 = (numerics t)[noff t := of_nat n, Suc (noff t) := 0]" by (simp add: t2_def t1_def)
  have "numerics t' ! (noff t + i) = of_nat ((n # m # ns) ! i)" if "i < length (n # m # ns)" for i
    using that t'(4,5) 3(3) by (cases i) (simp_all add: n2 num2)
  moreover have "\<forall>i < noff t. numerics t' ! i = numerics t ! i" using t'(4) by (simp add: n2 num2)
  moreover have "t' = t\<lparr>nump := True, noff := noff t + length (n # m # ns) - 1, numerics := numerics t'\<rparr>"
    by (subst t'(2)) (simp add: t2_def t1_def)
  moreover have "length (numerics t') = length (numerics t)" using t'(3) by (simp add: num2)
  ultimately show ?case unfolding r using t'(1) by blast
qed simp

lemma run_rendition:
  "\<forall>i \<in> set is. i < length (numerics t) \<Longrightarrow>
    process_rendition_command is t = Inr (t\<lparr>rendition := fold (\<lambda>i. rendition_cmd (sint (numerics t ! i))) is (rendition t)\<rparr>)"
  by (induction "is" arbitrary: t) simp_all

text \<open>The parser does not bound the number of parameters: the sixteenth semicolon writes beyond \<open>numerics\<close>.\<close>

lemma semicolons_overrun:
  "astate t = ANSI_S_ESC_LBRAK \<Longrightarrow> noff t < length (numerics t) \<Longrightarrow> length (numerics t) \<le> noff t + n \<Longrightarrow>
    ansi_run be seq0 (replicate n 59) (t, b) = Inl BadAccess"
proof (induction n arbitrary: t)
  case (Suc n)
  then show ?case by (cases "noff t + 1 < length (numerics t)") (simp_all add: ansi_putch_def)
qed simp

text \<open>Outside a sequence; what the parser keeps between characters.\<close>

definition ground :: "ansi_term \<Rightarrow> bool" where
  "ground t \<longleftrightarrow> astate t = ANSI_S_NONE \<and> length (numerics t) = 16 \<and> rend_ok (rendition t)"

lemma rendition_cmd_ok:
  assumes "rend_ok r" "n < 100" "n \<noteq> 38" "n \<noteq> 48"
  shows "rend_ok (rendition_cmd (int n) r)"
proof -
  have d: "int n sdiv 10 = int (n div 10)" "int n smod 10 = int (n mod 10)"
    by (cases "n = 0"; simp add: signed_divide_int_def signed_modulo_int_def zdiv_int zmod_int)+
  have "n mod 10 < 8 \<or> n mod 10 = 9" if "n div 10 = 3 \<or> n div 10 = 4"
  proof -
    have "n mod 10 \<noteq> 8" using that assms(3,4) div_mult_mod_eq [of n 10] by (elim disjE) linarith+
    moreover have "n mod 10 < 10" by simp
    ultimately show ?thesis by linarith
  qed
  moreover have "rend_ok (r\<lparr>rbits := c\<rparr>)" for c using assms(1) by (simp add: rend_ok_def)
  ultimately show ?thesis
    using assms(1) unfolding rendition_cmd_def Let_def d
    by (simp add: rend_ok_def colour_ok_def ANSI_DEFAULT_def)
qed

lemma fold_rendition_ok:
  "\<forall>n \<in> set ns. n < 100 \<and> n \<noteq> 38 \<and> n \<noteq> 48 \<Longrightarrow> rend_ok r \<Longrightarrow> rend_ok (fold (\<lambda>n. rendition_cmd (int n)) ns r)"
  by (induction ns arbitrary: r) (simp_all add: rendition_cmd_ok)

lemma fold_numerics:
  assumes "\<forall>i < length ns. numerics t ! i = of_nat (ns ! i)" "\<forall>n \<in> set ns. n < 100"
  shows "fold (\<lambda>i. rendition_cmd (sint (numerics t ! i))) [0..<length ns] r = fold (\<lambda>n. rendition_cmd (int n)) ns r"
proof -
  have "sint (numerics t ! i) = int (ns ! i)" if "i < length ns" for i
  proof -
    have "ns ! i < 100" using assms(2) that by simp
    moreover have "numerics t ! i = word_of_int (int (ns ! i))" using assms(1) that by simp
    ultimately show ?thesis by (simp add: sint_sbintrunc' signed_take_bit_int_eq_self del: of_int_of_nat_eq)
  qed
  then have "fold (\<lambda>i. rendition_cmd (sint (numerics t ! i))) [0..<length ns] r = fold (\<lambda>i. rendition_cmd (int (ns ! i))) [0..<length ns] r"
    by (intro fold_cong) simp_all
  also have "\<dots> = fold (\<lambda>n. rendition_cmd (int n)) (map ((!) ns) [0..<length ns]) r"
    by (simp add: fold_map comp_def)
  finally show ?thesis by (simp add: map_nth)
qed

lemma run_sgr:
  assumes "ground t" "out_ok cok (Sgr ns)"
  shows "\<exists>t'. ansi_run be seq0 (item_bytes (Sgr ns)) (t, b) = Inr (t', b) \<and> ground t' \<and> trow t' = trow t \<and> tcol t' = tcol t \<and>
    rendition t' = fold (\<lambda>n. rendition_cmd (int n)) ns (rendition t)"
proof -
  define t1 where "t1 = t\<lparr>noff := 0, nump := False, numerics := (numerics t)[0 := 0], astate := ANSI_S_ESC_LBRAK\<rparr>"
  have l: "length (numerics t) = 16" and "astate t = ANSI_S_NONE" using assms(1) by (simp_all add: ground_def)
  then have r: "ansi_run be seq0 (item_bytes (Sgr ns)) (t, b) = ansi_run be seq0 (params ns @ [109]) (t1, b)"
    by (simp add: ansi_putch_def t1_def)
  show ?thesis
  proof (cases "ns = []")
    case True
    with assms show ?thesis unfolding r by (simp add: ansi_putch_def t1_def ground_def)
  next
    case False
    obtain t' where t': "ansi_run be seq0 (params ns) (t1, b) = Inr (t', b)"
      "t' = t1\<lparr>nump := True, noff := noff t1 + length ns - 1, numerics := numerics t'\<rparr>"
      "length (numerics t') = length (numerics t1)" "\<forall>i < length ns. numerics t' ! (noff t1 + i) = of_nat (ns ! i)"
      using run_params [of t1 ns be seq0 b] assms False l by (auto simp: t1_def)
    have f: "astate t' = ANSI_S_ESC_LBRAK" "nump t'" "noff t' + 1 = length ns" "trow t' = trow t" "tcol t' = tcol t" "rendition t' = rendition t"
      by (subst t'(2), simp add: t1_def False)+
    have ns: "\<forall>n \<in> set ns. n < 100 \<and> n \<noteq> 38 \<and> n \<noteq> 48" "length ns \<le> 16" using assms(2) by simp_all
    let ?t = "t'\<lparr>astate := ANSI_S_NONE\<rparr>"
    have "process_rendition_command [0..<length ns] ?t =
        Inr (?t\<lparr>rendition := fold (\<lambda>n. rendition_cmd (int n)) ns (rendition t)\<rparr>)"
      using run_rendition [of "[0..<length ns]" ?t] fold_numerics [of ns ?t "rendition t"] t'(3,4) l ns f by (simp add: t1_def)
    then have "ansi_run be seq0 (params ns @ [109]) (t1, b) = Inr (?t\<lparr>rendition := fold (\<lambda>n. rendition_cmd (int n)) ns (rendition t)\<rparr>, b)"
      using f by (simp add: ansi_run_append t'(1) ansi_putch_def)
    then show ?thesis unfolding r
      using f assms(1) t'(3) l fold_rendition_ok [OF ns(1)] by (simp add: ground_def t1_def)
  qed
qed

section \<open>What a screen shows\<close>

text \<open>
  The abstract terminal: an unbounded document of finished lines and a current line of at most \<open>w\<close> cells. A screen of
  height \<open>h\<close> shows the last \<open>h\<close> lines of the document; cells nothing was written to are blank.
\<close>

type_synonym 'c doc = "'c list list \<times> 'c list"

fun doc_put :: "nat \<Rightarrow> 'c \<Rightarrow> 'c doc \<Rightarrow> 'c doc" where
  "doc_put w c (ls, l) = (if length l + 1 = w then (ls @ [l @ [c]], []) else (ls, l @ [c]))"

fun doc_newline :: "'c doc \<Rightarrow> 'c doc" where
  "doc_newline (ls, l) = (ls @ [l], [])"

fun doc_item :: "nat \<Rightarrow> (ansi_rendition \<Rightarrow> byte \<Rightarrow> 'c) \<Rightarrow> out_item \<Rightarrow> ansi_rendition \<times> 'c doc \<Rightarrow> ansi_rendition \<times> 'c doc" where
  "doc_item w img (Glyph ch) (r, d) = (r, doc_put w (img r ch) d)"
| "doc_item w img Newline (r, d) = (r, doc_newline d)"
| "doc_item w img (Sgr ns) (r, d) = (fold (\<lambda>n. rendition_cmd (int n)) ns r, d)"

fun shown :: "nat \<Rightarrow> 'c \<Rightarrow> 'c doc \<Rightarrow> nat \<Rightarrow> nat \<Rightarrow> 'c" where
  "shown h blank (ls, l) i j =
     (let rows = ls @ [l]; k = length rows - h + i
      in if k < length rows \<and> j < length (rows ! k) then rows ! k ! j else blank)"

lemma shown_put:
  assumes "i < h"
  shows "shown h bl (ls, l @ [c]) i j = (if i = min (length ls) (h - 1) \<and> j = length l then c else shown h bl (ls, l) i j)"
  using assms by (auto simp: nth_append min_def Let_def less_Suc_eq)

lemma shown_newline:
  assumes "i < h"
  shows "length ls + 1 < h \<Longrightarrow> shown h bl (ls @ [l], []) i j = shown h bl (ls, l) i j"
    and "h \<le> length ls + 1 \<Longrightarrow> shown h bl (ls @ [l], []) i j = (if i < h - 1 then shown h bl (ls, l) (i + 1) j else bl)"
  using assms by (auto simp: nth_append Let_def less_Suc_eq Suc_diff_le)

text \<open>The terminal shows the document, with the cursor after its last character.\<close>

fun shows_doc :: "'b ansi_backend \<Rightarrow> ('b \<Rightarrow> bool) \<Rightarrow> ('b \<Rightarrow> nat \<Rightarrow> nat \<Rightarrow> 'c) \<Rightarrow> 'c \<Rightarrow> ansi_rendition \<times> 'c doc \<Rightarrow> ansi_term \<times> 'b \<Rightarrow> bool" where
  "shows_doc be ok cell blank (r, ls, l) (t, b) \<longleftrightarrow> ok b \<and> ground t \<and> rendition t = r \<and> int (length l) < col_n be \<and>
     trow t = int (min (length ls) (nat (row_n be) - 1)) \<and> tcol t = int (length l) \<and>
     (\<forall>i j. int i < row_n be \<longrightarrow> int j < col_n be \<longrightarrow> cell b i j = shown (nat (row_n be)) blank (ls, l) i j)"

text \<open>
  The contract of a backend. \<open>cell b i j\<close> is what is visible at row \<open>i\<close> and column \<open>j\<close>, \<open>img r ch\<close> what a character
  looks like: drawing changes one cell, moving the cursor none, and scrolling moves every row up by one.
\<close>

locale ansi_screen =
  fixes be :: "'b ansi_backend" and ok :: "'b \<Rightarrow> bool" and cell :: "'b \<Rightarrow> nat \<Rightarrow> nat \<Rightarrow> 'c"
    and img :: "ansi_rendition \<Rightarrow> byte \<Rightarrow> 'c" and blank :: 'c and char_ok :: "byte \<Rightarrow> bool"
  assumes size_ok: "ok b \<Longrightarrow> 0 < row_n be \<and> 0 < col_n be"
    and putch_law: "ok b \<Longrightarrow> rend_ok r \<Longrightarrow> char_ok ch \<Longrightarrow> int i < row_n be \<Longrightarrow> int j < col_n be \<Longrightarrow>
      \<exists>b'. b_putch be r ch (int i) (int j) b = Inr b' \<and> ok b' \<and>
        (\<forall>i' j'. int i' < row_n be \<longrightarrow> int j' < col_n be \<longrightarrow> cell b' i' j' = (if i' = i \<and> j' = j then img r ch else cell b i' j'))"
    and curto_law: "ok b \<Longrightarrow> int i < row_n be \<Longrightarrow> int j < col_n be \<Longrightarrow>
      \<exists>b'. b_curto be (int i) (int j) b = Inr b' \<and> ok b' \<and>
        (\<forall>i' j'. int i' < row_n be \<longrightarrow> int j' < col_n be \<longrightarrow> cell b' i' j' = cell b i' j')"
    and scroll_law: "ok b \<Longrightarrow> \<exists>b'. b_scroll_up be b = Inr b' \<and> ok b' \<and>
        (\<forall>i' j'. int i' < row_n be \<longrightarrow> int j' < col_n be \<longrightarrow> cell b' i' j' = (if int i' < row_n be - 1 then cell b (i' + 1) j' else blank))"
begin

lemma finish_newline:
  assumes "ok b" "ground t" "\<forall>i j. int i < row_n be \<longrightarrow> int j < col_n be \<longrightarrow> cell b i j = shown (nat (row_n be)) blank (ls, l) i j"
    "trow t = int (min (length ls) (nat (row_n be) - 1)) + 1" "tcol t = 0"
  shows "\<exists>tb. unesc_finish be (t, b) = Inr tb \<and> shows_doc be ok cell blank (rendition t, ls @ [l], []) tb"
proof (cases "length ls + 1 < nat (row_n be)")
  case True
  then have tr: "trow t = int (length ls + 1)" "trow t \<noteq> row_n be" using assms(4) by (auto simp: min_def)
  have "int (length ls + 1) < row_n be" using True by linarith
  from curto_law [OF assms(1) this, of 0] size_ok [OF assms(1)] obtain b' where
    b': "b_curto be (int (length ls + 1)) 0 b = Inr b'" "ok b'" "\<forall>i j. int i < row_n be \<longrightarrow> int j < col_n be \<longrightarrow> cell b' i j = cell b i j"
    by auto
  have "cell b' i j = shown (nat (row_n be)) blank (ls @ [l], []) i j" if "int i < row_n be" "int j < col_n be" for i j
    using b'(3) assms(3) that True by (simp add: shown_newline(1) del: shown.simps)
  with b' tr assms(2,5) True size_ok [OF assms(1)] show ?thesis by (simp add: unesc_finish_def del: shown.simps)
next
  case False
  note h = size_ok [OF assms(1)]
  have tr: "trow t = row_n be" using assms(4) False h by (auto simp: min_def)
  from scroll_law [OF assms(1)] obtain b1 where b1: "b_scroll_up be b = Inr b1" "ok b1"
    "\<forall>i j. int i < row_n be \<longrightarrow> int j < col_n be \<longrightarrow> cell b1 i j = (if int i < row_n be - 1 then cell b (i + 1) j else blank)" by auto
  from curto_law [OF b1(2), of "nat (row_n be) - 1" 0] h obtain b' where
    b': "b_curto be (row_n be - 1) 0 b1 = Inr b'" "ok b'" "\<forall>i j. int i < row_n be \<longrightarrow> int j < col_n be \<longrightarrow> cell b' i j = cell b1 i j"
    by (auto simp: of_nat_diff)
  have "cell b' i j = shown (nat (row_n be)) blank (ls @ [l], []) i j" if "int i < row_n be" "int j < col_n be" for i j
  proof -
    have "cell b' i j = (if i < nat (row_n be) - 1 then cell b (i + 1) j else blank)" using b'(3) b1(3) that by auto
    with assms(3) that False show ?thesis by (simp add: shown_newline(2) del: shown.simps)
  qed
  moreover have "min (length (ls @ [l])) (nat (row_n be) - 1) = nat (row_n be) - 1" using False by simp
  moreover have "int (nat (row_n be) - 1) = row_n be - 1" using h by linarith
  moreover have "unesc_finish be (t, b) = Inr (t\<lparr>trow := row_n be - 1\<rparr>, b')" using b'(1) b1(1) tr assms(5) by (simp add: unesc_finish_def)
  ultimately show ?thesis using b'(2) assms(2,5) h by (simp add: ground_def del: shown.simps One_nat_def)
qed

lemma finish_stay:
  assumes "ok b" "ground t" "\<forall>i j. int i < row_n be \<longrightarrow> int j < col_n be \<longrightarrow> cell b i j = shown (nat (row_n be)) blank (ls, l) i j"
    "trow t = int (min (length ls) (nat (row_n be) - 1))" "tcol t = int (length l)" "int (length l) < col_n be"
  shows "\<exists>tb. unesc_finish be (t, b) = Inr tb \<and> shows_doc be ok cell blank (rendition t, ls, l) tb"
proof -
  note h = size_ok [OF assms(1)]
  have lt: "int (min (length ls) (nat (row_n be) - 1)) < row_n be" using h by (auto simp: min_def)
  from curto_law [OF assms(1) lt assms(6)] obtain b' where
    b': "b_curto be (trow t) (tcol t) b = Inr b'" "ok b'" "\<forall>i j. int i < row_n be \<longrightarrow> int j < col_n be \<longrightarrow> cell b' i j = cell b i j"
    using assms(4,5) by auto
  have "trow t \<noteq> row_n be" using lt assms(4) by simp
  with b' assms show ?thesis by (simp add: unesc_finish_def del: shown.simps)
qed

text \<open>One item of output, on the screen and in the document.\<close>

lemma glyph_shown:
  assumes "shows_doc be ok cell blank (r, d) (t, b)" "plain ch" "char_ok ch"
  shows "\<exists>tb. putch_unesc be ch (t, b) = Inr tb \<and> shows_doc be ok cell blank (r, doc_put (nat (col_n be)) (img r ch) d) tb"
proof -
  obtain ls l where d: "d = (ls, l)" by (cases d)
  note a = assms(1) [unfolded d shows_doc.simps]
  then have okb: "ok b" and gt: "ground t" and r: "rendition t = r" by simp_all
  note h = size_ok [OF okb]
  let ?i = "min (length ls) (nat (row_n be) - 1)"
  have i: "int ?i < row_n be" using h by (auto simp: min_def)
  have "rend_ok r" using gt r by (simp add: ground_def)
  from putch_law [OF okb this assms(3) i, of "length l"] a obtain b' where
    b': "b_putch be r ch (trow t) (tcol t) b = Inr b'" "ok b'"
    "\<forall>i' j'. int i' < row_n be \<longrightarrow> int j' < col_n be \<longrightarrow> cell b' i' j' = (if i' = ?i \<and> j' = length l then img r ch else cell b i' j')"
    by auto
  have s: "\<forall>i j. int i < row_n be \<longrightarrow> int j < col_n be \<longrightarrow> cell b' i j = shown (nat (row_n be)) blank (ls, l @ [img r ch]) i j"
    using b'(3) a by (simp add: shown_put del: shown.simps)
  show ?thesis
  proof (cases "int (length l) + 1 = col_n be")
    case True
    let ?t = "t\<lparr>tcol := 0, trow := trow t + 1\<rparr>"
    have "putch_unesc be ch (t, b) = unesc_finish be (?t, b')"
      using assms(2) b'(1) r a True by (simp add: putch_unesc_def plain_def)
    moreover have "\<exists>tb. unesc_finish be (?t, b') = Inr tb \<and> shows_doc be ok cell blank (rendition ?t, ls @ [l @ [img r ch]], []) tb"
      using finish_newline [OF b'(2) _ s, of ?t] gt a by (simp add: ground_def del: shown.simps)
    ultimately show ?thesis using True r d by (auto simp del: shows_doc.simps)
  next
    case False
    let ?t = "t\<lparr>tcol := tcol t + 1\<rparr>"
    have "putch_unesc be ch (t, b) = unesc_finish be (?t, b')"
      using assms(2) b'(1) r a False by (simp add: putch_unesc_def plain_def)
    moreover have "\<exists>tb. unesc_finish be (?t, b') = Inr tb \<and> shows_doc be ok cell blank (rendition ?t, ls, l @ [img r ch]) tb"
      using finish_stay [OF b'(2) _ s, of ?t] gt a False by (simp add: ground_def del: shown.simps)
    ultimately show ?thesis using False r d by (auto simp del: shows_doc.simps)
  qed
qed

lemma newline_shown:
  assumes "shows_doc be ok cell blank (r, d) (t, b)"
  shows "\<exists>tb. putch_unesc be 10 (t, b) = Inr tb \<and> shows_doc be ok cell blank (r, doc_newline d) tb"
proof -
  obtain ls l where d: "d = (ls, l)" by (cases d)
  note a = assms [unfolded d shows_doc.simps]
  let ?t = "t\<lparr>trow := trow t + 1, tcol := 0\<rparr>"
  have "putch_unesc be 10 (t, b) = unesc_finish be (?t, b)" by (simp add: putch_unesc_def)
  moreover have "ground ?t" "rendition ?t = r" using a by (auto simp: ground_def)
  ultimately show ?thesis using finish_newline [of b ?t ls l] a d by (simp del: shown.simps shows_doc.simps)
qed

text \<open>Text, line breaks and colours: the screen always shows the last lines of the document.\<close>

lemma run_item:
  assumes "shows_doc be ok cell blank rdoc (t, b)" "out_ok char_ok it"
  shows "\<exists>tb. ansi_run be seq0 (item_bytes it) (t, b) = Inr tb \<and> shows_doc be ok cell blank (doc_item (nat (col_n be)) img it rdoc) tb"
proof -
  obtain r d where rdoc: "rdoc = (r, d)" by (cases rdoc)
  have gt: "ground t" using assms(1) rdoc by (cases d) simp
  have one: "ansi_run be seq0 [ch] (t, b) = putch_unesc be ch (t, b)" if "ch \<noteq> 27" for ch
    using gt that by (cases "putch_unesc be ch (t, b)") (simp_all add: ansi_putch_def ground_def)
  show ?thesis
  proof (cases it)
    case (Glyph ch)
    then have "ch \<noteq> 27" "plain ch" "char_ok ch" using assms(2) by (auto simp: plain_def)
    with one [of ch] glyph_shown [of r d t b ch] assms(1) Glyph rdoc show ?thesis by (simp del: ansi_run.simps)
  next
    case Newline
    with one [of 10] newline_shown [of r d t b] assms(1) rdoc show ?thesis by (simp del: ansi_run.simps)
  next
    case (Sgr ns)
    with assms(2) run_sgr [OF gt, of char_ok ns be seq0 b] obtain t' where
      t': "ansi_run be seq0 (item_bytes it) (t, b) = Inr (t', b)" "ground t'" "trow t' = trow t" "tcol t' = tcol t"
      "rendition t' = fold (\<lambda>n. rendition_cmd (int n)) ns (rendition t)" by auto
    moreover have "shows_doc be ok cell blank (fold (\<lambda>n. rendition_cmd (int n)) ns r, d) (t', b)"
      using assms(1) rdoc t' by (cases d) (simp del: shown.simps)
    ultimately show ?thesis using Sgr rdoc by auto
  qed
qed

lemma run_items:
  "shows_doc be ok cell blank rdoc tb \<Longrightarrow> \<forall>it \<in> set its. out_ok char_ok it \<Longrightarrow>
    \<exists>tb'. ansi_run be seq0 (concat (map item_bytes its)) tb = Inr tb' \<and>
      shows_doc be ok cell blank (fold (doc_item (nat (col_n be)) img) its rdoc) tb'"
proof (induction its arbitrary: rdoc tb)
  case (Cons it its)
  obtain t b where tb: "tb = (t, b)" by (cases tb)
  from run_item [of rdoc t b it seq0] Cons.prems tb obtain tb1 where
    "ansi_run be seq0 (item_bytes it) tb = Inr tb1" "shows_doc be ok cell blank (doc_item (nat (col_n be)) img it rdoc) tb1" by auto
  with Cons.IH [of "doc_item (nat (col_n be)) img it rdoc" tb1] Cons.prems show ?case by (simp add: ansi_run_append)
qed simp

lemma clear_cells_ok:
  "ok b \<Longrightarrow> rend_ok r \<Longrightarrow> char_ok 32 \<Longrightarrow> \<forall>(y, x) \<in> set cs. 0 \<le> y \<and> y < row_n be \<and> 0 \<le> x \<and> x < col_n be \<Longrightarrow>
    \<exists>b'. for_each (\<lambda>(y, x). b_putch be r 32 y x) cs b = Inr b' \<and> ok b' \<and> (\<forall>i j. int i < row_n be \<longrightarrow> int j < col_n be \<longrightarrow>
      cell b' i j = (if (int i, int j) \<in> set cs then img r 32 else cell b i j))"
proof (induction cs arbitrary: b)
  case (Cons c cs)
  obtain y x where c: "c = (y, x)" by (cases c)
  with Cons.prems(4) have yx: "0 \<le> y" "y < row_n be" "0 \<le> x" "x < col_n be" by auto
  from putch_law [OF Cons.prems(1,2,3), of "nat y" "nat x"] yx obtain b1 where b1: "b_putch be r 32 y x b = Inr b1" "ok b1"
    "\<forall>i j. int i < row_n be \<longrightarrow> int j < col_n be \<longrightarrow> cell b1 i j = (if i = nat y \<and> j = nat x then img r 32 else cell b i j)" by auto
  from Cons.IH [OF b1(2) Cons.prems(2,3)] Cons.prems(4) obtain b' where "for_each (\<lambda>(y, x). b_putch be r 32 y x) cs b1 = Inr b'" "ok b'"
    "\<forall>i j. int i < row_n be \<longrightarrow> int j < col_n be \<longrightarrow> cell b' i j = (if (int i, int j) \<in> set cs then img r 32 else cell b1 i j)" by auto
  with b1 yx c show ?case by auto
qed simp

text \<open>A terminal whose structure was zero before \<open>ansi_init\<close> starts with the empty document.\<close>

lemma init_shows:
  assumes "ok b" "char_ok 32" "tcol t = 0" "length (numerics t) = 16"
    "img ((rendition t)\<lparr>rfg := ANSI_DEFAULT, rbg := ANSI_DEFAULT\<rparr>) 32 = blank"
  shows "\<exists>tb. ansi_init be t b = Inr tb \<and>
    shows_doc be ok cell blank ((rendition t)\<lparr>rfg := ANSI_DEFAULT, rbg := ANSI_DEFAULT\<rparr>, [], []) tb"
proof -
  let ?r = "(rendition t)\<lparr>rfg := ANSI_DEFAULT, rbg := ANSI_DEFAULT\<rparr>"
  let ?cs = "concat (map (\<lambda>y. map (\<lambda>x. (y, x)) [0..col_n be - 1]) [0..row_n be - 1])"
  have r: "rend_ok ?r" by (simp add: rend_ok_def colour_ok_def)
  have "\<forall>(y, x) \<in> set ?cs. 0 \<le> y \<and> y < row_n be \<and> 0 \<le> x \<and> x < col_n be" by auto
  from clear_cells_ok [OF assms(1) r assms(2) this] obtain b' where b': "for_each (\<lambda>(y, x). b_putch be ?r 32 y x) ?cs b = Inr b'" "ok b'"
    "\<forall>i j. int i < row_n be \<longrightarrow> int j < col_n be \<longrightarrow> cell b' i j = (if (int i, int j) \<in> set ?cs then img ?r 32 else cell b i j)" by blast
  have "cell b' i j = blank" if "int i < row_n be" "int j < col_n be" for i j
  proof -
    have "(int i, int j) \<in> set ?cs" using that by (auto intro!: bexI [of _ "int i"])
    with b'(3) that assms(5) show ?thesis by presburger
  qed
  with b'(1,2) assms(3,4) size_ok [OF assms(1)] r show ?thesis
    by (auto simp: ansi_init_def ansi_clear_def ground_def Let_def)
qed

end

end
