(* ===== verification/Tty.thy ===== *)
theory Tty
  imports Ansi
begin

unbundle bit_operations_syntax

text \<open>
  The line discipline of \<open>kernel/device/tty/ttylib.c\<close>: typed characters are collected in a ring buffer, echoed, and
  handed to readers line by line; the byte 0xff (\<open>SEND_CHAR\<close>) ends a line in the ring.

  \<open>out\<close> is the \<open>putch\<close> of the output device. It acts on the terminal and the device together, because a device may
  answer a request by typing into its terminal. An operation is what one process does between acquiring and releasing
  the locks of the terminal; acquiring a lock it already holds only counts. A reader that waits is given a list of the
  changes that happen while it waits.
\<close>

section \<open>The source\<close>

definition SEND_CHAR :: byte where "SEND_CHAR = 0xff"
definition TTY_BUFF_LEN :: nat where "TTY_BUFF_LEN = 2048"

record petix_tty =
  tios :: termios
  tbuf :: "byte list"
  fbase :: nat
  lbase :: nat
  loff :: nat
  rsem :: nat  \<comment> \<open>the count of \<open>read_sem\<close>\<close>

definition petix_tty_init :: petix_tty where
  "petix_tty_init = \<lparr>tios = \<lparr>c_iflag = 0, c_oflag = 0, c_cflag = 0, c_lflag = ICANON OR ECHO OR ISIG, c_cc = 0\<rparr>,
     tbuf = replicate TTY_BUFF_LEN 0, fbase = 0, lbase = 0, loff = 0, rsem = 0\<rparr>"

text \<open>The bytes a turn of the loop of \<open>petix_tty_read\<close> takes from the ring, with \<open>n\<close> bytes to go.\<close>

definition tty_take :: "nat \<Rightarrow> petix_tty \<Rightarrow> byte list \<times> petix_tty" where
  "tty_take n t =
     (if lbase t > fbase t
      then let len = min (lbase t - fbase t) n
           in (take len (drop (fbase t) (tbuf t)), t\<lparr>fbase := fbase t + len\<rparr>)
      else if lbase t < fbase t
      then let len1 = min (TTY_BUFF_LEN - fbase t) n;
               base1 = (fbase t + len1) mod TTY_BUFF_LEN;
               len2 = min (lbase t) (n - len1)
           in (take len1 (drop (fbase t) (tbuf t)) @ take len2 (tbuf t), t\<lparr>fbase := (base1 + len2) mod TTY_BUFF_LEN\<rparr>)
      else ([], t))"

text \<open>\<open>cond_wait\<close> on \<open>read_sem\<close>: \<open>evs\<close> are the changes of the terminal while the process sleeps.\<close>

fun tty_wait :: "(petix_tty \<Rightarrow> petix_tty) list \<Rightarrow> petix_tty \<Rightarrow> kerr + ((petix_tty \<Rightarrow> petix_tty) list \<times> petix_tty)" where
  "tty_wait evs t =
     (if rsem t \<ge> 1 then Inr (evs, t\<lparr>rsem := rsem t - 1\<rparr>)
      else case evs of [] \<Rightarrow> Inl Spin | e # es \<Rightarrow> tty_wait es (e t))"

declare tty_wait.simps [simp del]

text \<open>
  The loop of \<open>petix_tty_read\<close>: \<open>got\<close> are the bytes read so far, \<open>n\<close> those to go, \<open>prev\<close> is \<open>buf[-1]\<close>, the last byte
  read or the one that precedes the buffer. The result is the value returned and the bytes stored in the buffer.
\<close>

definition read_full :: "byte list \<Rightarrow> petix_tty \<Rightarrow> kerr + (int \<times> byte list \<times> petix_tty)" where
  "read_full got t =
     kbind (rd (tbuf t) (fbase t)) (\<lambda>c.
     Inr (int (length got), got, if c = SEND_CHAR then t\<lparr>fbase := (fbase t + 1) mod TTY_BUFF_LEN\<rparr> else t))"

lemma tty_take_rsem [simp]: "rsem (snd (tty_take n t)) = rsem t"
  by (simp add: tty_take_def Let_def)

lemma tty_wait_less:
  "tty_wait evs t = Inr (evs', t') \<Longrightarrow> length evs' < length evs \<or> evs' = evs \<and> rsem t' < rsem t"
proof (induction evs t rule: tty_wait.induct)
  case (1 evs t)
  show ?case
  proof (cases "rsem t \<ge> 1")
    case True
    with "1.prems" show ?thesis by (auto simp: tty_wait.simps [of evs t])
  next
    case False
    with "1.prems" obtain e es where "evs = e # es" "tty_wait es (e t) = Inr (evs', t')"
      by (auto simp: tty_wait.simps [of evs t] split: list.splits)
    with "1.IH" False show ?thesis by fastforce
  qed
qed

function read_loop :: "(petix_tty \<Rightarrow> petix_tty) list \<Rightarrow> byte \<Rightarrow> byte list \<Rightarrow> nat \<Rightarrow> petix_tty \<Rightarrow> kerr + (int \<times> byte list \<times> petix_tty)" where
  "read_loop evs prev got n t =
     (if n = 0 then read_full got t
      else
        let bs = fst (tty_take n t); t1 = snd (tty_take n t);
            left = n - length bs; got1 = got @ bs; prev1 = last (prev # bs)
        in if prev1 = SEND_CHAR then Inr (int (length got1) - 1, got1, t1)
           else if left > 0 then kbind (tty_wait evs t1) (\<lambda>(es, t2). read_loop es prev1 got1 left t2)
           else read_full got1 t1)"
  by pat_completeness auto
termination
proof (relation "measures [\<lambda>(evs, _, _, _, t). length evs, \<lambda>(evs, _, _, _, t). rsem t]")
qed (auto dest: tty_wait_less)

declare read_loop.simps [simp del]

definition petix_tty_read :: "(petix_tty \<Rightarrow> petix_tty) list \<Rightarrow> byte \<Rightarrow> nat \<Rightarrow> petix_tty \<Rightarrow> kerr + (int \<times> byte list \<times> petix_tty)" where
  "petix_tty_read evs before n t = read_loop evs before [] n t"

definition petix_tty_write :: "(byte \<Rightarrow> 's \<Rightarrow> kerr + 's) \<Rightarrow> byte list \<Rightarrow> 's \<Rightarrow> kerr + 's" where
  "petix_tty_write out buf s = for_each out buf s"

definition echo_map :: "byte list list" where
  "echo_map =
    [
     [94, 64], [94, 65], [94, 66], [94, 67], [94, 68], [94, 69], [94, 70], [94, 71], [8], [32, 32, 32, 32, 32, 32, 32, 32], [10], [94, 75], [94, 76], [94, 77], [94, 78], [94, 79],
     [94, 80], [94, 81], [94, 82], [94, 83], [94, 84], [94, 85], [94, 86], [94, 87], [94, 88], [94, 89], [94, 90], [94, 91], [94, 92], [94, 93], [94, 94], [94, 95],
     [32], [33], [34], [35], [36], [37], [38], [39], [40], [41], [42], [43], [44], [45], [46], [47],
     [48], [49], [50], [51], [52], [53], [54], [55], [56], [57], [58], [59], [60], [61], [62], [63],
     [64], [65], [66], [67], [68], [69], [70], [71], [72], [73], [74], [75], [76], [77], [78], [79],
     [80], [81], [82], [83], [84], [85], [86], [87], [88], [89], [90], [91], [92], [93], [94], [95],
     [96], [97], [98], [99], [100], [101], [102], [103], [104], [105], [106], [107], [108], [109], [110], [111],
     [112], [113], [114], [115], [116], [117], [118], [119], [120], [121], [122], [123], [124], [125], [126], [94, 63]
    ]"

text \<open>The loop that stores the typed characters, and the end of \<open>petix_tty_input_seq\<close>, with \<open>cond_wake\<close>.\<close>

definition store_char :: "byte \<Rightarrow> petix_tty \<Rightarrow> kerr + petix_tty" where
  "store_char c t = kbind (wr (tbuf t) (loff t) c) (\<lambda>b. Inr (t\<lparr>tbuf := b, loff := (loff t + 1) mod TTY_BUFF_LEN\<rparr>))"

definition send_line :: "petix_tty \<Rightarrow> kerr + petix_tty" where
  "send_line t = kbind (store_char SEND_CHAR t) (\<lambda>t. Inr (t\<lparr>lbase := loff t, rsem := 1\<rparr>))"

definition echo_char :: "(byte \<Rightarrow> petix_tty \<times> 'o \<Rightarrow> kerr + (petix_tty \<times> 'o)) \<Rightarrow> byte \<Rightarrow> petix_tty \<times> 'o \<Rightarrow> kerr + (petix_tty \<times> 'o)" where
  "echo_char out c s = kbind (rd echo_map (unat c)) (\<lambda>e. petix_tty_write out e s)"

definition step_back :: "nat \<Rightarrow> nat" where
  "step_back k = nat (((int k - 1) mod 2 ^ 32 mod int TTY_BUFF_LEN + int TTY_BUFF_LEN) mod int TTY_BUFF_LEN)"

definition erase_char :: "(byte \<Rightarrow> petix_tty \<times> 'o \<Rightarrow> kerr + (petix_tty \<times> 'o)) \<Rightarrow> petix_tty \<times> 'o \<Rightarrow> kerr + (petix_tty \<times> 'o)" where
  "erase_char out s =
     (let (t, d) = s in
      if loff t \<noteq> lbase t
      then let off = step_back (loff t)
           in kbind (rd (tbuf t) off) (\<lambda>c. kbind (rd echo_map (unat c)) (\<lambda>e.
              kbind (petix_tty_write out (replicate (length e) 8) (t\<lparr>loff := off\<rparr>, d)) (\<lambda>s.
              kbind (petix_tty_write out (replicate (length e) 32) s)
                    (petix_tty_write out (replicate (length e) 8)))))
      else Inr s)"

definition input_chars :: "(byte \<Rightarrow> petix_tty \<times> 'o \<Rightarrow> kerr + (petix_tty \<times> 'o)) \<Rightarrow> byte \<Rightarrow> byte list \<Rightarrow>
    petix_tty \<times> 'o \<Rightarrow> kerr + (petix_tty \<times> 'o)" where
  "input_chars out c0 seq s =
     (if c0 \<noteq> 4 \<or> c_lflag (tios (fst s)) AND ICANON = 0
      then kbind (for_each store_char seq (fst s)) (\<lambda>t.
           if c_lflag (tios t) AND ECHO \<noteq> 0 then for_each (echo_char out) seq (t, snd s) else Inr (t, snd s))
      else Inr s)"

definition input_send :: "byte \<Rightarrow> petix_tty \<times> 'o \<Rightarrow> kerr + (petix_tty \<times> 'o)" where
  "input_send c0 s =
     (if c0 = 10 \<or> c0 = 4 \<or> c_lflag (tios (fst s)) AND ICANON = 0
      then kbind (send_line (fst s)) (\<lambda>t. Inr (t, snd s)) else Inr s)"

definition petix_tty_input_seq :: "(byte \<Rightarrow> petix_tty \<times> 'o \<Rightarrow> kerr + (petix_tty \<times> 'o)) \<Rightarrow> byte list \<Rightarrow>
    petix_tty \<times> 'o \<Rightarrow> kerr + (petix_tty \<times> 'o)" where
  "petix_tty_input_seq out seq s =
     kbind (rd seq 0) (\<lambda>c0.
     if (c0 = 8 \<or> c0 = 127) \<and> length seq = 1 then erase_char out s
     else kbind (input_chars out c0 seq s) (input_send c0))"

text \<open>
  The output of a terminal with an emulator, \<open>tty_backend.putch = ansi_putch\<close>: the answer to a request is typed into the
  terminal, and its echo comes back here. \<open>Spin\<close> stands for more than the given number of calls inside each other.
\<close>

fun term_putch :: "nat \<Rightarrow> 'b ansi_backend \<Rightarrow> byte list \<Rightarrow> byte \<Rightarrow> petix_tty \<times> ansi_term \<times> 'b \<Rightarrow> kerr + (petix_tty \<times> ansi_term \<times> 'b)" where
  "term_putch 0 be seq0 ch s = Inl Spin"
| "term_putch (Suc d) be seq0 ch s =
     kbind (ansi_putch be seq0 ch (snd s)) (\<lambda>(reply, tb).
     case reply of None \<Rightarrow> Inr (fst s, tb)
     | Some seq \<Rightarrow> petix_tty_input_seq (term_putch d be seq0) seq (fst s, tb))"

text \<open>\<open>petix_tty_ioctl\<close>, for an output of \<open>rows\<close> lines and \<open>cols\<close> columns (-1 when it has none).\<close>

definition petix_tty_ioctl :: "int \<Rightarrow> int \<Rightarrow> ioctl_req \<Rightarrow> ioctl_arg \<Rightarrow> petix_tty \<Rightarrow> kerr + (int \<times> ioctl_arg \<times> petix_tty)" where
  "petix_tty_ioctl rows cols req arg t =
     (if req = TCGETS then Inr (0, Termios_arg (tios t), t)
      else if req = TCSETS \<or> req = TCSETSW then
        (case arg of Termios_arg p \<Rightarrow> Inr (0, arg, t\<lparr>tios := p\<rparr>) | _ \<Rightarrow> Inl BadAccess)
      else if req = TCSETSF then
        (case arg of Termios_arg p \<Rightarrow> Inr (0, arg, t\<lparr>lbase := loff t, fbase := loff t, tios := p\<rparr>) | _ \<Rightarrow> Inl BadAccess)
      else if req = TIOCGWINSZ then
        if rows = - 1 then Inr (err ENOTTY, arg, t)
        else Inr (0, Winsize_arg (word_of_int rows) (word_of_int cols), t)
      else Inr (err ENOTTY, arg, t))"

section \<open>The lines in the ring\<close>

text \<open>
  What a terminal holds: \<open>p\<close>, the bytes that may be read, and \<open>c\<close>, the line that is being typed.
\<close>

definition tty_holds :: "petix_tty \<Rightarrow> byte list \<Rightarrow> byte list \<Rightarrow> bool" where
  "tty_holds t p c \<longleftrightarrow> length (tbuf t) = TTY_BUFF_LEN \<and> fbase t < TTY_BUFF_LEN \<and>
     lbase t = (fbase t + length p) mod TTY_BUFF_LEN \<and> loff t = (fbase t + length p + length c) mod TTY_BUFF_LEN \<and>
     length p + length c < TTY_BUFF_LEN \<and>
     (\<forall>i < length p + length c. tbuf t ! ((fbase t + i) mod TTY_BUFF_LEN) = (p @ c) ! i)"

lemma tty_buff_pos [simp]: "0 < TTY_BUFF_LEN" "k mod TTY_BUFF_LEN < TTY_BUFF_LEN"
  by (simp_all add: TTY_BUFF_LEN_def)

lemma mod_ring_eq:
  assumes "(a + i) mod m = (a + j) mod m" "i < m" "j < m"
  shows "i = (j :: nat)"
proof -
  from assms(1) obtain q1 q2 where "a + i + m * q1 = a + j + m * q2" by (auto simp: nat_mod_eq_iff)
  then have "(i + m * q1) mod m = (j + m * q2) mod m" by simp
  with assms show ?thesis by simp
qed

lemma init_holds: "tty_holds petix_tty_init [] []"
  by (simp add: tty_holds_def petix_tty_init_def TTY_BUFF_LEN_def)

lemma store_char_holds:
  assumes "tty_holds t p c" "length p + length c + 1 < TTY_BUFF_LEN"
  shows "\<exists>t'. store_char x t = Inr t' \<and> tty_holds t' p (c @ [x]) \<and> tios t' = tios t \<and> rsem t' = rsem t"
proof -
  let ?n = "length p + length c"
  have lo: "loff t = (fbase t + ?n) mod TTY_BUFF_LEN" using assms(1) by (simp add: tty_holds_def add.assoc)
  let ?t = "t\<lparr>tbuf := (tbuf t)[loff t := x], loff := (loff t + 1) mod TTY_BUFF_LEN\<rparr>"
  have "tbuf ?t ! ((fbase t + i) mod TTY_BUFF_LEN) = (p @ c @ [x]) ! i" if "i < ?n + 1" for i
  proof (cases "i = ?n")
    case True
    with assms(1) lo show ?thesis by (simp add: tty_holds_def nth_append add.assoc)
  next
    case False
    then have "i < ?n" using that by simp
    moreover have "(fbase t + i) mod TTY_BUFF_LEN \<noteq> loff t"
      using mod_ring_eq [of "fbase t" i TTY_BUFF_LEN ?n] lo False assms(2) that by auto
    moreover have "(p @ c @ [x]) ! i = (p @ c) ! i" using \<open>i < ?n\<close> nth_append [of "p @ c" "[x]" i] by simp
    ultimately show ?thesis using assms(1) by (simp add: tty_holds_def)
  qed
  with assms lo have "tty_holds ?t p (c @ [x])"
    by (auto simp: tty_holds_def add.assoc mod_Suc_eq)
  moreover have "loff t < length (tbuf t)" using assms(1) by (simp add: tty_holds_def)
  ultimately show ?thesis by (simp add: store_char_def)
qed

lemma send_line_holds:
  assumes "tty_holds t p c" "length p + length c + 1 < TTY_BUFF_LEN"
  shows "\<exists>t'. send_line t = Inr t' \<and> tty_holds t' (p @ c @ [SEND_CHAR]) [] \<and> tios t' = tios t \<and> rsem t' = 1"
proof -
  from store_char_holds [OF assms, of SEND_CHAR] obtain t' where
    t': "store_char SEND_CHAR t = Inr t'" "tty_holds t' p (c @ [SEND_CHAR])" "tios t' = tios t" by auto
  then have "tty_holds (t'\<lparr>lbase := loff t', rsem := 1\<rparr>) (p @ c @ [SEND_CHAR]) []"
    by (simp add: tty_holds_def add.assoc)
  with t' show ?thesis by (simp add: send_line_def)
qed

text \<open>Taking bytes out of the ring, in one piece or in two.\<close>

lemma take_straight:
  assumes "tty_holds t p c" "fbase t + length p < TTY_BUFF_LEN"
  shows "tty_take n t = (take n p, t\<lparr>fbase := (fbase t + min n (length p)) mod TTY_BUFF_LEN\<rparr>)"
proof -
  define m where "m = min n (length p)"
  have b: "length (tbuf t) = TTY_BUFF_LEN" and el: "\<And>i. i < length p + length c \<Longrightarrow> tbuf t ! ((fbase t + i) mod TTY_BUFF_LEN) = (p @ c) ! i"
    and lb: "lbase t = fbase t + length p" using assms by (simp_all add: tty_holds_def)
  have "take m (drop (fbase t) (tbuf t)) = take n p"
  proof (rule nth_equalityI)
    fix i assume "i < length (take m (drop (fbase t) (tbuf t)))"
    then have "i < m" by simp
    then show "take m (drop (fbase t) (tbuf t)) ! i = take n p ! i"
      using el [of i] assms(2) b by (simp add: m_def nth_append)
  qed (use assms(2) b in \<open>auto simp: m_def\<close>)
  moreover have "fbase t + m < TTY_BUFF_LEN" using assms(2) by (simp add: m_def)
  ultimately show ?thesis using lb by (cases "p = []") (simp_all add: tty_take_def Let_def m_def min.commute)
qed

lemma take_wrapped:
  assumes "tty_holds t p c" "\<not> fbase t + length p < TTY_BUFF_LEN"
  shows "tty_take n t = (take n p, t\<lparr>fbase := (fbase t + min n (length p)) mod TTY_BUFF_LEN\<rparr>)"
proof -
  define m where "m = min n (length p)"
  have b: "length (tbuf t) = TTY_BUFF_LEN" "fbase t < TTY_BUFF_LEN" "lbase t = (fbase t + length p) mod TTY_BUFF_LEN"
    "length p + length c < TTY_BUFF_LEN" and el: "\<And>i. i < length p + length c \<Longrightarrow> tbuf t ! ((fbase t + i) mod TTY_BUFF_LEN) = (p @ c) ! i"
    using assms(1) by (simp_all add: tty_holds_def)
  have pos: "(fbase t + i) mod TTY_BUFF_LEN = (if fbase t + i < TTY_BUFF_LEN then fbase t + i else fbase t + i - TTY_BUFF_LEN)"
    if "i < TTY_BUFF_LEN" for i using b(2) that by (simp add: mod_if)
  have lb: "lbase t = fbase t + length p - TTY_BUFF_LEN" "lbase t < fbase t" using b pos [of "length p"] assms(2) by simp_all
  define len1 len2 where "len1 = min (TTY_BUFF_LEN - fbase t) n" and "len2 = min (lbase t) (n - len1)"
  have m12: "m = len1 + len2" using lb(1) assms(2) b(2) unfolding m_def len1_def len2_def by linarith
  have "len1 \<le> TTY_BUFF_LEN - fbase t" "len2 \<le> lbase t" by (simp_all add: len1_def len2_def)
  with b(1) lb(2) b(2) have len: "length (take len1 (drop (fbase t) (tbuf t)) @ take len2 (tbuf t)) = m" by (simp add: m12)
  have "take len1 (drop (fbase t) (tbuf t)) @ take len2 (tbuf t) = take n p"
  proof (rule nth_equalityI)
    fix i assume "i < length (take len1 (drop (fbase t) (tbuf t)) @ take len2 (tbuf t))"
    then have i: "i < m" unfolding len .
    then have e: "take n p ! i = tbuf t ! ((fbase t + i) mod TTY_BUFF_LEN)" using el [of i] by (simp add: m_def nth_append)
    have il: "i < TTY_BUFF_LEN" using i b(4) by (simp add: m_def)
    show "(take len1 (drop (fbase t) (tbuf t)) @ take len2 (tbuf t)) ! i = take n p ! i"
    proof (cases "i < len1")
      case True
      then have "fbase t + i < TTY_BUFF_LEN" unfolding len1_def by linarith
      then show ?thesis using e b True by (simp add: nth_append len1_def)
    next
      case False
      then have "len1 = TTY_BUFF_LEN - fbase t" using i by (auto simp: m12 len1_def len2_def)
      moreover from this False have "\<not> fbase t + i < TTY_BUFF_LEN" by linarith
      moreover from calculation have "(fbase t + i) mod TTY_BUFF_LEN = i - len1" using pos [OF il] b(2) by simp
      ultimately show ?thesis using e b False i by (simp add: nth_append m12 min_def)
    qed
  qed (simp add: len m_def min.commute del: length_append)
  moreover have "tty_take n t = (take len1 (drop (fbase t) (tbuf t)) @ take len2 (tbuf t),
      t\<lparr>fbase := ((fbase t + len1) mod TTY_BUFF_LEN + len2) mod TTY_BUFF_LEN\<rparr>)"
    using lb(2) unfolding tty_take_def Let_def len1_def len2_def by simp
  moreover have "((fbase t + len1) mod TTY_BUFF_LEN + len2) mod TTY_BUFF_LEN = (fbase t + m) mod TTY_BUFF_LEN"
    unfolding m12 by (simp add: mod_add_left_eq add.assoc)
  ultimately show ?thesis by (simp add: m_def)
qed

lemma take_holds:
  assumes "tty_holds t p c"
  shows "fst (tty_take n t) = take n p" "tty_holds (snd (tty_take n t)) (drop n p) c" "tios (snd (tty_take n t)) = tios t"
proof -
  define m where "m = min n (length p)"
  have r: "tty_take n t = (take n p, t\<lparr>fbase := (fbase t + m) mod TTY_BUFF_LEN\<rparr>)"
    using take_straight [OF assms] take_wrapped [OF assms] unfolding m_def by blast
  then show "fst (tty_take n t) = take n p" "tios (snd (tty_take n t)) = tios t" by simp_all
  have "tbuf t ! (((fbase t + m) mod TTY_BUFF_LEN + i) mod TTY_BUFF_LEN) = (drop n p @ c) ! i"
    if "i < length p - n + length c" for i
  proof -
    have l: "m + i < length p + length c" using that by (auto simp: m_def)
    have "drop m (p @ c) = drop n p @ c" by (auto simp: m_def min_def)
    moreover have "drop m (p @ c) ! i = (p @ c) ! (m + i)" using l by (intro nth_drop) simp
    ultimately have "(p @ c) ! (m + i) = (drop n p @ c) ! i" by metis
    with l assms show ?thesis by (simp add: tty_holds_def mod_simps add.assoc)
  qed
  moreover have "m + (length p - n) = length p" by (simp add: m_def)
  then have "(fbase t + m + (length p - n)) mod TTY_BUFF_LEN = (fbase t + length p) mod TTY_BUFF_LEN"
    "(fbase t + m + (length p - n) + length c) mod TTY_BUFF_LEN = (fbase t + length p + length c) mod TTY_BUFF_LEN"
    by (metis add.assoc)+
  moreover have "length p - n + length c < TTY_BUFF_LEN" using assms unfolding tty_holds_def by linarith
  ultimately show "tty_holds (snd (tty_take n t)) (drop n p) c"
    using r assms by (simp add: tty_holds_def mod_add_left_eq add.assoc)
qed

text \<open>A reader that finds one line gets as much of it as it asked for; the mark is dropped with the last byte.\<close>

lemma read_full_holds:
  assumes "tty_holds t (x # p) c"
  shows "\<exists>t'. read_full got t = Inr (int (length got), got, t') \<and> tty_holds t' (if x = SEND_CHAR then p else x # p) c \<and> tios t' = tios t"
proof -
  have x: "tbuf t ! fbase t = x" "fbase t < length (tbuf t)" "0 < length (x # p) + length c"
    using assms by (auto simp: tty_holds_def dest: spec [of _ 0])
  have "fbase t + 1 + i = fbase t + Suc i" for i by simp
  with assms have "tty_holds (t\<lparr>fbase := (fbase t + 1) mod TTY_BUFF_LEN\<rparr>) p c"
    by (auto simp: tty_holds_def mod_simps add.assoc dest: spec [of _ "Suc _"])
  with x assms show ?thesis by (simp add: read_full_def)
qed

lemma read_line:
  assumes "tty_holds t (l @ [SEND_CHAR]) c" "SEND_CHAR \<notin> set l" "0 < n"
  shows "\<exists>got t'. petix_tty_read evs before n t = Inr (int (min n (length l)), got, t') \<and> take (min n (length l)) got = take n l \<and>
    tty_holds t' (if length l \<le> n then [] else drop n l @ [SEND_CHAR]) c \<and> tios t' = tios t"
proof -
  let ?t = "snd (tty_take n t)"
  note th = take_holds [OF assms(1), of n]
  show ?thesis
  proof (cases "length l < n")
    case True
    then have "petix_tty_read evs before n t = Inr (int (length l), l @ [SEND_CHAR], ?t)"
      using assms(3) th by (simp add: petix_tty_read_def read_loop.simps [of evs before])
    with True th show ?thesis by simp
  next
    case False
    have "last (before # take n l) \<noteq> SEND_CHAR"
      using assms(2,3) False by (auto simp: last_conv_nth in_set_conv_nth)
    then have r: "petix_tty_read evs before n t = read_full (take n l) ?t"
      using False assms(3) th by (simp add: petix_tty_read_def read_loop.simps [of evs before])
    obtain x p where xp: "drop n l @ [SEND_CHAR] = x # p" by (cases "drop n l") auto
    have "(if x = SEND_CHAR then p else x # p) = (if length l \<le> n then [] else drop n l @ [SEND_CHAR])"
    proof (cases "length l \<le> n")
      case False
      then obtain y ys where y: "drop n l = y # ys" by (cases "drop n l") auto
      then have "y \<in> set l" by (metis in_set_dropD list.set_intros(1))
      with False assms(2) xp y show ?thesis by auto
    qed (use xp in simp)
    moreover have "tty_holds ?t (x # p) c" using th(2) False xp by simp
    ultimately show ?thesis using read_full_holds [of ?t x p c "take n l"] r False th(3) by (auto simp: min_def)
  qed
qed

text \<open>Stepping back in the ring.\<close>

lemma step_back_mod: "step_back (Suc k mod TTY_BUFF_LEN) = k mod TTY_BUFF_LEN"
proof -
  have "int TTY_BUFF_LEN dvd 2 ^ 32" by (simp add: TTY_BUFF_LEN_def)
  then have "((int (Suc k mod TTY_BUFF_LEN) - 1) mod 2 ^ 32 mod int TTY_BUFF_LEN + int TTY_BUFF_LEN) mod int TTY_BUFF_LEN
      = (int (Suc k mod TTY_BUFF_LEN) - 1) mod int TTY_BUFF_LEN" by (simp add: mod_mod_cancel)
  also have "\<dots> = int (k mod TTY_BUFF_LEN)" by (simp add: zmod_int mod_simps)
  finally show ?thesis by (simp add: step_back_def)
qed

lemma erase_holds:
  assumes "tty_holds t p (c @ [x])"
  defines "off \<equiv> step_back (loff t)"
  shows "loff t \<noteq> lbase t" "rd (tbuf t) off = Inr x" "tty_holds (t\<lparr>loff := off\<rparr>) p c"
proof -
  let ?k = "length p + length c"
  have lo: "loff t = Suc (fbase t + ?k) mod TTY_BUFF_LEN" and lb: "lbase t = (fbase t + length p) mod TTY_BUFF_LEN" "Suc ?k < TTY_BUFF_LEN"
    using assms(1) by (simp_all add: tty_holds_def add.assoc)
  then have off: "off = (fbase t + ?k) mod TTY_BUFF_LEN" unfolding off_def by (simp only: step_back_mod)
  have el: "tbuf t ! ((fbase t + i) mod TTY_BUFF_LEN) = ((p @ c) @ [x]) ! i" if "i < Suc ?k" for i
    using assms(1) that by (simp add: tty_holds_def)
  show "loff t \<noteq> lbase t"
    using mod_ring_eq [of "fbase t" "Suc ?k" TTY_BUFF_LEN "length p"] lo lb by auto
  have "((p @ c) @ [x]) ! ?k = x" by (metis length_append nth_append_length)
  then show "rd (tbuf t) off = Inr x" using el [of ?k] assms(1) off by (simp add: tty_holds_def)
  have "tbuf t ! ((fbase t + i) mod TTY_BUFF_LEN) = (p @ c) ! i" if "i < ?k" for i
    using el [of i] that nth_append [of "p @ c" "[x]" i] by simp
  then show "tty_holds (t\<lparr>loff := off\<rparr>) p c"
    using assms(1) off by (simp add: tty_holds_def add.assoc)
qed

lemma erase_nothing: "tty_holds t p [] \<Longrightarrow> erase_char out (t, d) = Inr (t, d)"
  by (simp add: tty_holds_def erase_char_def)

text \<open>
  Reading beyond a line: when two lines are waiting, a reader that asks for enough gets both with the mark between them;
  and a reader that finds nothing looks at the byte before its buffer, and returns -1 when that is a mark.
\<close>

lemma read_two_lines:
  assumes "tty_holds t (l1 @ [SEND_CHAR] @ l2 @ [SEND_CHAR]) c" "length l1 + length l2 + 2 \<le> n"
  shows "\<exists>t'. petix_tty_read evs before n t = Inr (int (length l1 + length l2 + 1), l1 @ [SEND_CHAR] @ l2 @ [SEND_CHAR], t')"
  using take_holds [OF assms(1), of n] assms(2) by (simp add: petix_tty_read_def read_loop.simps [of evs before])

lemma read_before_buffer:
  assumes "tty_holds t [] c" "0 < n"
  shows "petix_tty_read evs SEND_CHAR n t = Inr (- 1, [], snd (tty_take n t))"
  using take_holds [OF assms(1), of n] assms(2) by (simp add: petix_tty_read_def read_loop.simps [of evs])

section \<open>The indices of the ring\<close>

definition tty_ok :: "petix_tty \<Rightarrow> bool" where
  "tty_ok t \<longleftrightarrow> length (tbuf t) = TTY_BUFF_LEN \<and> fbase t < TTY_BUFF_LEN \<and> lbase t < TTY_BUFF_LEN \<and> loff t < TTY_BUFF_LEN"

text \<open>An output that types into its terminal keeps the terminal well-formed.\<close>

definition out_keeps :: "(byte \<Rightarrow> petix_tty \<times> 'o \<Rightarrow> kerr + (petix_tty \<times> 'o)) \<Rightarrow> bool" where
  "out_keeps out \<longleftrightarrow> (\<forall>ch s s'. out ch s = Inr s' \<longrightarrow> tty_ok (fst s) \<longrightarrow> tty_ok (fst s'))"

lemma init_tty_ok: "tty_ok petix_tty_init"
  by (simp add: tty_ok_def petix_tty_init_def TTY_BUFF_LEN_def)

lemma store_char_ok: "store_char c t = Inr t' \<Longrightarrow> tty_ok t \<Longrightarrow> tty_ok t'"
  by (auto simp: store_char_def tty_ok_def kres)

lemma send_line_ok: "send_line t = Inr t' \<Longrightarrow> tty_ok t \<Longrightarrow> tty_ok t'"
  by (auto simp: send_line_def kres dest!: store_char_ok) (simp add: tty_ok_def)

lemma tty_write_ok: "out_keeps out \<Longrightarrow> petix_tty_write out bs s = Inr s' \<Longrightarrow> tty_ok (fst s) \<Longrightarrow> tty_ok (fst s')"
  unfolding petix_tty_write_def out_keeps_def by (erule for_each_keeps) blast+

lemma echo_char_ok: "out_keeps out \<Longrightarrow> echo_char out c s = Inr s' \<Longrightarrow> tty_ok (fst s) \<Longrightarrow> tty_ok (fst s')"
  by (auto simp: echo_char_def kres intro: tty_write_ok)

lemma erase_char_ok:
  assumes "out_keeps out" "erase_char out s = Inr s'" "tty_ok (fst s)"
  shows "tty_ok (fst s')"
proof -
  obtain t d where s: "s = (t, d)" by (cases s)
  show ?thesis
  proof (cases "loff t = lbase t")
    case False
    let ?n = "length (echo_map ! unat (tbuf t ! step_back (loff t)))"
    from False assms(2) s obtain s1 s2 where w: "step_back (loff t) < length (tbuf t)"
      "petix_tty_write out (replicate ?n 8) (t\<lparr>loff := step_back (loff t)\<rparr>, d) = Inr s1"
      "petix_tty_write out (replicate ?n 32) s1 = Inr s2" "petix_tty_write out (replicate ?n 8) s2 = Inr s'"
      by (auto simp: erase_char_def Let_def kres)
    have "tty_ok (t\<lparr>loff := step_back (loff t)\<rparr>)" using assms(3) s w(1) by (simp add: tty_ok_def)
    then have "tty_ok (fst s1)" using tty_write_ok [OF assms(1) w(2)] by simp
    then have "tty_ok (fst s2)" by (rule tty_write_ok [OF assms(1) w(3)])
    then show ?thesis by (rule tty_write_ok [OF assms(1) w(4)])
  qed (use assms s in \<open>simp add: erase_char_def\<close>)
qed

lemma input_seq_ok:
  assumes "out_keeps out" "petix_tty_input_seq out seq s = Inr s'" "tty_ok (fst s)"
  shows "tty_ok (fst s')"
proof -
  have st: "tty_ok t'" if "for_each store_char seq t = Inr t'" "tty_ok t" for t t'
    using that by (rule for_each_keeps) (rule store_char_ok)
  have ec: "tty_ok (fst r')" if "for_each (echo_char out) seq r = Inr r'" "tty_ok (fst r)" for r r'
    using that(1,2) by (rule for_each_keeps) (rule echo_char_ok [OF assms(1)])
  from assms(2,3) show ?thesis
    unfolding petix_tty_input_seq_def input_chars_def input_send_def
    by (auto simp: kres split: if_splits dest!: erase_char_ok [OF assms(1)] st ec send_line_ok)
qed

lemma length_take_tty: "length (fst (tty_take n t)) \<le> n"
proof -
  have "min a (min b n) + min c (min d (n - min b n)) \<le> n" for a b c d :: nat by linarith
  then show ?thesis by (auto simp: tty_take_def Let_def)
qed

lemma take_ok: "tty_ok t \<Longrightarrow> tty_ok (snd (tty_take n t))"
  by (auto simp: tty_take_def tty_ok_def Let_def)

lemma tty_wait_ok:
  "tty_wait evs t = Inr (es, t') \<Longrightarrow> tty_ok t \<Longrightarrow> \<forall>e \<in> set evs. \<forall>t. tty_ok t \<longrightarrow> tty_ok (e t) \<Longrightarrow>
    tty_ok t' \<and> (\<forall>e \<in> set es. \<forall>t. tty_ok t \<longrightarrow> tty_ok (e t))"
proof (induction evs t rule: tty_wait.induct)
  case (1 evs t)
  show ?case
  proof (cases "rsem t \<ge> 1")
    case True
    with "1.prems" show ?thesis by (auto simp: tty_wait.simps [of evs t] tty_ok_def)
  next
    case False
    with "1.prems" obtain e es' where e: "evs = e # es'" "tty_wait es' (e t) = Inr (es, t')"
      by (auto simp: tty_wait.simps [of evs t] split: list.splits)
    from "1.IH" [OF False e] "1.prems" e(1) show ?thesis by simp
  qed
qed

lemma read_loop_ok:
  assumes "read_loop evs prev got n t = Inr (r, bs, t')" "tty_ok t" "\<forall>e \<in> set evs. \<forall>t. tty_ok t \<longrightarrow> tty_ok (e t)"
  shows "tty_ok t' \<and> int (length got) - 1 \<le> r \<and> r \<le> int (length got + n) \<and> length bs \<le> length got + n"
  using assms
proof (induction evs prev got n t rule: read_loop.induct)
  case (1 evs prev got n t)
  have rf: "tty_ok t1 \<Longrightarrow> read_full g t1 = Inr (r, bs, t') \<Longrightarrow> tty_ok t' \<and> r = int (length g) \<and> bs = g" for g t1
    by (auto simp: read_full_def kres tty_ok_def split: if_splits)
  let ?bs = "fst (tty_take n t)" and ?t1 = "snd (tty_take n t)"
  have ok1: "tty_ok ?t1" using take_ok [OF "1.prems"(2)] .
  have len: "length ?bs \<le> n" by (rule length_take_tty)
  show ?case
  proof (cases "n = 0")
    case True
    with "1.prems" rf [of t got] show ?thesis by (auto simp: read_loop.simps [of evs])
  next
    case n: False
    consider (eot) "last (prev # ?bs) = SEND_CHAR" | (wait) "last (prev # ?bs) \<noteq> SEND_CHAR" "0 < n - length ?bs"
      | (full) "last (prev # ?bs) \<noteq> SEND_CHAR" "n - length ?bs = 0" by blast
    then show ?thesis
    proof cases
      case eot
      with "1.prems"(1) n ok1 len show ?thesis by (auto simp: read_loop.simps [of evs] Let_def)
    next
      case wait
      with "1.prems"(1) n obtain es t2 where w: "tty_wait evs ?t1 = Inr (es, t2)"
        "read_loop es (last (prev # ?bs)) (got @ ?bs) (n - length ?bs) t2 = Inr (r, bs, t')"
        by (auto simp: read_loop.simps [of evs] Let_def kres simp del: last.simps)
      from tty_wait_ok [OF w(1) ok1 "1.prems"(3)] "1.IH" [OF n refl refl refl refl refl wait w(1) refl w(2)]
      show ?thesis using len by auto
    next
      case full
      with "1.prems"(1) n have "read_full (got @ ?bs) ?t1 = Inr (r, bs, t')"
        by (simp add: read_loop.simps [of evs] Let_def del: last.simps)
      from rf [OF ok1 this] len show ?thesis by auto
    qed
  qed
qed

section \<open>Typing\<close>

text \<open>What the typed characters leave of a line: backspace and delete take away the last character.\<close>

fun edit :: "byte list \<Rightarrow> byte list \<Rightarrow> byte list" where
  "edit l [] = l"
| "edit l (k # ks) = edit (if k = 8 \<or> k = 127 then butlast l else l @ [k]) ks"

text \<open>A key on a line of ASCII characters, whose echo the output takes.\<close>

definition key_ok :: "(byte \<Rightarrow> bool) \<Rightarrow> byte \<Rightarrow> bool" where
  "key_ok can k \<longleftrightarrow> k < 128 \<and> k \<noteq> 10 \<and> k \<noteq> 4 \<and>
     (if k = 8 \<or> k = 127 then can 8 \<and> can 32 else \<forall>ch \<in> set (echo_map ! unat k). can ch)"

lemma echo_map_length [simp]: "length echo_map = 128"
  by (simp add: echo_map_def)

lemma length_edit: "length (edit c ks) \<le> length c + length ks"
proof (induction ks arbitrary: c)
  case (Cons k ks)
  have "length (edit c (k # ks)) \<le> length (if k = 8 \<or> k = 127 then butlast c else c @ [k]) + length ks"
    using Cons.IH [of "if k = 8 \<or> k = 127 then butlast c else c @ [k]"] by (simp only: edit.simps)
  then show ?case by (auto split: if_splits)
qed simp

lemma set_edit: "set (edit c ks) \<subseteq> set c \<union> set ks"
proof (induction ks arbitrary: c)
  case (Cons k ks)
  let ?c = "if k = 8 \<or> k = 127 then butlast c else c @ [k]"
  have "set ?c \<subseteq> set c \<union> {k}" by (auto dest: in_set_butlastD)
  with Cons.IH [of ?c] show ?case by auto
qed simp

text \<open>
  The contract of an output device: it takes the characters \<open>can\<close> says it takes, without typing into the terminal.
\<close>

locale tty_output =
  fixes out :: "byte \<Rightarrow> petix_tty \<times> 'o \<Rightarrow> kerr + (petix_tty \<times> 'o)" and dev_ok :: "'o \<Rightarrow> bool" and can :: "byte \<Rightarrow> bool"
  assumes out_law: "dev_ok d \<Longrightarrow> can ch \<Longrightarrow> \<exists>d'. out ch (t, d) = Inr (t, d') \<and> dev_ok d'"
begin

lemma write_ok: "dev_ok d \<Longrightarrow> \<forall>ch \<in> set bs. can ch \<Longrightarrow> \<exists>d'. petix_tty_write out bs (t, d) = Inr (t, d') \<and> dev_ok d'"
proof (induction bs arbitrary: d)
  case (Cons b bs)
  from out_law [OF Cons.prems(1), of b t] Cons.prems(2) obtain d1 where "out b (t, d) = Inr (t, d1)" "dev_ok d1" by auto
  with Cons.IH [of d1] Cons.prems(2) show ?case by (simp add: petix_tty_write_def)
qed (simp add: petix_tty_write_def)

text \<open>A key other than erase, line feed and control-D; and erase.\<close>

lemma type_char:
  assumes "tty_holds t p c" "dev_ok d" "length p + length c + 1 < TTY_BUFF_LEN" "c_lflag (tios t) AND ICANON \<noteq> 0"
    "k < 128" "k \<noteq> 8" "k \<noteq> 127" "k \<noteq> 10" "k \<noteq> 4" "\<forall>ch \<in> set (echo_map ! unat k). can ch"
  shows "\<exists>t' d'. petix_tty_input_seq out [k] (t, d) = Inr (t', d') \<and> tty_holds t' p (c @ [k]) \<and> tios t' = tios t \<and> dev_ok d'"
proof -
  from store_char_holds [OF assms(1,3), of k] obtain t1 where t1: "store_char k t = Inr t1" "tty_holds t1 p (c @ [k])" "tios t1 = tios t"
    by auto
  have u: "unat k < 128" using assms(5) by (simp add: word_less_nat_alt)
  from write_ok [OF assms(2,10), of t1] obtain d1 where "echo_char out k (t1, d) = Inr (t1, d1)" "dev_ok d1"
    using u by (auto simp: echo_char_def)
  with assms t1 show ?thesis by (simp add: petix_tty_input_seq_def input_chars_def input_send_def)
qed

lemma type_enter:
  assumes "tty_holds t p c" "dev_ok d" "length p + length c + 2 < TTY_BUFF_LEN" "can 10"
  shows "\<exists>t' d'. petix_tty_input_seq out [10] (t, d) = Inr (t', d') \<and> tty_holds t' (p @ c @ [10, SEND_CHAR]) [] \<and> tios t' = tios t \<and> dev_ok d'"
proof -
  from store_char_holds [OF assms(1), of 10] assms(3) obtain t1 where
    t1: "store_char 10 t = Inr t1" "tty_holds t1 p (c @ [10])" "tios t1 = tios t" by auto
  have "echo_map ! 10 = [10]" by (simp add: echo_map_def)
  with write_ok [OF assms(2), of "[10]" t1] assms(4) obtain d1 where "echo_char out 10 (t1, d) = Inr (t1, d1)" "dev_ok d1"
    by (auto simp: echo_char_def)
  moreover from send_line_holds [OF t1(2)] assms(3) obtain t2 where
    "send_line t1 = Inr t2" "tty_holds t2 (p @ c @ [10, SEND_CHAR]) []" "tios t2 = tios t" using t1(3) by auto
  ultimately show ?thesis using t1 assms(2) by (auto simp: petix_tty_input_seq_def input_chars_def input_send_def)
qed


lemma type_erase:
  assumes "tty_holds t p c" "dev_ok d" "can 8" "can 32" "\<forall>ch \<in> set c. ch < 128" "k = 8 \<or> k = 127"
  shows "\<exists>t' d'. petix_tty_input_seq out [k] (t, d) = Inr (t', d') \<and> tty_holds t' p (butlast c) \<and> tios t' = tios t \<and> dev_ok d'"
proof (cases c rule: rev_cases)
  case Nil
  with assms erase_nothing [of t p out d] show ?thesis by (auto simp: petix_tty_input_seq_def input_chars_def input_send_def)
next
  case (snoc l x)
  note e = erase_holds [OF assms(1) [unfolded snoc]]
  let ?off = "step_back (loff t)"
  let ?n = "length (echo_map ! unat x)"
  have u: "unat x < 128" using assms(5) snoc by (simp add: word_less_nat_alt)
  from write_ok [OF assms(2), of "replicate ?n 8" "t\<lparr>loff := ?off\<rparr>"] assms(3) obtain d1 where
    d1: "petix_tty_write out (replicate ?n 8) (t\<lparr>loff := ?off\<rparr>, d) = Inr (t\<lparr>loff := ?off\<rparr>, d1)" "dev_ok d1" by auto
  from write_ok [OF d1(2), of "replicate ?n 32" "t\<lparr>loff := ?off\<rparr>"] assms(4) obtain d2 where
    d2: "petix_tty_write out (replicate ?n 32) (t\<lparr>loff := ?off\<rparr>, d1) = Inr (t\<lparr>loff := ?off\<rparr>, d2)" "dev_ok d2" by auto
  from write_ok [OF d2(2), of "replicate ?n 8" "t\<lparr>loff := ?off\<rparr>"] assms(3) obtain d3 where
    d3: "petix_tty_write out (replicate ?n 8) (t\<lparr>loff := ?off\<rparr>, d2) = Inr (t\<lparr>loff := ?off\<rparr>, d3)" "dev_ok d3" by auto
  have "petix_tty_input_seq out [k] (t, d) = erase_char out (t, d)" using assms(6) by (auto simp: petix_tty_input_seq_def input_chars_def input_send_def)
  also have "\<dots> = Inr (t\<lparr>loff := ?off\<rparr>, d3)"
    using e(1) u d1(1) d2(1) d3(1) by (simp add: erase_char_def e(2) Let_def)
  finally show ?thesis using e(3) d3(2) snoc by simp
qed

lemma type_keys:
  assumes "tty_holds t p c" "dev_ok d" "c_lflag (tios t) AND ICANON \<noteq> 0" "\<forall>ch \<in> set c. ch < 128" "\<forall>k \<in> set ks. key_ok can k"
    "length p + length c + length ks < TTY_BUFF_LEN"
  shows "\<exists>t' d'. for_each (\<lambda>k. petix_tty_input_seq out [k]) ks (t, d) = Inr (t', d') \<and> tty_holds t' p (edit c ks) \<and>
    tios t' = tios t \<and> dev_ok d'"
  using assms
proof (induction ks arbitrary: t c d)
  case (Cons k ks)
  let ?c = "if k = 8 \<or> k = 127 then butlast c else c @ [k]"
  have k: "key_ok can k" using Cons.prems(5) by simp
  have "\<exists>t' d'. petix_tty_input_seq out [k] (t, d) = Inr (t', d') \<and> tty_holds t' p ?c \<and> tios t' = tios t \<and> dev_ok d'"
  proof (cases "k = 8 \<or> k = 127")
    case True
    with type_erase [OF Cons.prems(1,2) _ _ Cons.prems(4)] k show ?thesis by (simp add: key_ok_def)
  next
    case False
    with type_char [OF Cons.prems(1,2) _ Cons.prems(3), of k] k Cons.prems(6) show ?thesis by (simp add: key_ok_def)
  qed
  then obtain t1 d1 where t1: "petix_tty_input_seq out [k] (t, d) = Inr (t1, d1)" "tty_holds t1 p ?c" "tios t1 = tios t" "dev_ok d1"
    by blast
  have "\<forall>ch \<in> set ?c. ch < 128" using Cons.prems(4) k by (auto simp: key_ok_def dest: in_set_butlastD)
  moreover have "length p + length ?c + length ks < TTY_BUFF_LEN" using Cons.prems(6) by auto
  ultimately show ?case using Cons.IH [OF t1(2,4)] Cons.prems(3,5) t1(1,3) by simp
qed simp

text \<open>Typing a line into an idle terminal and reading it.\<close>

lemma type_and_read:
  assumes "tty_holds t [] []" "dev_ok d" "c_lflag (tios t) AND ICANON \<noteq> 0" "\<forall>k \<in> set ks. key_ok can k" "can 10"
    "length ks + 2 < TTY_BUFF_LEN" "0 < n"
  shows "\<exists>t1 d1 got t2. for_each (\<lambda>k. petix_tty_input_seq out [k]) (ks @ [10]) (t, d) = Inr (t1, d1) \<and> dev_ok d1 \<and>
    petix_tty_read evs before n t1 = Inr (int (min n (length (edit [] ks) + 1)), got, t2) \<and>
    take (min n (length (edit [] ks) + 1)) got = take n (edit [] ks @ [10]) \<and>
    (length (edit [] ks) < n \<longrightarrow> tty_holds t2 [] [])"
proof -
  from type_keys [OF assms(1-3) _ assms(4)] assms(6) obtain t0 d0 where
    t0: "for_each (\<lambda>k. petix_tty_input_seq out [k]) ks (t, d) = Inr (t0, d0)" "tty_holds t0 [] (edit [] ks)" "dev_ok d0" by auto
  have "length (edit [] ks) + 2 < TTY_BUFF_LEN" using length_edit [of "[]" ks] assms(6) by simp
  with type_enter [OF t0(2,3) _ assms(5)] obtain t1 d1 where
    t1: "petix_tty_input_seq out [10] (t0, d0) = Inr (t1, d1)" "tty_holds t1 ((edit [] ks @ [10]) @ [SEND_CHAR]) []" "dev_ok d1" by auto
  have "k \<noteq> SEND_CHAR" if "key_ok can k" for k using that by (auto simp: key_ok_def SEND_CHAR_def)
  then have "SEND_CHAR \<notin> set (edit [] ks @ [10])"
    using set_edit [of "[]" ks] assms(4) by (auto simp: SEND_CHAR_def)
  from read_line [OF t1(2) this assms(7), of evs before] t0(1) t1(1,3) show ?thesis
    by (simp add: for_each_append) force
qed

end

section \<open>Terminals with an emulator\<close>

text \<open>A text that asks for no answer goes to the emulator character by character.\<close>

lemma write_run:
  "ansi_run be seq0 bs tb = Inr tb' \<Longrightarrow> petix_tty_write (term_putch (Suc d) be seq0) bs (t, tb) = Inr (t, tb')"
  by (induction bs arbitrary: tb) (auto simp: petix_tty_write_def kres split: if_splits)

text \<open>Every screen is an output for the line discipline: it takes plain characters and line feeds.\<close>

sublocale ansi_screen \<subseteq> tout: tty_output "term_putch (Suc dep) be seq0" "\<lambda>tb. \<exists>rdoc. shows_doc be ok cell blank rdoc tb"
  "\<lambda>ch. ch = 10 \<or> plain ch \<and> char_ok ch" for dep seq0
proof
  fix tb ch t
  assume "\<exists>rdoc. shows_doc be ok cell blank rdoc tb" "ch = 10 \<or> plain ch \<and> char_ok ch"
  then obtain rdoc where r: "shows_doc be ok cell blank rdoc tb" by blast
  obtain it where it: "item_bytes it = [ch]" "out_ok char_ok it"
    using \<open>ch = 10 \<or> plain ch \<and> char_ok ch\<close> by (metis item_bytes.simps(1,2) out_ok.simps(1,2))
  obtain x b where "tb = (x, b)" by (cases tb)
  with run_item [of rdoc x b it seq0] r it obtain tb' where
    tb': "ansi_run be seq0 [ch] tb = Inr tb'" "shows_doc be ok cell blank (doc_item (nat (col_n be)) img it rdoc) tb'" by metis
  from write_run [OF tb'(1), of dep t] have "term_putch (Suc dep) be seq0 ch (t, tb) = Inr (t, tb')"
    by (cases "term_putch (Suc dep) be seq0 ch (t, tb)") (simp_all add: petix_tty_write_def del: term_putch.simps)
  with tb'(2) show "\<exists>d'. term_putch (Suc dep) be seq0 ch (t, tb) = Inr (t, d') \<and> (\<exists>rdoc. shows_doc be ok cell blank rdoc d')"
    by blast
qed

text \<open>
  How deep the calls go: the echo of an answer holds no escape character, so it asks for no further answer. \<open>calm\<close>
  says that the backend returns.
\<close>

definition calm :: "'b ansi_backend \<Rightarrow> bool" where
  "calm be \<longleftrightarrow> (\<forall>r ch y x b. b_putch be r ch y x b \<noteq> Inl Spin) \<and> (\<forall>y x b. b_curto be y x b \<noteq> Inl Spin) \<and>
     (\<forall>b. b_scroll_up be b \<noteq> Inl Spin)"

lemma rd_calm [simp]: "rd xs i \<noteq> Inl Spin" and wr_calm [simp]: "wr xs i v \<noteq> Inl Spin"
  by (simp_all add: rd_def wr_def)

lemma unesc_calm: "calm be \<Longrightarrow> putch_unesc be ch tb \<noteq> Inl Spin"
  by (auto simp: calm_def putch_unesc_def unesc_finish_def kres Let_def split: prod.splits if_splits)

lemma putuintnz_calm: "(\<And>c s. put c s \<noteq> Inl Spin) \<Longrightarrow> putuintnz put n s \<noteq> Inl Spin"
  by (induction put n s rule: putuintnz.induct) (auto simp: putuintnz.simps kres)

lemma putint_calm: "(\<And>c s. put c s \<noteq> Inl Spin) \<Longrightarrow> putint put n s \<noteq> Inl Spin"
  by (auto simp: putint_def putuint_def kres putuintnz_calm)

lemma strnlen_calm: "strnlen xs n \<noteq> Inl Spin"
proof -
  have "strnlen_from k xs n \<noteq> Inl Spin" for k
    by (induction k xs n rule: strnlen_from.induct) (subst strnlen_from.simps, auto split: list.splits)
  then show ?thesis by (simp add: strnlen_def)
qed

lemma status_calm: "status_seq seq0 t \<noteq> Inl Spin"
proof -
  have "sputc c s \<noteq> Inl Spin" for c s by (auto simp: sputc_def kres split: prod.splits)
  then have "sprintf seq0 status_fmt [VWord a, VWord b] \<noteq> Inl Spin" for a b
    by (auto simp: sprintf_def status_fmt_def kres conv_def conv_num_def putint_calm)
  moreover have "strnlen xs n \<noteq> Inl Spin" for xs n by (rule strnlen_calm)
  ultimately show ?thesis by (auto simp: status_seq_def kres)
qed

lemma rendition_calm: "process_rendition_command is t \<noteq> Inl Spin"
  by (induction "is" t rule: process_rendition_command.induct) (auto simp: kres)

lemma ansi_calm: "calm be \<Longrightarrow> ansi_putch be seq0 ch tb \<noteq> Inl Spin"
  using unesc_calm [of be ch tb] status_calm rendition_calm
  by (cases tb) (auto simp: ansi_putch_def kres Let_def split: ansi_state.splits if_splits)

text \<open>Outside a sequence a character other than escape is drawn, and the parser stays where it is.\<close>

definition outside :: "petix_tty \<times> ansi_term \<times> 'b \<Rightarrow> bool" where
  "outside s \<longleftrightarrow> astate (fst (snd s)) = ANSI_S_NONE"

lemma finish_state: "unesc_finish be (t, b) = Inr (t', b') \<Longrightarrow> astate t' = astate t"
  by (auto simp: unesc_finish_def kres split: if_splits)

lemma unesc_state: "putch_unesc be ch (t, b) = Inr (t', b') \<Longrightarrow> astate t' = astate t"
  by (auto simp: putch_unesc_def kres Let_def dest!: finish_state split: if_splits)

lemma ansi_outside:
  assumes "astate t = ANSI_S_NONE" "ch \<noteq> 27"
  shows "ansi_putch be seq0 ch (t, b) = kbind (putch_unesc be ch (t, b)) (\<lambda>tb. Inr (None, tb))"
  using assms by (simp add: ansi_putch_def)

lemma ansi_reply:
  assumes "ansi_putch be seq0 ch (t, b) = Inr (Some seq, t', b')"
  shows "astate t' = ANSI_S_NONE"
  using assms by (auto simp: ansi_putch_def kres Let_def split: if_splits ansi_state.splits)

text \<open>Two loop bodies that do the same, return, and keep \<open>Q\<close>.\<close>

definition same_run :: "('s \<Rightarrow> bool) \<Rightarrow> ('s \<Rightarrow> kerr + 's) \<Rightarrow> ('s \<Rightarrow> kerr + 's) \<Rightarrow> bool" where
  "same_run Q f g \<longleftrightarrow> (\<forall>s. Q s \<longrightarrow> f s = g s \<and> g s \<noteq> Inl Spin \<and> (\<forall>s'. g s = Inr s' \<longrightarrow> Q s'))"

lemma same_runD: "same_run Q f g \<Longrightarrow> Q s \<Longrightarrow> f s = g s \<and> g s \<noteq> Inl Spin \<and> (\<forall>s'. g s = Inr s' \<longrightarrow> Q s')"
  unfolding same_run_def by blast

lemma same_bind:
  assumes "same_run Q f g" "same_run Q f' g'"
  shows "same_run Q (\<lambda>s. kbind (f s) f') (\<lambda>s. kbind (g s) g')"
  unfolding same_run_def
proof (intro allI impI)
  fix s
  assume q: "Q s"
  note fg = same_runD [OF assms(1) q]
  show "kbind (f s) f' = kbind (g s) g' \<and> kbind (g s) g' \<noteq> Inl Spin \<and> (\<forall>s'. kbind (g s) g' = Inr s' \<longrightarrow> Q s')"
  proof (cases "f s")
    case (Inl e)
    with fg have "g s = Inl e" "e \<noteq> Spin" by auto
    with Inl show ?thesis by simp
  next
    case (Inr s1)
    with fg have q1: "Q s1" and g: "g s = Inr s1" by auto
    from same_runD [OF assms(2) q1] show ?thesis unfolding Inr g kbind.simps .
  qed
qed

lemma same_for_each:
  "\<forall>x \<in> set xs. same_run Q (f x) (g x) \<Longrightarrow> same_run Q (for_each f xs) (for_each g xs)"
proof (induction xs)
  case (Cons x xs)
  then have "same_run Q (\<lambda>s. kbind (f x s) (for_each f xs)) (\<lambda>s. kbind (g x s) (for_each g xs))" by (intro same_bind) simp_all
  then show ?case unfolding same_run_def for_each.simps .
qed (simp add: same_run_def)

lemma term_same: "calm be \<Longrightarrow> ch \<noteq> 27 \<Longrightarrow> same_run outside (term_putch (Suc d) be seq0 ch) (term_putch (Suc e) be seq0 ch)"
proof -
  assume a: "calm be" "ch \<noteq> 27"
  show ?thesis unfolding same_run_def
  proof (intro allI impI)
    fix s :: "petix_tty \<times> ansi_term \<times> 'a"
    assume o: "outside s"
    obtain t x b where s: "s = (t, x, b)" by (cases s)
    have "ansi_putch be seq0 ch (x, b) = kbind (putch_unesc be ch (x, b)) (\<lambda>tb. Inr (None, tb))"
      using ansi_outside [OF _ a(2)] o s by (simp add: outside_def)
    then have r: "term_putch (Suc k) be seq0 ch s = kbind (putch_unesc be ch (x, b)) (\<lambda>tb. Inr (t, tb))" for k
      using s by (cases "putch_unesc be ch (x, b)") simp_all
    show "term_putch (Suc d) be seq0 ch s = term_putch (Suc e) be seq0 ch s \<and> term_putch (Suc e) be seq0 ch s \<noteq> Inl Spin \<and>
        (\<forall>s'. term_putch (Suc e) be seq0 ch s = Inr s' \<longrightarrow> outside s')"
      unfolding r using unesc_calm [OF a(1), of ch "(x, b)"] unesc_state [of be ch x b] o s
      by (auto simp: kres outside_def)
  qed
qed

lemma echo_no_escape: "e \<in> set echo_map \<Longrightarrow> 27 \<notin> set e"
proof -
  have "\<forall>e \<in> set echo_map. 27 \<notin> set e" by (simp add: echo_map_def)
  then show "e \<in> set echo_map \<Longrightarrow> 27 \<notin> set e" by blast
qed

lemma same_write:
  "\<forall>ch. ch \<noteq> 27 \<longrightarrow> same_run Q (f ch) (g ch) \<Longrightarrow> 27 \<notin> set bs \<Longrightarrow> same_run Q (petix_tty_write f bs) (petix_tty_write g bs)"
proof -
  assume a: "\<forall>ch. ch \<noteq> 27 \<longrightarrow> same_run Q (f ch) (g ch)" "27 \<notin> set bs"
  have "petix_tty_write h bs = for_each h bs" for h :: "byte \<Rightarrow> 'a \<Rightarrow> kerr + 'a" by (rule ext) (simp add: petix_tty_write_def)
  moreover have "same_run Q (for_each f bs) (for_each g bs)" by (rule same_for_each) (use a in metis)
  ultimately show ?thesis by simp
qed

lemma same_outside: "outside (t, d) \<Longrightarrow> outside (t', d)"
  by (simp add: outside_def)

lemma same_echo:
  assumes "\<forall>ch. ch \<noteq> 27 \<longrightarrow> same_run Q (f ch) (g ch)"
  shows "same_run Q (echo_char f c) (echo_char g c)"
proof (cases "unat c < 128")
  case True
  then have "27 \<notin> set (echo_map ! unat c)" by (intro echo_no_escape) simp
  moreover have "echo_char h c = petix_tty_write h (echo_map ! unat c)"
    for h :: "byte \<Rightarrow> petix_tty \<times> 'a \<Rightarrow> kerr + (petix_tty \<times> 'a)" using True by (intro ext) (simp add: echo_char_def)
  ultimately show ?thesis using same_write [OF assms] by simp
qed (simp add: echo_char_def same_run_def)

lemma same_erase:
  assumes "\<forall>ch. ch \<noteq> 27 \<longrightarrow> same_run outside (f ch) (g ch)"
  shows "same_run outside (erase_char f) (erase_char g)"
proof -
  have w: "same_run outside (\<lambda>s. kbind (petix_tty_write f (replicate n 8) s) (\<lambda>s. kbind (petix_tty_write f (replicate n 32) s) (petix_tty_write f (replicate n 8))))
      (\<lambda>s. kbind (petix_tty_write g (replicate n 8) s) (\<lambda>s. kbind (petix_tty_write g (replicate n 32) s) (petix_tty_write g (replicate n 8))))" for n
    by (intro same_bind same_write [OF assms]) auto
  show ?thesis unfolding same_run_def
  proof (intro allI impI)
    fix s :: "petix_tty \<times> ansi_term \<times> 'a"
    assume o: "outside s"
    obtain t d where s: "s = (t, d)" by (cases s)
    let ?t = "t\<lparr>loff := step_back (loff t)\<rparr>"
    have "outside (?t, d)" using same_outside o s by blast
    from same_runD [OF w this] o s
    show "erase_char f s = erase_char g s \<and> erase_char g s \<noteq> Inl Spin \<and> (\<forall>s'. erase_char g s = Inr s' \<longrightarrow> outside s')"
      by (auto simp: erase_char_def Let_def rd_def)
  qed
qed

lemma store_calm: "for_each store_char seq t \<noteq> Inl Spin"
proof (induction seq arbitrary: t)
  case (Cons c seq)
  then show ?case by (auto simp: kres store_char_def)
qed simp

lemma same_chars:
  assumes "\<forall>ch. ch \<noteq> 27 \<longrightarrow> same_run outside (f ch) (g ch)"
  shows "same_run outside (input_chars f c0 seq) (input_chars g c0 seq)"
  unfolding same_run_def
proof (intro allI impI)
  fix s :: "petix_tty \<times> ansi_term \<times> 'a"
  assume o: "outside s"
  have ec: "for_each (echo_char f) seq (t, snd s) = for_each (echo_char g) seq (t, snd s) \<and>
      for_each (echo_char g) seq (t, snd s) \<noteq> Inl Spin \<and>
      (\<forall>s'. for_each (echo_char g) seq (t, snd s) = Inr s' \<longrightarrow> outside s')" for t
  proof (rule same_runD [OF same_for_each])
    show "\<forall>c \<in> set seq. same_run outside (echo_char f c) (echo_char g c)" using same_echo [OF assms] by blast
    show "outside (t, snd s)" using o by (simp add: outside_def)
  qed
  have o': "outside (t, snd s)" for t using o by (simp add: outside_def)
  show "input_chars f c0 seq s = input_chars g c0 seq s \<and> input_chars g c0 seq s \<noteq> Inl Spin \<and>
      (\<forall>s'. input_chars g c0 seq s = Inr s' \<longrightarrow> outside s')"
  proof (cases "for_each store_char seq (fst s)")
    case (Inl e)
    with store_calm [of seq "fst s"] o show ?thesis by (auto simp: input_chars_def)
  next
    case (Inr t)
    from ec [of t] o o' [of t] show ?thesis by (auto simp: input_chars_def Inr)
  qed
qed

lemma same_send: "same_run outside (input_send c0) (input_send c0)"
  by (auto simp: same_run_def input_send_def send_line_def store_char_def kres outside_def split: if_splits)

lemma same_input:
  assumes "\<forall>ch. ch \<noteq> 27 \<longrightarrow> same_run outside (f ch) (g ch)"
  shows "same_run outside (petix_tty_input_seq f seq) (petix_tty_input_seq g seq)"
  unfolding same_run_def
proof (intro allI impI)
  fix s :: "petix_tty \<times> ansi_term \<times> 'a"
  assume o: "outside s"
  show "petix_tty_input_seq f seq s = petix_tty_input_seq g seq s \<and> petix_tty_input_seq g seq s \<noteq> Inl Spin \<and>
      (\<forall>s'. petix_tty_input_seq g seq s = Inr s' \<longrightarrow> outside s')"
  proof (cases "seq = []")
    case False
    then have "rd seq 0 = Inr (seq ! 0)" by simp
    with same_runD [OF same_erase [OF assms] o] same_runD [OF same_bind [OF same_chars [OF assms] same_send] o, of "seq ! 0" seq "seq ! 0"]
    show ?thesis by (simp add: petix_tty_input_seq_def)
  qed (simp add: petix_tty_input_seq_def)
qed

text \<open>Two calls inside each other are always enough.\<close>

lemma term_depth:
  assumes "calm be"
  shows "same_run (\<lambda>_. True) (term_putch (Suc (Suc d)) be seq0 ch) (term_putch 2 be seq0 ch)"
  unfolding same_run_def
proof (intro allI impI)
  fix s :: "petix_tty \<times> ansi_term \<times> 'a"
  obtain t x b where s: "s = (t, x, b)" by (cases s)
  have i: "same_run outside (petix_tty_input_seq (term_putch (Suc d) be seq0) seq) (petix_tty_input_seq (term_putch (Suc 0) be seq0) seq)" for seq
    by (rule same_input) (use term_same [OF assms] in blast)
  show "term_putch (Suc (Suc d)) be seq0 ch s = term_putch 2 be seq0 ch s \<and> term_putch 2 be seq0 ch s \<noteq> Inl Spin \<and>
      (\<forall>s'. term_putch 2 be seq0 ch s = Inr s' \<longrightarrow> True)"
  proof (cases "ansi_putch be seq0 ch (x, b)")
    case (Inl e)
    with ansi_calm [OF assms, of seq0 ch "(x, b)"] s show ?thesis by (simp add: numeral_2_eq_2)
  next
    case (Inr a)
    obtain reply x' b' where a: "a = (reply, x', b')" by (cases a)
    show ?thesis
    proof (cases reply)
      case None
      with Inr a s show ?thesis by (simp add: numeral_2_eq_2)
    next
      case (Some seq)
      then have "outside (t, x', b')" using ansi_reply [of be seq0 ch x b seq x' b'] Inr a by (simp add: outside_def)
      from same_runD [OF i this, of seq] show ?thesis using Inr a Some s by (simp add: numeral_2_eq_2)
    qed
  qed
qed

lemma write_depth:
  assumes "calm be"
  shows "petix_tty_write (term_putch (Suc (Suc d)) be seq0) bs s = petix_tty_write (term_putch 2 be seq0) bs s"
    "petix_tty_write (term_putch 2 be seq0) bs s \<noteq> Inl Spin"
proof -
  have "same_run (\<lambda>_. True) (for_each (term_putch (Suc (Suc d)) be seq0) bs) (for_each (term_putch 2 be seq0) bs)"
    by (rule same_for_each) (use term_depth [OF assms] in blast)
  from same_runD [OF this, of s]
  show "petix_tty_write (term_putch (Suc (Suc d)) be seq0) bs s = petix_tty_write (term_putch 2 be seq0) bs s"
    "petix_tty_write (term_putch 2 be seq0) bs s \<noteq> Inl Spin" by (simp_all add: petix_tty_write_def)
qed

lemma term_keeps: "out_keeps (term_putch d be seq0)"
proof (induction d)
  case (Suc d)
  show ?case unfolding out_keeps_def
  proof (intro allI impI)
    fix ch and s s' :: "petix_tty \<times> ansi_term \<times> 'a"
    assume a: "term_putch (Suc d) be seq0 ch s = Inr s'" "tty_ok (fst s)"
    then obtain reply tb where r: "(case reply of None \<Rightarrow> Inr (fst s, tb) | Some seq \<Rightarrow> petix_tty_input_seq (term_putch d be seq0) seq (fst s, tb)) = Inr s'"
      by (auto simp: kres)
    show "tty_ok (fst s')"
    proof (cases reply)
      case None
      with r a(2) show ?thesis by auto
    next
      case (Some seq)
      with r input_seq_ok [OF Suc, of seq "(fst s, tb)" s'] a(2) show ?thesis by simp
    qed
  qed
qed (simp add: out_keeps_def)

end
