(* ===== verification/Vgatty.thy ===== *)
theory Vgatty
  imports Tty
begin

unbundle bit_operations_syntax

text \<open>
  The VGA text console, \<open>kernel/device/tty/ttys/vgatty.c\<close>: the backend that draws the cells of the emulator into the
  80x25 text buffer at 0xB8000, and the console device. Accesses to the ports of the adapter are recorded in a log; what
  the adapter answers is an argument.
\<close>

section \<open>The source\<close>

definition VGA_WIDTH :: nat where "VGA_WIDTH = 80"
definition VGA_HEIGHT :: nat where "VGA_HEIGHT = 25"
definition VGA_COLOR_BLACK :: nat where "VGA_COLOR_BLACK = 0"
definition VGA_COLOR_LIGHT_GREY :: nat where "VGA_COLOR_LIGHT_GREY = 7"

record vga_entry =
  vch :: byte
  vfg :: nat
  vbold :: bool
  vbg :: nat
  vblink :: bool

datatype port_access = In u16 | Out u16 byte

record vga =
  term_buff :: "vga_entry list"
  vports :: "port_access list"

definition enable_blink :: "byte \<Rightarrow> vga \<Rightarrow> vga" where
  "enable_blink attr v = v\<lparr>vports := vports v @ [In 0x3DA, Out 0x3C0 0x30, In 0x3C1, Out 0x3C0 (attr OR 8)]\<rparr>"

definition ansi_to_vga :: "nat list" where
  "ansi_to_vga = [0, 4, 2, 6, 1, 5, 3, 7]"

text \<open>A colour of the rendition; \<open>dflt\<close> stands for \<open>ANSI_DEFAULT\<close>. The fields of an entry have three bits.\<close>

definition vga_colour :: "nat \<Rightarrow> int \<Rightarrow> kerr + nat" where
  "vga_colour dflt c =
     (if c = ANSI_DEFAULT then Inr dflt
      else if 0 \<le> c then kbind (rd ansi_to_vga (nat c)) (\<lambda>v. Inr (v mod 8)) else Inl BadAccess)"

definition vga_index :: "int \<Rightarrow> int \<Rightarrow> nat" where
  "vga_index row col = unat (word_of_int row * of_nat VGA_WIDTH + word_of_int col :: u32)"

definition t_putch :: "ansi_rendition \<Rightarrow> byte \<Rightarrow> int \<Rightarrow> int \<Rightarrow> vga \<Rightarrow> kerr + vga" where
  "t_putch r ch row col v =
     kbind (rd (term_buff v) (vga_index row col)) (\<lambda>e.
     kbind (vga_colour VGA_COLOR_LIGHT_GREY (rfg r)) (\<lambda>fg.
     kbind (vga_colour VGA_COLOR_BLACK (rbg r)) (\<lambda>bg.
     let e = e\<lparr>vch := ch, vfg := fg, vbg := bg, vbold := rbold r\<rparr>;
         e = (if rnegative r then e\<lparr>vbg := vfg e, vfg := vbg e\<rparr> else e)
     in kbind (wr (term_buff v) (vga_index row col) e) (\<lambda>buf. Inr (v\<lparr>term_buff := buf\<rparr>)))))"

definition t_curto :: "int \<Rightarrow> int \<Rightarrow> vga \<Rightarrow> kerr + vga" where
  "t_curto row col v =
     (let pos = (ucast (word_of_int row * of_nat VGA_WIDTH + word_of_int col :: u32) :: u16)
      in Inr (v\<lparr>vports := vports v @ [Out 0x3D4 0x0F, Out 0x3D5 (ucast (pos AND 0xFF)),
           Out 0x3D4 0x0E, Out 0x3D5 (ucast (drop_bit 8 pos AND 0xFF))]\<rparr>))"

text \<open>The bodies of the two loops of \<open>t_scroll_up\<close>.\<close>

definition copy_up :: "nat \<times> nat \<Rightarrow> vga_entry list \<Rightarrow> kerr + vga_entry list" where
  "copy_up yx buf = (let (y, x) = yx in kbind (rd buf ((y + 1) * VGA_WIDTH + x)) (wr buf (y * VGA_WIDTH + x)))"

definition clear_last :: "nat \<Rightarrow> vga_entry list \<Rightarrow> kerr + vga_entry list" where
  "clear_last x buf =
     (let index = (VGA_HEIGHT - 1) * VGA_WIDTH + x in kbind (rd buf index) (\<lambda>e.
      wr buf index (e\<lparr>vch := 32, vbg := VGA_COLOR_BLACK, vfg := VGA_COLOR_LIGHT_GREY\<rparr>)))"

definition t_scroll_up :: "vga \<Rightarrow> kerr + vga" where
  "t_scroll_up v =
     kbind (for_each copy_up (concat (map (\<lambda>y. map (\<lambda>x. (y, x)) [0..<VGA_WIDTH]) [0..<VGA_HEIGHT - 1])) (term_buff v)) (\<lambda>buf.
     kbind (for_each clear_last [0..<VGA_WIDTH] buf) (\<lambda>buf. Inr (v\<lparr>term_buff := buf\<rparr>)))"

definition vga_backend :: "vga ansi_backend" where
  "vga_backend = \<lparr>b_putch = t_putch, b_curto = t_curto, b_scroll_up = t_scroll_up,
     row_n = int VGA_HEIGHT, col_n = int VGA_WIDTH\<rparr>"

text \<open>Static objects are zero before they are initialised.\<close>

definition zero_term :: ansi_term where
  "zero_term = \<lparr>trow = 0, tcol = 0, numerics = replicate 16 0, noff = 0, nump = False, astate = ANSI_S_NONE,
     rendition = \<lparr>rfg = 0, rbg = 0, rbits = 0\<rparr>\<rparr>"

type_synonym vgatty = "petix_tty \<times> ansi_term \<times> vga"

definition tty_init :: "byte \<Rightarrow> vga \<Rightarrow> kerr + vgatty" where
  "tty_init attr v =
     kbind (ansi_init vga_backend zero_term (enable_blink attr v)) (\<lambda>tb. Inr (petix_tty_init, tb))"

definition tty_write :: "byte list \<Rightarrow> byte list \<Rightarrow> vgatty \<Rightarrow> kerr + vgatty" where
  "tty_write seq0 buf s = petix_tty_write (term_putch 2 vga_backend seq0) buf s"

definition vga_dev_open :: "kfile \<Rightarrow> int \<times> kfile" where
  "vga_dev_open f = (0, f\<lparr>fprivate := 0\<rparr>)"

definition vga_dev_write :: "byte list \<Rightarrow> byte list \<Rightarrow> vgatty \<Rightarrow> kerr + (int \<times> vgatty)" where
  "vga_dev_write seq0 buf s = kbind (tty_write seq0 buf s) (\<lambda>s. Inr (int (length buf), s))"

definition vga_dev_read :: "(petix_tty \<Rightarrow> petix_tty) list \<Rightarrow> byte \<Rightarrow> nat \<Rightarrow> vgatty \<Rightarrow> kerr + (int \<times> byte list \<times> vgatty)" where
  "vga_dev_read evs before n s = kbind (petix_tty_read evs before n (fst s)) (\<lambda>(r, bs, t). Inr (r, bs, t, snd s))"

definition vga_dev_ioctl :: "ioctl_req \<Rightarrow> ioctl_arg \<Rightarrow> vgatty \<Rightarrow> kerr + (int \<times> ioctl_arg \<times> vgatty)" where
  "vga_dev_ioctl req arg s =
     kbind (petix_tty_ioctl (int VGA_HEIGHT) (int VGA_WIDTH) req arg (fst s)) (\<lambda>(r, arg, t). Inr (r, arg, t, snd s))"

section \<open>The screen\<close>

text \<open>What is visible of an entry: the foreground of a space is not.\<close>

definition vga_visible :: "vga_entry \<Rightarrow> byte \<times> nat \<times> (nat \<times> bool) option" where
  "vga_visible e = (vch e, vbg e, if vch e = 32 then None else Some (vfg e, vbold e))"

definition vga_cell :: "vga \<Rightarrow> nat \<Rightarrow> nat \<Rightarrow> byte \<times> nat \<times> (nat \<times> bool) option" where
  "vga_cell v i j = vga_visible (term_buff v ! (i * VGA_WIDTH + j))"

text \<open>The colour of the terminal a rendition selects, and what a character looks like.\<close>

definition vga_pick :: "nat \<Rightarrow> int \<Rightarrow> nat" where
  "vga_pick dflt c = (if c = ANSI_DEFAULT then dflt else ansi_to_vga ! nat c)"

definition vga_image :: "ansi_rendition \<Rightarrow> byte \<Rightarrow> byte \<times> nat \<times> (nat \<times> bool) option" where
  "vga_image r ch =
     (let fg = vga_pick VGA_COLOR_LIGHT_GREY (rfg r); bg = vga_pick VGA_COLOR_BLACK (rbg r)
      in (ch, if rnegative r then fg else bg, if ch = 32 then None else Some (if rnegative r then bg else fg, rbold r)))"

definition vga_blank :: "byte \<times> nat \<times> (nat \<times> bool) option" where
  "vga_blank = (32, VGA_COLOR_BLACK, None)"

definition vga_ok :: "vga \<Rightarrow> bool" where
  "vga_ok v \<longleftrightarrow> length (term_buff v) = VGA_HEIGHT * VGA_WIDTH"

lemma vga_index_in:
  assumes "i < VGA_HEIGHT" "j < VGA_WIDTH"
  shows "vga_index (int i) (int j) = i * VGA_WIDTH + j"
proof -
  have "word_of_int (int i) * of_nat VGA_WIDTH + word_of_int (int j) = (of_nat (i * VGA_WIDTH + j) :: u32)" by simp
  moreover have "i * VGA_WIDTH + j < 2 ^ 32" using assms by (simp add: VGA_WIDTH_def VGA_HEIGHT_def)
  ultimately show ?thesis by (simp add: vga_index_def unat_of_nat_u32 del: of_nat_add of_nat_mult)
qed

lemma vga_colour_ok: "colour_ok c \<Longrightarrow> vga_colour dflt c = Inr (vga_pick dflt c)"
proof -
  have len: "length ansi_to_vga = 8" and "\<forall>x \<in> set ansi_to_vga. x < 8" by (simp_all add: ansi_to_vga_def)
  then have el: "k < 8 \<Longrightarrow> ansi_to_vga ! k < 8" for k using nth_mem by metis
  show "colour_ok c \<Longrightarrow> vga_colour dflt c = Inr (vga_pick dflt c)"
    using el by (auto simp: colour_ok_def vga_colour_def vga_pick_def len nat_less_iff)
qed

lemma cell_inj: "i * VGA_WIDTH + j = i' * VGA_WIDTH + j' \<Longrightarrow> j < VGA_WIDTH \<Longrightarrow> j' < VGA_WIDTH \<Longrightarrow> i = i' \<and> j = j'"
  by (metis add.commute add_right_cancel div_mult_self3 div_less VGA_WIDTH_def add_0 less_not_refl2 zero_less_numeral)

lemma cell_less: "i < VGA_HEIGHT \<Longrightarrow> j < VGA_WIDTH \<Longrightarrow> i * VGA_WIDTH + j < VGA_HEIGHT * VGA_WIDTH"
  by (simp add: VGA_HEIGHT_def VGA_WIDTH_def)

lemma t_putch_law:
  assumes "vga_ok v" "rend_ok r" "i < VGA_HEIGHT" "j < VGA_WIDTH"
  shows "\<exists>v'. t_putch r ch (int i) (int j) v = Inr v' \<and> vga_ok v' \<and>
    (\<forall>i' j'. i' < VGA_HEIGHT \<longrightarrow> j' < VGA_WIDTH \<longrightarrow> vga_cell v' i' j' = (if i' = i \<and> j' = j then vga_image r ch else vga_cell v i' j'))"
proof -
  have lt: "i * VGA_WIDTH + j < length (term_buff v)" using assms cell_less by (simp add: vga_ok_def)
  define e where "e = (let e = (term_buff v ! (i * VGA_WIDTH + j))\<lparr>vch := ch, vfg := vga_pick VGA_COLOR_LIGHT_GREY (rfg r),
      vbg := vga_pick VGA_COLOR_BLACK (rbg r), vbold := rbold r\<rparr>
    in if rnegative r then e\<lparr>vbg := vfg e, vfg := vbg e\<rparr> else e)"
  have "t_putch r ch (int i) (int j) v = Inr (v\<lparr>term_buff := (term_buff v)[i * VGA_WIDTH + j := e]\<rparr>)"
    using assms lt by (simp add: t_putch_def vga_index_in rend_ok_def vga_colour_ok e_def Let_def)
  moreover have "vga_visible e = vga_image r ch" by (simp add: e_def vga_visible_def vga_image_def Let_def)
  moreover have "vga_cell (v\<lparr>term_buff := (term_buff v)[i * VGA_WIDTH + j := e]\<rparr>) i' j' =
      (if i' = i \<and> j' = j then vga_visible e else vga_cell v i' j')" if "j' < VGA_WIDTH" for i' j'
  proof -
    have "i * VGA_WIDTH + j = i' * VGA_WIDTH + j' \<longleftrightarrow> i' = i \<and> j' = j" using cell_inj that assms(4) by metis
    then show ?thesis using lt by (simp add: vga_cell_def nth_list_update)
  qed
  moreover have "vga_ok (v\<lparr>term_buff := (term_buff v)[i * VGA_WIDTH + j := e]\<rparr>)" using assms(1) by (simp add: vga_ok_def)
  ultimately show ?thesis by simp
qed

lemma t_curto_law: "\<exists>v'. t_curto row col v = Inr v' \<and> term_buff v' = term_buff v"
  by (simp add: t_curto_def Let_def)

text \<open>The two loops of \<open>t_scroll_up\<close>: the rows move up one after the other, then the last one is cleared.\<close>

lemma copy_row:
  "k \<le> VGA_WIDTH \<Longrightarrow> length buf = VGA_HEIGHT * VGA_WIDTH \<Longrightarrow> y + 1 < VGA_HEIGHT \<Longrightarrow>
    \<exists>buf'. for_each copy_up (map (\<lambda>x. (y, x)) [0..<k]) buf = Inr buf' \<and>
      length buf' = length buf \<and>
      (\<forall>i. buf' ! i = (if y * VGA_WIDTH \<le> i \<and> i < y * VGA_WIDTH + k then buf ! (i + VGA_WIDTH) else buf ! i))"
proof (induction k)
  case (Suc k)
  then obtain b where b: "for_each copy_up (map (\<lambda>x. (y, x)) [0..<k]) buf = Inr b"
    "length b = length buf" "\<And>i. b ! i = (if y * VGA_WIDTH \<le> i \<and> i < y * VGA_WIDTH + k then buf ! (i + VGA_WIDTH) else buf ! i)" by auto
  have lt: "(y + 1) * VGA_WIDTH + k < length b" "y * VGA_WIDTH + k < length b"
    using cell_less [of "y + 1" k] cell_less [of y k] Suc.prems b(2) by simp_all
  let ?b = "b[y * VGA_WIDTH + k := b ! ((y + 1) * VGA_WIDTH + k)]"
  have "?b ! i = (if y * VGA_WIDTH \<le> i \<and> i < y * VGA_WIDTH + Suc k then buf ! (i + VGA_WIDTH) else buf ! i)" for i
    using lt Suc.prems(1) b(3) [of i] b(3) [of "(y + 1) * VGA_WIDTH + k"]
    by (cases "i = y * VGA_WIDTH + k") (auto simp: add_ac)
  moreover have "copy_up (y, k) b = Inr ?b" using lt by (simp add: copy_up_def)
  ultimately show ?case using b(1,2) by (auto simp: for_each_append)
qed auto

lemma copy_rows:
  "n < VGA_HEIGHT \<Longrightarrow> length buf = VGA_HEIGHT * VGA_WIDTH \<Longrightarrow>
    \<exists>buf'. for_each copy_up
        (concat (map (\<lambda>y. map (\<lambda>x. (y, x)) [0..<VGA_WIDTH]) [0..<n])) buf = Inr buf' \<and>
      length buf' = length buf \<and> (\<forall>i. buf' ! i = (if i < n * VGA_WIDTH then buf ! (i + VGA_WIDTH) else buf ! i))"
proof (induction n)
  case (Suc n)
  then obtain b where b: "for_each copy_up
      (concat (map (\<lambda>y. map (\<lambda>x. (y, x)) [0..<VGA_WIDTH]) [0..<n])) buf = Inr b" "length b = length buf"
    "\<And>i. b ! i = (if i < n * VGA_WIDTH then buf ! (i + VGA_WIDTH) else buf ! i)" by auto
  from copy_row [of VGA_WIDTH b n] Suc.prems b(2) obtain b' where
    b': "for_each copy_up (map (\<lambda>x. (n, x)) [0..<VGA_WIDTH]) b = Inr b'"
    "length b' = length b" "\<And>i. b' ! i = (if n * VGA_WIDTH \<le> i \<and> i < n * VGA_WIDTH + VGA_WIDTH then b ! (i + VGA_WIDTH) else b ! i)" by auto
  have "b' ! i = (if i < Suc n * VGA_WIDTH then buf ! (i + VGA_WIDTH) else buf ! i)" for i
    using b'(3) [of i] b(3) [of i] b(3) [of "i + VGA_WIDTH"] by auto
  then show ?case using b(1,2) b'(1,2) by (simp add: for_each_append)
qed simp

lemma clear_row:
  assumes "length buf = VGA_HEIGHT * VGA_WIDTH"
  shows "k \<le> VGA_WIDTH \<Longrightarrow> \<exists>buf'. for_each clear_last [0..<k] buf = Inr buf' \<and>
    length buf' = length buf \<and> (\<forall>j < k. vga_visible (buf' ! ((VGA_HEIGHT - 1) * VGA_WIDTH + j)) = vga_blank) \<and>
    (\<forall>i < (VGA_HEIGHT - 1) * VGA_WIDTH. buf' ! i = buf ! i)"
proof (induction k)
  case (Suc k)
  then obtain b where b: "for_each clear_last [0..<k] buf = Inr b"
    "length b = length buf" "\<And>j. j < k \<Longrightarrow> vga_visible (b ! ((VGA_HEIGHT - 1) * VGA_WIDTH + j)) = vga_blank"
    "\<And>i. i < (VGA_HEIGHT - 1) * VGA_WIDTH \<Longrightarrow> b ! i = buf ! i" by auto
  define p where "p = (VGA_HEIGHT - 1) * VGA_WIDTH"
  have lt: "p + k < length b"
    using cell_less [of "VGA_HEIGHT - 1" k] Suc.prems b(2) assms by (simp add: VGA_HEIGHT_def p_def)
  let ?b = "b[p + k := (b ! (p + k))\<lparr>vch := 32, vbg := VGA_COLOR_BLACK, vfg := VGA_COLOR_LIGHT_GREY\<rparr>]"
  have "vga_visible (?b ! (p + j)) = vga_blank" if "j < Suc k" for j
    using that b(3) [folded p_def] lt by (cases "j = k") (simp_all add: vga_visible_def vga_blank_def)
  moreover have "clear_last k b = Inr ?b" using lt by (simp add: clear_last_def p_def Let_def)
  ultimately show ?case using b(1,2,4) lt unfolding p_def by (simp add: for_each_append)
qed simp

lemma t_scroll_up_law:
  assumes "vga_ok v"
  shows "\<exists>v'. t_scroll_up v = Inr v' \<and> vga_ok v' \<and>
    (\<forall>i j. i < VGA_HEIGHT \<longrightarrow> j < VGA_WIDTH \<longrightarrow> vga_cell v' i j = (if i < VGA_HEIGHT - 1 then vga_cell v (i + 1) j else vga_blank))"
proof -
  from copy_rows [of "VGA_HEIGHT - 1" "term_buff v"] assms obtain b where b: "for_each copy_up
      (concat (map (\<lambda>y. map (\<lambda>x. (y, x)) [0..<VGA_WIDTH]) [0..<VGA_HEIGHT - 1])) (term_buff v) = Inr b" "length b = VGA_HEIGHT * VGA_WIDTH"
    "\<And>i. b ! i = (if i < (VGA_HEIGHT - 1) * VGA_WIDTH then term_buff v ! (i + VGA_WIDTH) else term_buff v ! i)"
    by (auto simp: vga_ok_def VGA_HEIGHT_def)
  from clear_row [OF b(2) order_refl] obtain b' where b': "for_each clear_last [0..<VGA_WIDTH] b = Inr b'"
    "length b' = length b" "\<And>j. j < VGA_WIDTH \<Longrightarrow> vga_visible (b' ! ((VGA_HEIGHT - 1) * VGA_WIDTH + j)) = vga_blank"
    "\<And>i. i < (VGA_HEIGHT - 1) * VGA_WIDTH \<Longrightarrow> b' ! i = b ! i" by auto
  have "vga_cell (v\<lparr>term_buff := b'\<rparr>) i j = (if i < VGA_HEIGHT - 1 then vga_cell v (i + 1) j else vga_blank)"
    if "i < VGA_HEIGHT" "j < VGA_WIDTH" for i j
  proof (cases "i < VGA_HEIGHT - 1")
    case True
    then have "i * VGA_WIDTH + j < (VGA_HEIGHT - 1) * VGA_WIDTH" using that by (simp add: VGA_HEIGHT_def VGA_WIDTH_def)
    then show ?thesis using b'(4) b(3) True by (simp add: vga_cell_def add_ac)
  next
    case False
    then have "i = VGA_HEIGHT - 1" using that by simp
    then show ?thesis using b'(3) that False by (simp add: vga_cell_def)
  qed
  then show ?thesis using b(1,2) b'(1,2) by (simp add: t_scroll_up_def vga_ok_def)
qed

interpretation vga: ansi_screen vga_backend vga_ok vga_cell vga_image vga_blank "\<lambda>_. True"
proof
  fix v r ch and i j :: nat
  assume "vga_ok v" "rend_ok r" "int i < row_n vga_backend" "int j < col_n vga_backend"
  then show "\<exists>b'. b_putch vga_backend r ch (int i) (int j) v = Inr b' \<and> vga_ok b' \<and>
      (\<forall>i' j'. int i' < row_n vga_backend \<longrightarrow> int j' < col_n vga_backend \<longrightarrow>
        vga_cell b' i' j' = (if i' = i \<and> j' = j then vga_image r ch else vga_cell v i' j'))"
    using t_putch_law [of v r i j ch] by (simp add: vga_backend_def)
next
  fix v and i j :: nat
  assume "vga_ok v" "int i < row_n vga_backend" "int j < col_n vga_backend"
  then show "\<exists>b'. b_curto vga_backend (int i) (int j) v = Inr b' \<and> vga_ok b' \<and>
      (\<forall>i' j'. int i' < row_n vga_backend \<longrightarrow> int j' < col_n vga_backend \<longrightarrow> vga_cell b' i' j' = vga_cell v i' j')"
    using t_curto_law [of "int i" "int j" v] by (auto simp: vga_backend_def vga_ok_def vga_cell_def)
next
  fix v
  assume "vga_ok v"
  from t_scroll_up_law [OF this] show "\<exists>b'. b_scroll_up vga_backend v = Inr b' \<and> vga_ok b' \<and>
      (\<forall>i' j'. int i' < row_n vga_backend \<longrightarrow> int j' < col_n vga_backend \<longrightarrow>
        vga_cell b' i' j' = (if int i' < row_n vga_backend - 1 then vga_cell v (i' + 1) j' else vga_blank))"
    by (auto simp: vga_backend_def VGA_HEIGHT_def)
qed (simp add: vga_backend_def VGA_HEIGHT_def VGA_WIDTH_def)

lemma vga_calm: "calm vga_backend"
proof -
  have cu: "for_each copy_up cs buf \<noteq> Inl Spin" for cs buf
  proof (induction cs arbitrary: buf)
    case (Cons c cs)
    have "copy_up c buf \<noteq> Inl Spin" by (cases c) (auto simp: copy_up_def kres)
    with Cons show ?case by (auto simp: kres)
  qed simp
  have cl: "for_each clear_last xs buf \<noteq> Inl Spin" for xs buf
  proof (induction xs arbitrary: buf)
    case (Cons x xs)
    have "clear_last x buf \<noteq> Inl Spin" by (auto simp: clear_last_def kres Let_def)
    with Cons show ?case by (auto simp: kres)
  qed simp
  have "vga_colour d c \<noteq> Inl Spin" for d c by (auto simp: vga_colour_def kres)
  then have "t_putch r ch y x v \<noteq> Inl Spin" for r ch y x v by (auto simp: t_putch_def kres Let_def)
  with cu cl show ?thesis by (auto simp: calm_def vga_backend_def t_curto_def t_scroll_up_def kres Let_def)
qed

section \<open>Properties\<close>

text \<open>The rendition after initialisation.\<close>

definition plain_rendition :: ansi_rendition where
  "plain_rendition = \<lparr>rfg = ANSI_DEFAULT, rbg = ANSI_DEFAULT, rbits = 0\<rparr>"

text \<open>
  Claim C4. The console shows what is written to it: after initialisation, writing any text of characters, line breaks
  and colour sequences succeeds, and the text buffer of the adapter shows the last 25 lines of that text, wrapped at 80
  columns, every character in the colours selected before it, and blanks elsewhere.
\<close>

theorem vga_shows_text:
  assumes "vga_ok v" "\<forall>it \<in> set its. out_ok (\<lambda>_. True) it"
  shows "\<exists>s0 t tb. tty_init attr v = Inr s0 \<and> tty_write seq0 (concat (map item_bytes its)) s0 = Inr (t, tb) \<and>
    shows_doc vga_backend vga_ok vga_cell vga_blank (fold (doc_item VGA_WIDTH vga_image) its (plain_rendition, [], [])) tb"
proof -
  have "vga_ok (enable_blink attr v)" using assms(1) by (simp add: vga_ok_def enable_blink_def)
  moreover have pr: "(rendition zero_term)\<lparr>rfg := ANSI_DEFAULT, rbg := ANSI_DEFAULT\<rparr> = plain_rendition"
    by (simp add: zero_term_def plain_rendition_def)
  moreover have "vga_image plain_rendition 32 = vga_blank"
    by (simp add: vga_image_def plain_rendition_def rnegative_def vga_pick_def vga_blank_def)
  ultimately obtain tb0 where tb0: "ansi_init vga_backend zero_term (enable_blink attr v) = Inr tb0"
    "shows_doc vga_backend vga_ok vga_cell vga_blank (plain_rendition, [], []) tb0"
    using vga.init_shows [of "enable_blink attr v" zero_term] by (auto simp: zero_term_def simp del: shows_doc.simps)
  have w: "nat (col_n vga_backend) = VGA_WIDTH" by (simp add: vga_backend_def)
  from vga.run_items [OF tb0(2) assms(2), of seq0] obtain tb where
    "ansi_run vga_backend seq0 (concat (map item_bytes its)) tb0 = Inr tb"
    "shows_doc vga_backend vga_ok vga_cell vga_blank (fold (doc_item VGA_WIDTH vga_image) its (plain_rendition, [], [])) tb"
    unfolding w by blast
  moreover from this(1) have "tty_write seq0 (concat (map item_bytes its)) (petix_tty_init, tb0) = Inr (petix_tty_init, tb)"
    unfolding tty_write_def numeral_2_eq_2 by (rule write_run)
  moreover have "tty_init attr v = Inr (petix_tty_init, tb0)" using tb0(1) by (simp add: tty_init_def)
  ultimately show ?thesis by blast
qed

definition blank_entry :: vga_entry where
  "blank_entry = \<lparr>vch = 0, vfg = 0, vbold = False, vbg = 0, vblink = False\<rparr>"

theorem vga_shows_text_witness:
  "\<exists>s0 t tb. tty_init 0 \<lparr>term_buff = replicate 2000 blank_entry, vports = []\<rparr> = Inr s0 \<and>
    tty_write [] [27, 91, 51, 49, 109, 104, 105, 10, 33] s0 = Inr (t, tb) \<and>
    vga_cell (snd tb) 0 1 = (105, 0, Some (4, False)) \<and> vga_cell (snd tb) 1 0 = (33, 0, Some (4, False))"
proof -
  let ?its = "[Sgr [31], Glyph 104, Glyph 105, Newline, Glyph 33]"
  have d: "dec 31 = [51, 49]" by (simp add: dec.simps)
  have b: "concat (map item_bytes ?its) = [27, 91, 51, 49, 109, 104, 105, 10, 33]" by (simp add: d)
  have r: "rendition_cmd 31 plain_rendition = \<lparr>rfg = 1, rbg = ANSI_DEFAULT, rbits = 0\<rparr>"
    by (simp add: rendition_cmd_def plain_rendition_def signed_divide_int_def signed_modulo_int_def)
  have img: "vga_image \<lparr>rfg = 1, rbg = ANSI_DEFAULT, rbits = 0\<rparr> c = (c, 0, if c = 32 then None else Some (4, False))" for c
    by (simp add: vga_image_def rnegative_def rbold_def vga_pick_def ansi_to_vga_def VGA_COLOR_BLACK_def ANSI_DEFAULT_def)
  have "\<forall>it \<in> set ?its. out_ok (\<lambda>_. True) it" by (simp add: plain_def)
  from vga_shows_text [OF _ this, of "\<lparr>term_buff = replicate 2000 blank_entry, vports = []\<rparr>" 0 "[]"]
  obtain s0 t tb where "tty_init 0 \<lparr>term_buff = replicate 2000 blank_entry, vports = []\<rparr> = Inr s0"
    "tty_write [] [27, 91, 51, 49, 109, 104, 105, 10, 33] s0 = Inr (t, tb)"
    "shows_doc vga_backend vga_ok vga_cell vga_blank (fold (doc_item VGA_WIDTH vga_image) ?its (plain_rendition, [], [])) tb"
    unfolding b by (auto simp: vga_ok_def VGA_HEIGHT_def VGA_WIDTH_def simp del: shows_doc.simps)
  moreover from this(3) have "vga_cell (snd tb) 0 1 = (105, 0, Some (4, False)) \<and> vga_cell (snd tb) 1 0 = (33, 0, Some (4, False))"
    by (cases tb) (auto simp: r img VGA_WIDTH_def vga_backend_def VGA_HEIGHT_def)
  ultimately show ?thesis by blast
qed


end
