(* ===== verification/Comtty.thy ===== *)
theory Comtty
  imports Vgatty
begin

unbundle bit_operations_syntax

text \<open>
  The serial console, \<open>kernel/device/tty/ttys/comtty.c\<close>, and the keyboard, \<open>kernel/device/tty/kbd.c\<close>: what types into
  the line discipline. What is written to the ports is a log; the bytes that wait in the serial port are an argument.
\<close>

section \<open>The source: the serial console\<close>

definition COM1_DATA :: u16 where "COM1_DATA = 0x3f8"
definition COM1_IE :: u16 where "COM1_IE = COM1_DATA + 1"
definition COM1_STATUS :: u16 where "COM1_STATUS = COM1_DATA + 5"

type_synonym comtty = "petix_tty \<times> port_access list"

definition com_putch :: "byte \<Rightarrow> comtty \<Rightarrow> kerr + comtty" where
  "com_putch ch s = Inr (fst s, snd s @ [Out COM1_DATA ch])"

text \<open>\<open>send_eoi\<close> of \<open>kernel/arch/i686/interrupts.c\<close>.\<close>

definition send_eoi :: "int \<Rightarrow> port_access list" where
  "send_eoi irq = (if irq \<ge> 8 then [Out 0xA0 0x20] else []) @ [Out 0x20 0x20]"

text \<open>
  \<open>com1_interrupt_handler\<close>: the loop reads the status register until its lowest bit is clear, which is after the bytes
  \<open>chs\<close> that have arrived.
\<close>

definition com1_char :: "byte \<Rightarrow> comtty \<Rightarrow> kerr + comtty" where
  "com1_char ch s = petix_tty_input_seq com_putch [if ch = 13 then 10 else ch] s"

definition com1_interrupt_handler :: "int \<Rightarrow> byte list \<Rightarrow> comtty \<Rightarrow> kerr + comtty" where
  "com1_interrupt_handler irq chs s =
     kbind (for_each com1_char chs s) (\<lambda>(t, ps). Inr (t, ps @ send_eoi irq))"

text \<open>\<open>imr\<close> is what \<open>IRQ_clear_mask\<close> reads from the interrupt controller.\<close>

definition comtty_init :: "byte \<Rightarrow> comtty" where
  "comtty_init imr =
     (petix_tty_init, [Out COM1_IE 1, Out (COM1_DATA + 2) 0xC7, Out 0x21 (imr AND NOT (push_bit 4 1))])"

definition comtty_write :: "byte list \<Rightarrow> comtty \<Rightarrow> kerr + comtty" where
  "comtty_write buf s = petix_tty_write com_putch buf s"

definition com_dev_open :: "kfile \<Rightarrow> int \<times> kfile" where
  "com_dev_open f = (0, f)"

definition com_dev_write :: "byte list \<Rightarrow> comtty \<Rightarrow> kerr + (int \<times> comtty)" where
  "com_dev_write buf s = kbind (comtty_write buf s) (\<lambda>s. Inr (int (length buf), s))"

definition com_dev_read :: "(petix_tty \<Rightarrow> petix_tty) list \<Rightarrow> byte \<Rightarrow> nat \<Rightarrow> comtty \<Rightarrow> kerr + (int \<times> byte list \<times> comtty)" where
  "com_dev_read evs before n s = kbind (petix_tty_read evs before n (fst s)) (\<lambda>(r, bs, t). Inr (r, bs, t, snd s))"

definition com_dev_ioctl :: "ioctl_req \<Rightarrow> ioctl_arg \<Rightarrow> comtty \<Rightarrow> kerr + (int \<times> ioctl_arg \<times> comtty)" where
  "com_dev_ioctl req arg s = kbind (petix_tty_ioctl (- 1) (- 1) req arg (fst s)) (\<lambda>(r, arg, t). Inr (r, arg, t, snd s))"

section \<open>The source: the keyboard\<close>

definition MAX_TTYS :: nat where "MAX_TTYS = 16"

definition en_map :: "byte list" where
  "en_map =
    [0, 27, 49, 50, 51, 52, 53, 54, 55, 56, 57, 48, 45, 61, 8, 9, 113, 119, 101, 114,
     116, 121, 117, 105, 111, 112, 91, 93, 10, 0, 97, 115, 100, 102, 103, 104, 106, 107, 108, 59,
     39, 96, 0, 92, 122, 120, 99, 118, 98, 110, 109, 44, 46, 47, 0, 42, 0, 32, 0, 0,
     0, 0, 0, 0, 0, 0, 0, 0, 0, 0, 0, 0, 0, 0, 45, 0, 0, 0, 43, 0,
     0, 0, 0, 0, 0, 0, 92, 0, 0, 0]
      @ replicate 38 0"

definition en_shift_map :: "byte list" where
  "en_shift_map =
    [0, 27, 33, 64, 35, 36, 37, 94, 38, 42, 40, 41, 95, 43, 8, 9, 81, 87, 69, 82,
     84, 89, 85, 73, 79, 80, 123, 125, 10, 0, 65, 83, 68, 70, 71, 72, 74, 75, 76, 58,
     34, 126, 0, 124, 90, 88, 67, 86, 66, 78, 77, 60, 62, 63, 0, 42, 0, 32, 0, 0,
     0, 0, 0, 0, 0, 0, 0, 0, 0, 0, 0, 0, 0, 0, 45, 0, 0, 0, 43, 0,
     0, 0, 0, 0, 0, 0, 124, 0, 0, 0]
      @ replicate 38 0"

text \<open>
  The keyboard keeps the terminals it types into; a terminal is a name here, and \<open>typ\<close> is \<open>petix_tty_input_seq\<close> on it.
\<close>

record kbd =
  kinit :: bool
  kttys :: "nat list"
  shifted :: bool
  ctrld :: bool

definition register_kbd_tty :: "nat \<Rightarrow> kbd \<Rightarrow> kerr + kbd" where
  "register_kbd_tty tty k =
     kbind (kassert (length (kttys k) \<noteq> MAX_TTYS)) (\<lambda>_. Inr (k\<lparr>kinit := True, kttys := kttys k @ [tty]\<rparr>))"

text \<open>\<open>None\<close> is the result -1.\<close>

definition sc_to_ascii :: "kbd \<Rightarrow> nat \<Rightarrow> kerr + byte option" where
  "sc_to_ascii k scancode =
     (if ctrld k
      then kbind (rd en_map scancode) (\<lambda>ch.
           Inr (if ch = 0 then None else Some (if ch \<ge> 97 then ch - 0x60 else 0)))
      else kbind (rd (if shifted k then en_shift_map else en_map) scancode) (\<lambda>ret.
           Inr (if ret = 0 then None else Some ret)))"

definition onkeypress :: "(nat \<Rightarrow> byte list \<Rightarrow> 's \<Rightarrow> kerr + 's) \<Rightarrow> nat \<Rightarrow> kbd \<times> 's \<Rightarrow> kerr + (kbd \<times> 's)" where
  "onkeypress typ scancode ks =
     (let (k, s) = ks in
      if scancode = 0x36 \<or> scancode = 0x2a then Inr (k\<lparr>shifted := True\<rparr>, s)
      else if scancode = 0xb6 \<or> scancode = 0xaa then Inr (k\<lparr>shifted := False\<rparr>, s)
      else if scancode = 0x1d then Inr (k\<lparr>ctrld := True\<rparr>, s)
      else if scancode = 0x9d then Inr (k\<lparr>ctrld := False\<rparr>, s)
      else if scancode < 0x80
      then kbind (sc_to_ascii k scancode) (\<lambda>r.
           case r of None \<Rightarrow> Inr (k, s)
           | Some ch \<Rightarrow> kbind (for_each (\<lambda>tty. typ tty [ch]) (kttys k) s) (\<lambda>s. Inr (k, s)))
      else Inr (k, s))"

section \<open>The serial console as an output\<close>

interpretation com: tty_output com_putch "\<lambda>_. True" "\<lambda>_. True"
  by unfold_locales (simp add: com_putch_def)

lemma com_keeps: "out_keeps com_putch"
  by (simp add: out_keeps_def com_putch_def)

lemma com1_chars:
  "13 \<notin> set ks \<Longrightarrow> for_each com1_char (ks @ [13]) s = for_each (\<lambda>k. petix_tty_input_seq com_putch [k]) (ks @ [10]) s"
proof -
  assume "13 \<notin> set ks"
  then have m: "map (\<lambda>ch. if ch = 13 then 10 else ch) (ks @ [13]) = ks @ [10]" by (auto intro: map_idI)
  have f: "for_each com1_char xs s = for_each (\<lambda>k. petix_tty_input_seq com_putch [k]) (map (\<lambda>ch. if ch = 13 then 10 else ch) xs) s" for xs s
  proof (induction xs arbitrary: s)
    case (Cons x xs)
    then show ?case
      by (cases "petix_tty_input_seq com_putch [if x = 13 then 10 else x] s") (simp_all add: com1_char_def)
  qed simp
  show ?thesis unfolding f [of "ks @ [13]" s] m ..
qed

section \<open>The keyboard\<close>

text \<open>The scancodes that type something, with and without shift, and the keys of the alphabet with control.\<close>

lemma en_map_length [simp]: "length en_map = 128" "length en_shift_map = 128"
  by (simp_all add: en_map_def en_shift_map_def)

lemma scancode_ascii: "scancode < 0x80 \<Longrightarrow> \<exists>r. sc_to_ascii k scancode = Inr r \<and> (\<forall>ch. r = Some ch \<longrightarrow> ch < 128)"
proof -
  assume sc: "scancode < 0x80"
  have m: "\<forall>c \<in> set en_map. c < 128" "\<forall>c \<in> set en_map. c < 123" "\<forall>c \<in> set en_shift_map. c < 128"
    by (simp_all add: en_map_def en_shift_map_def)
  have e: "en_map ! scancode < 128" "en_shift_map ! scancode < 128" "en_map ! scancode < 123" using m sc by simp_all
  have "x - 0x60 < 128" if "97 \<le> x" "x < 123" for x :: byte
    using that by unat_arith
  with sc e show ?thesis by (auto simp: sc_to_ascii_def)
qed

section \<open>Properties\<close>

text \<open>The events of the serial console.\<close>

inductive com_step :: "comtty \<Rightarrow> comtty \<Rightarrow> bool" where
  com_irq: "com1_interrupt_handler irq chs s = Inr s' \<Longrightarrow> com_step s s'"
| com_write: "com_dev_write buf s = Inr (r, s') \<Longrightarrow> com_step s s'"
| com_read: "com_dev_read evs before n s = Inr (r, bs, s') \<Longrightarrow> \<forall>e \<in> set evs. \<forall>t. tty_ok t \<longrightarrow> tty_ok (e t) \<Longrightarrow> com_step s s'"
| com_ioctl: "com_dev_ioctl req arg s = Inr (r, arg', s') \<Longrightarrow> com_step s s'"

lemma com_step_ok: "com_step s s' \<Longrightarrow> tty_ok (fst s) \<Longrightarrow> tty_ok (fst s')"
proof (induction rule: com_step.induct)
  case (com_irq irq chs s s')
  then obtain t ps where r: "for_each com1_char chs s = Inr (t, ps)" "s' = (t, ps @ send_eoi irq)"
    by (auto simp: com1_interrupt_handler_def kres)
  have "tty_ok (fst (t, ps))" using r(1) com_irq.prems
    by (rule for_each_keeps) (auto simp: com1_char_def dest: input_seq_ok [OF com_keeps])
  with r(2) show ?case by simp
next
  case (com_write buf s r s')
  then show ?case by (auto simp: com_dev_write_def comtty_write_def kres dest: tty_write_ok [OF com_keeps])
next
  case (com_read evs before n s r bs s')
  then obtain t where "petix_tty_read evs before n (fst s) = Inr (r, bs, t)" "s' = (t, snd s)" by (auto simp: com_dev_read_def kres)
  with read_loop_ok [of evs before "[]" n "fst s" r bs t] com_read show ?case by (simp add: petix_tty_read_def)
next
  case (com_ioctl req arg s r arg' s')
  then show ?case
    by (auto simp: com_dev_ioctl_def petix_tty_ioctl_def kres tty_ok_def split: if_splits ioctl_arg.splits)
qed



text \<open>
  Claim C35. A line typed on the serial console is the line that is read: the characters up to a carriage return arrive
  in one interrupt or one at a time, backspace and delete take back the character before them, and a reader gets the
  edited line with a line feed, or as much of it as it asked for; when it has all of it the terminal is idle again.
\<close>

theorem serial_line_roundtrip:
  assumes "tty_holds t [] []" "c_lflag (tios t) AND ICANON \<noteq> 0" "\<forall>k \<in> set ks. k < 128 \<and> k \<noteq> 4 \<and> k \<noteq> 10 \<and> k \<noteq> 13"
    "length ks + 2 < TTY_BUFF_LEN" "0 < n"
  shows "\<exists>s1 got s2. com1_interrupt_handler irq (ks @ [13]) (t, ps) = Inr s1 \<and>
    com_dev_read evs before n s1 = Inr (int (min n (length (edit [] ks) + 1)), got, s2) \<and>
    take (min n (length (edit [] ks) + 1)) got = take n (edit [] ks @ [10]) \<and>
    (length (edit [] ks) < n \<longrightarrow> tty_holds (fst s2) [] [])"
proof -
  have k: "\<forall>k \<in> set ks. key_ok (\<lambda>_. True) k" using assms(3) by (simp add: key_ok_def)
  have "13 \<notin> set ks" using assms(3) by auto
  from com.type_and_read [OF assms(1) _ assms(2) k _ assms(4,5), of ps evs before] com1_chars [OF this, of "(t, ps)"]
  obtain t1 d1 got t2 where "for_each com1_char (ks @ [13]) (t, ps) = Inr (t1, d1)"
    "petix_tty_read evs before n t1 = Inr (int (min n (length (edit [] ks) + 1)), got, t2)"
    "take (min n (length (edit [] ks) + 1)) got = take n (edit [] ks @ [10])" "length (edit [] ks) < n \<longrightarrow> tty_holds t2 [] []"
    by auto
  then show ?thesis by (auto simp: com1_interrupt_handler_def com_dev_read_def)
qed

theorem serial_line_roundtrip_witness:
  "\<exists>s1 got s2. com1_interrupt_handler 4 (map of_char ''lx'' @ [127] @ map of_char ''s'' @ [13]) (comtty_init 0) = Inr s1 \<and>
    com_dev_read [] 0 100 s1 = Inr (3, got, s2) \<and> take 3 got = map of_char ''ls'' @ [10]"
proof -
  let ?ks = "[108, 120, 127, 115] :: byte list"
  have e: "edit [] ?ks = [108, 115]" by simp
  have "\<forall>k \<in> set ?ks. k < 128 \<and> k \<noteq> 4 \<and> k \<noteq> 10 \<and> k \<noteq> 13" by simp
  moreover have "c_lflag (tios petix_tty_init) AND ICANON \<noteq> 0" by (simp add: petix_tty_init_def ICANON_def ECHO_def ISIG_def)
  ultimately show ?thesis
    using serial_line_roundtrip [OF init_holds, of ?ks 100 4 "snd (comtty_init 0)" "[]" 0] unfolding e
    by (auto simp: comtty_init_def TTY_BUFF_LEN_def numeral_3_eq_3)
qed

end
