(* ===== verification/Spec2Isabelle.thy ===== *)
theory Spec2Isabelle
  imports Kmalloc Paging Pipe Devfs Tmpfs Exec Printf Comtty
begin

text \<open>
  A verification development for petix2, a small research Unix for x86-32.
\<close>

end
